(* ===== verification/Prelude.thy ===== *)
theory Prelude
  imports Main "HOL-Library.Word"
begin

text \<open>
  Shared material of the development: the machine integers of the Rust sources, the outcome
  of a piece of kernel code (it returns, it panics, or it is still looping when the observer
  stops waiting), the combinators the component models are written with, and a weakest
  liberal precondition calculus in which the components state what their code does.
\<close>

unbundle bit_operations_syntax

type_synonym u8 = "8 word"
type_synonym u16 = "16 word"
type_synonym u32 = "32 word"
type_synonym u64 = "64 word"

text \<open>
  Rust's \<open>usize\<close> is used for array lengths and indices only; it is modelled by \<open>nat\<close>.
  The places where a \<open>usize\<close> computation could exceed 64 bits carry their own check.
\<close>

type_synonym usize = nat

named_theorems wlp_simps \<open>equations that compute weakest liberal preconditions\<close>
named_theorems run_simps \<open>equations that run a program from a given state\<close>
named_theorems wlp_intros \<open>frame rules of the component operations\<close>

section \<open>Outcomes and programs\<close>

text \<open>The reasons for which the kernel's Rust code panics.\<close>

datatype panic =
    AssertFailed string
  | ExpectFailed string
  | ExplicitPanic string
  | FaultPanic string
  | IndexOutOfBounds
  | LengthMismatch
  | ArithOverflow
  | DivisionByZero

text \<open>\<open>FaultPanic\<close> is an explicit panic inside an exception handler, where interrupts are off.\<close>

text \<open>
  \<open>Ret x s\<close>: the code returned \<open>x\<close> in state \<open>s\<close>. \<open>Panic p s\<close>: it panicked.
  \<open>Hang s\<close>: a busy-wait loop was still waiting when its iteration bound was used up.
\<close>

datatype ('a, 's) outcome = Ret 'a 's | Panic panic 's | Hang 's

type_synonym ('a, 's) prog = "'s \<Rightarrow> ('a, 's) outcome"

definition return :: "'a \<Rightarrow> ('a, 's) prog" where
  "return x = (\<lambda>s. Ret x s)"

definition bind :: "('a, 's) prog \<Rightarrow> ('a \<Rightarrow> ('b, 's) prog) \<Rightarrow> ('b, 's) prog" where
  "bind m f = (\<lambda>s. case m s of Ret x s' \<Rightarrow> f x s' | Panic p s' \<Rightarrow> Panic p s' | Hang s' \<Rightarrow> Hang s')"

definition seq :: "('a, 's) prog \<Rightarrow> ('b, 's) prog \<Rightarrow> ('b, 's) prog" where
  "seq m k = bind m (\<lambda>_. k)"

definition fail :: "panic \<Rightarrow> ('a, 's) prog" where
  "fail p = (\<lambda>s. Panic p s)"

text \<open>Rust's \<open>assert!\<close> and \<open>Option::expect\<close>.\<close>

definition assert_that :: "bool \<Rightarrow> string \<Rightarrow> (unit, 's) prog" where
  "assert_that b msg = (if b then return () else fail (AssertFailed msg))"

definition expect :: "'a option \<Rightarrow> string \<Rightarrow> ('a, 's) prog" where
  "expect x msg = (case x of None \<Rightarrow> fail (ExpectFailed msg) | Some v \<Rightarrow> return v)"

text \<open>
  Unsigned arithmetic that panics on overflow, as in the development profile the kernel is
  built with: a \<open>usize\<close> result, a \<open>u8\<close> result, and a \<open>u64\<close> sum.
\<close>

definition usize_val :: "nat \<Rightarrow> (nat, 's) prog" where
  "usize_val x = (if x < 2 ^ 64 then return x else fail ArithOverflow)"

definition u8_val :: "nat \<Rightarrow> (u8, 's) prog" where
  "u8_val n = (if n < 256 then return (word_of_nat n) else fail ArithOverflow)"

definition u64_add :: "u64 \<Rightarrow> u64 \<Rightarrow> (u64, 's) prog" where
  "u64_add a b = (if unat a + unat b < 2 ^ 64 then return (a + b) else fail ArithOverflow)"

text \<open>Statements in sequence, a \<open>for\<close> loop without and with an accumulator.\<close>

primrec run_all :: "(unit, 's) prog list \<Rightarrow> (unit, 's) prog" where
  "run_all [] = return ()"
| "run_all (m # ms) = seq m (run_all ms)"

primrec for_each :: "'a list \<Rightarrow> ('a \<Rightarrow> (unit, 's) prog) \<Rightarrow> (unit, 's) prog" where
  "for_each [] body = return ()"
| "for_each (x # xs) body = seq (body x) (for_each xs body)"

primrec for_fold :: "'a list \<Rightarrow> ('a \<Rightarrow> 'b \<Rightarrow> ('b, 's) prog) \<Rightarrow> 'b \<Rightarrow> ('b, 's) prog" where
  "for_fold [] body acc = return acc"
| "for_fold (x # xs) body acc = bind (body x acc) (for_fold xs body)"

text \<open>The same program run \<open>n\<close> times, its results in order.\<close>

primrec repeat_prog :: "nat \<Rightarrow> ('a, 's) prog \<Rightarrow> ('a list, 's) prog" where
  "repeat_prog 0 m = return []"
| "repeat_prog (Suc n) m = bind m (\<lambda>x. bind (repeat_prog n m) (\<lambda>xs. return (x # xs)))"

text \<open>
  \<open>while cond {}\<close>: the condition is evaluated (with its side effects) until it is false,
  at most \<open>fuel\<close> times.
\<close>

primrec spin_while :: "nat \<Rightarrow> (bool, 's) prog \<Rightarrow> (unit, 's) prog" where
  "spin_while 0 c = (\<lambda>s. Hang s)"
| "spin_while (Suc n) c = bind c (\<lambda>b. if b then spin_while n c else return ())"

section \<open>Running programs\<close>

lemma bind_run [run_simps]:
  "bind m f s = (case m s of Ret x s' \<Rightarrow> f x s' | Panic p s' \<Rightarrow> Panic p s' | Hang s' \<Rightarrow> Hang s')"
  by (simp add: bind_def)

lemma return_run [run_simps]: "return x s = Ret x s"
  by (simp add: return_def)

lemma fail_run [run_simps]: "fail p s = Panic p s"
  by (simp add: fail_def)

lemma seq_run [run_simps]:
  "seq m k s = (case m s of Ret x s' \<Rightarrow> k s' | Panic p s' \<Rightarrow> Panic p s' | Hang s' \<Rightarrow> Hang s')"
  by (simp add: seq_def bind_def)

lemma assert_that_run [run_simps]:
  "assert_that b msg s = (if b then Ret () s else Panic (AssertFailed msg) s)"
  by (simp add: assert_that_def run_simps)

lemma expect_run [run_simps]:
  "expect x msg s = (case x of None \<Rightarrow> Panic (ExpectFailed msg) s | Some v \<Rightarrow> Ret v s)"
  by (simp add: expect_def run_simps split: option.splits)

lemma unsigned_checked_run [run_simps]:
  "usize_val n s = (if n < 2 ^ 64 then Ret n s else Panic ArithOverflow s)"
  "u64_add a b s = (if unat a + unat b < 2 ^ 64 then Ret (a + b) s else Panic ArithOverflow s)"
  by (simp_all add: usize_val_def u64_add_def run_simps)

lemma bind_return [simp]: "bind m return = m"
  by (rule ext) (simp add: run_simps split: outcome.splits)

lemma return_bind [simp]: "bind (return x) f = f x"
  by (rule ext) (simp add: run_simps)

lemma bind_assoc: "bind (bind m f) g = bind m (\<lambda>x. bind (f x) g)"
  by (rule ext) (simp add: run_simps split: outcome.splits)

lemma seq_assoc: "seq (seq a b) c = seq a (seq b c)"
  by (rule ext) (simp add: run_simps split: outcome.splits)

lemma seq_return [simp]: "seq (return x) m = m"
  by (rule ext) (simp add: run_simps)

lemma run_all_append: "run_all (xs @ ys) = seq (run_all xs) (run_all ys)"
  by (induction xs) (simp_all only: append_Nil append_Cons run_all.simps seq_return seq_assoc)

lemma for_each_append: "for_each (xs @ ys) f = seq (for_each xs f) (for_each ys f)"
  by (induction xs) (simp_all only: append_Nil append_Cons for_each.simps seq_return seq_assoc)

lemma for_each_map: "for_each (map g xs) f = for_each xs (\<lambda>x. f (g x))"
  by (induction xs) simp_all

lemma for_each_cong: "(\<And>x. x \<in> set xs \<Longrightarrow> f x = g x) \<Longrightarrow> for_each xs f = for_each xs g"
  by (induction xs) simp_all

lemma for_each_nested:
  "for_each ys (\<lambda>y. for_each (xs y) (f y)) =
     for_each (concat (map (\<lambda>y. map (Pair y) (xs y)) ys)) (\<lambda>(y, x). f y x)"
  by (induction ys) (simp_all add: for_each_append for_each_map)

lemma for_each_filter:
  "for_each xs (\<lambda>x. if P x then f x else return ()) = for_each (filter P xs) f"
  by (induction xs) simp_all

lemma for_fold_append: "for_fold (xs @ ys) f a = bind (for_fold xs f a) (for_fold ys f)"
proof (induction xs arbitrary: a)
  case Nil
  show ?case by (simp only: append_Nil for_fold.simps return_bind)
next
  case (Cons x xs)
  then have "for_fold (xs @ ys) f = (\<lambda>b. bind (for_fold xs f b) (for_fold ys f))"
    by (intro ext) simp
  then show ?case by (simp only: append_Cons for_fold.simps bind_assoc)
qed

text \<open>
  A loop whose body is a pure update returns the fold of that update and leaves the state
  alone.
\<close>

lemma for_fold_pure:
  assumes "\<And>x a s. I s \<Longrightarrow> x \<in> set xs \<Longrightarrow> \<exists>s'. f x a s = Ret (g x a) s' \<and> I s'"
    and "I s"
  shows "\<exists>s'. for_fold xs f a s = Ret (fold g xs a) s' \<and> I s'"
  using assms
proof (induction xs arbitrary: a s)
  case Nil
  then show ?case by (simp add: run_simps)
next
  case (Cons x xs)
  from Cons.prems obtain s1 where s1: "f x a s = Ret (g x a) s1" "I s1"
    by (meson list.set_intros(1))
  have "\<exists>s'. for_fold xs f (g x a) s1 = Ret (fold g xs (g x a)) s' \<and> I s'"
    by (rule Cons.IH) (use Cons.prems s1 in auto)
  with s1 show ?case by (simp add: run_simps)
qed

section \<open>Busy waiting\<close>

lemma spin_while_run:
  assumes "\<And>i. i < k \<Longrightarrow> c (st i) = Ret True (st (Suc i))"
    and "c (st k) = Ret False (st (Suc k))" and "k < n"
  shows "spin_while n c (st 0) = Ret () (st (Suc k))"
  using assms
proof (induction k arbitrary: n st)
  case 0
  then obtain m where "n = Suc m" by (cases n) auto
  with 0 show ?case by (simp add: run_simps)
next
  case (Suc k)
  then obtain m where m: "n = Suc m" "k < m" by (cases n) auto
  have "spin_while m c ((\<lambda>i. st (Suc i)) 0) = Ret () ((\<lambda>i. st (Suc i)) (Suc k))"
    by (rule Suc.IH) (use Suc.prems m in auto)
  with Suc.prems(1) [of 0] m show ?case by (simp add: run_simps)
qed

lemma spin_while_mono:
  assumes "spin_while n c s = Ret () s'" and "n \<le> m"
  shows "spin_while m c s = Ret () s'"
  using assms
proof (induction n arbitrary: m s)
  case 0
  then show ?case by simp
next
  case (Suc n)
  then obtain m' where "m = Suc m'" "n \<le> m'" by (cases m) auto
  with Suc show ?case by (auto simp: run_simps split: outcome.splits if_splits)
qed

section \<open>Weakest liberal preconditions\<close>

text \<open>
  \<open>wlp m Q s\<close>: if \<open>m\<close> started in \<open>s\<close> returns, then \<open>Q\<close> holds of the result. The
  total version \<open>wp\<close> also asks that it returns.
\<close>

definition wlp :: "('a, 's) prog \<Rightarrow> ('a \<Rightarrow> 's \<Rightarrow> bool) \<Rightarrow> 's \<Rightarrow> bool" where
  "wlp m Q s = (case m s of Ret x s' \<Rightarrow> Q x s' | Panic p s' \<Rightarrow> True | Hang s' \<Rightarrow> True)"

definition wp :: "('a, 's) prog \<Rightarrow> ('a \<Rightarrow> 's \<Rightarrow> bool) \<Rightarrow> 's \<Rightarrow> bool" where
  "wp m Q s = (case m s of Ret x s' \<Rightarrow> Q x s' | Panic p s' \<Rightarrow> False | Hang s' \<Rightarrow> False)"

lemma wlpD: "wlp m Q s \<Longrightarrow> m s = Ret x s' \<Longrightarrow> Q x s'"
  by (simp add: wlp_def)

lemma wlpI: "(\<And>x s'. m s = Ret x s' \<Longrightarrow> Q x s') \<Longrightarrow> wlp m Q s"
  by (simp add: wlp_def split: outcome.splits)

lemma wlp_return [wlp_simps]: "wlp (return x) Q s = Q x s"
  by (simp add: wlp_def run_simps)

lemma wlp_bind [wlp_simps]: "wlp (bind m f) Q s = wlp m (\<lambda>x. wlp (f x) Q) s"
  by (simp add: wlp_def run_simps split: outcome.splits)

lemma wlp_seq [wlp_simps]: "wlp (seq m k) Q s = wlp m (\<lambda>_. wlp k Q) s"
  by (simp add: wlp_def run_simps split: outcome.splits)

lemma wlp_fail [wlp_simps]: "wlp (fail p) Q s = True"
  by (simp add: wlp_def run_simps)

lemma wlp_assert_that [wlp_simps]: "wlp (assert_that b msg) Q s = (b \<longrightarrow> Q () s)"
  by (simp add: wlp_def run_simps)

lemma wlp_expect [wlp_simps]: "wlp (expect x msg) Q s = (\<forall>v. x = Some v \<longrightarrow> Q v s)"
  by (simp add: wlp_def run_simps split: option.splits)

lemma wlp_if [wlp_simps]: "wlp (if b then m else k) Q s = (if b then wlp m Q s else wlp k Q s)"
  by simp

lemma wlp_mono: "wlp m Q s \<Longrightarrow> (\<And>x t. Q x t \<Longrightarrow> R x t) \<Longrightarrow> wlp m R s"
  by (auto simp: wlp_def split: outcome.splits)

lemma wlp_spin_while:
  assumes "I s" and "\<And>t. I t \<Longrightarrow> wlp c (\<lambda>b u. if b then I u else Q () u) t"
  shows "wlp (spin_while n c) Q s"
  using assms(1)
proof (induction n arbitrary: s)
  case 0
  then show ?case by (simp add: wlp_def)
next
  case (Suc n)
  have "wlp c (\<lambda>b. wlp (if b then spin_while n c else return ()) Q) s"
    by (rule wlp_mono [OF assms(2) [OF Suc.prems]]) (auto simp: wlp_return intro: Suc.IH split: if_splits)
  then show ?case by (simp add: wlp_bind)
qed

lemma wlp_for_each:
  assumes "I s" and "\<And>x t. x \<in> set xs \<Longrightarrow> I t \<Longrightarrow> wlp (body x) (\<lambda>_. I) t"
  shows "wlp (for_each xs body) (\<lambda>_. I) s"
  using assms
proof (induction xs arbitrary: s)
  case Nil
  then show ?case by (simp add: wlp_return)
next
  case (Cons x xs)
  have "wlp (body x) (\<lambda>_. wlp (for_each xs body) (\<lambda>_. I)) s"
    by (rule wlp_mono [OF Cons.prems(2)]) (use Cons in auto)
  then show ?case by (simp add: wlp_seq)
qed

lemma wp_return: "wp (return x) Q s = Q x s"
  by (simp add: wp_def run_simps)

lemma wp_bind: "wp (bind m f) Q s = wp m (\<lambda>x. wp (f x) Q) s"
  by (simp add: wp_def run_simps split: outcome.splits)

lemma wp_seq: "wp (seq m k) Q s = wp m (\<lambda>_. wp k Q) s"
  by (simp add: wp_def run_simps split: outcome.splits)

lemma wp_wlp: "wp m Q s \<longleftrightarrow> (\<exists>x s'. m s = Ret x s') \<and> wlp m Q s"
  by (simp add: wp_def wlp_def split: outcome.splits)

section \<open>Lists\<close>

lemma nth_list_update_mod:
  "i < length xs \<Longrightarrow> xs[i := x] ! j = (if i = j then x else xs ! j)"
  by (simp add: nth_list_update)

lemma take_while_all_or_stop:
  "i < length (takeWhile P xs) \<Longrightarrow> P (xs ! i)"
  by (metis nth_mem set_takeWhileD takeWhile_nth)

lemma take_append_take: "take n (take n xs @ ys) = take n (xs @ ys)"
  by (simp add: min_def)

lemma mod_wrap: "a < 2 * n \<Longrightarrow> a mod n = (if a < n then a else a - n)" for a n :: nat
  by (simp add: mod_if)

lemma mod_Suc_less [simp]: "0 < n \<Longrightarrow> Suc i mod n < n"
  by simp

text \<open>Positional notation: a number determines its digits.\<close>

lemma radix_unique:
  fixes x y x' y' b :: nat
  assumes "y * b + x = y' * b + x'" and "x < b" and "x' < b"
  shows "x = x'" "y = y'"
proof -
  have "(y * b + x) mod b = x" "(y' * b + x') mod b = x'" "(y * b + x) div b = y" "(y' * b + x') div b = y'"
    using assms(2,3) by simp_all
  then show "x = x'" "y = y'" using assms(1) by metis+
qed

section \<open>Words\<close>

text \<open>Masks, shifts and casts as arithmetic on the unsigned value.\<close>

lemma unat_and_mask: "unat (w AND mask n) = unat w mod 2 ^ n" for w :: "'a::len word"
  by (simp only: take_bit_eq_mask [symmetric] unsigned_take_bit_eq) (simp only: take_bit_eq_mod)

lemma unat_drop_bit: "unat (drop_bit n w) = unat w div 2 ^ n" for w :: "'a::len word"
  by (simp only: unat_drop_bit_eq) (simp only: drop_bit_eq_div)

lemma unat_ucast: "unat (ucast w :: 'b::len word) = unat w mod 2 ^ LENGTH('b)" for w :: "'a::len word"
  by (simp add: unsigned_ucast_eq take_bit_eq_mod)

text \<open>A field above \<open>n\<close> bits, ored or added to a value of \<open>n\<close> bits.\<close>

lemma or_low_field: "lo < 2 ^ n \<Longrightarrow> hi * 2 ^ n OR lo = hi * 2 ^ n + lo" for lo hi :: nat
proof -
  assume "lo < 2 ^ n"
  then have lo: "lo = take_bit n lo" by (simp add: take_bit_nat_eq_self)
  have "push_bit n hi AND take_bit n lo = 0" by (rule bit_eqI) (auto simp: bit_simps)
  from disjunctive_add_eq_or [OF this] lo show ?thesis by (simp add: push_bit_eq_mult)
qed

lemma unat_push_bit: "unat w * 2 ^ n < 2 ^ LENGTH('a) \<Longrightarrow> unat (push_bit n w) = unat w * 2 ^ n" for w :: "'a::len word"
  by (simp only: unsigned_push_bit_eq) (simp add: take_bit_eq_mod push_bit_eq_mult)

lemma unat_or: "unat (v OR w) = unat v OR unat w" for v w :: "'a::len word"
  by (simp add: unsigned_or_eq)

lemma u16_low_byte: "unat (ucast (d AND 0xFF) :: u8) = unat d mod 256" for d :: u16
proof -
  have m: "(0xFF :: u16) = mask 8" by (simp add: mask_eq_exp_minus_1)
  show ?thesis unfolding m unat_ucast unat_and_mask by simp
qed

lemma u16_high_byte: "unat (ucast (drop_bit 8 d) :: u8) = unat d div 256" for d :: u16
proof -
  have "unat d < 2 ^ LENGTH(16)" by (rule unsigned_less)
  then show ?thesis by (simp add: unat_ucast unat_drop_bit)
qed

section \<open>Code that returns within a frame\<close>

text \<open>
  From every state with \<open>ok\<close>, \<open>m\<close> returns a value in \<open>Q\<close> and a state that \<open>keeps\<close> relates to the
  first. Components use this contract with their own relation, which says what their code
  leaves alone; when the relation composes, so do the contracts.
\<close>

definition returns_within :: "('s \<Rightarrow> bool) \<Rightarrow> ('s \<Rightarrow> 's \<Rightarrow> bool) \<Rightarrow> ('a, 's) prog \<Rightarrow> ('a \<Rightarrow> bool) \<Rightarrow> bool" where
  "returns_within ok keeps m Q \<longleftrightarrow> (\<forall>s. ok s \<longrightarrow> (\<exists>x s'. m s = Ret x s' \<and> keeps s s' \<and> Q x))"

lemma returns_withinI:
  "(\<And>s. ok s \<Longrightarrow> \<exists>x s'. m s = Ret x s' \<and> keeps s s' \<and> Q x) \<Longrightarrow> returns_within ok keeps m Q"
  by (simp add: returns_within_def)

lemma returns_withinD:
  assumes "returns_within ok keeps m Q" and "ok s"
  obtains x s' where "m s = Ret x s'" "keeps s s'" "Q x"
  using assms unfolding returns_within_def by blast

locale framed =
  fixes ok :: "'s \<Rightarrow> bool" and keeps :: "'s \<Rightarrow> 's \<Rightarrow> bool"
  assumes keeps_refl: "ok s \<Longrightarrow> keeps s s"
    and keeps_trans: "keeps s t \<Longrightarrow> keeps t u \<Longrightarrow> keeps s u"
    and keeps_ok: "ok s \<Longrightarrow> keeps s t \<Longrightarrow> ok t"
begin

lemma within_return: "Q x \<Longrightarrow> returns_within ok keeps (return x) Q"
  by (auto simp: returns_within_def run_simps intro: keeps_refl)

lemma within_bind:
  assumes "returns_within ok keeps m P" and "\<And>x. P x \<Longrightarrow> returns_within ok keeps (f x) Q"
  shows "returns_within ok keeps (bind m f) Q"
proof (rule returns_withinI)
  fix s
  assume s: "ok s"
  obtain x t where t: "m s = Ret x t" "keeps s t" "P x" using assms(1) s by (rule returns_withinD)
  obtain y u where "f x t = Ret y u" "keeps t u" "Q y"
    using assms(2) [OF t(3)] keeps_ok [OF s t(2)] by (rule returns_withinD)
  with t show "\<exists>y u. bind m f s = Ret y u \<and> keeps s u \<and> Q y" by (auto simp: bind_run intro: keeps_trans)
qed

lemma within_seq:
  "returns_within ok keeps m (\<lambda>_. True) \<Longrightarrow> returns_within ok keeps k Q \<Longrightarrow> returns_within ok keeps (seq m k) Q"
  unfolding seq_def by (rule within_bind)

lemma within_for_each:
  "(\<And>x. x \<in> set xs \<Longrightarrow> returns_within ok keeps (f x) (\<lambda>_. True)) \<Longrightarrow>
     returns_within ok keeps (for_each xs f) (\<lambda>_. True)"
  by (induction xs) (auto intro: within_return within_seq)

lemma within_run_all:
  "list_all (\<lambda>m. returns_within ok keeps m (\<lambda>_. True)) ms \<Longrightarrow> returns_within ok keeps (run_all ms) (\<lambda>_. True)"
  by (induction ms) (auto intro: within_return within_seq)

lemma within_for_fold:
  "(\<And>x a. x \<in> set xs \<Longrightarrow> returns_within ok keeps (f x a) (\<lambda>r. r = g x a)) \<Longrightarrow>
     returns_within ok keeps (for_fold xs f a) (\<lambda>r. r = fold g xs a)"
  by (induction xs arbitrary: a) (auto intro: within_return within_bind)

end

text \<open>
  A contract with an account of what happened: \<open>keeps as s t\<close> also says that \<open>as\<close> took place from
  \<open>s\<close> to \<open>t\<close>. Accounts are appended when contracts are composed; code with nothing to tell is in a
  plain frame.
\<close>

locale graded =
  fixes ok :: "'s \<Rightarrow> bool" and keeps :: "'g list \<Rightarrow> 's \<Rightarrow> 's \<Rightarrow> bool"
  assumes nil: "ok s \<Longrightarrow> keeps [] s s"
    and account: "keeps as s t \<Longrightarrow> keeps bs t u \<Longrightarrow> keeps (as @ bs) s u"
    and account_ok: "ok s \<Longrightarrow> keeps as s t \<Longrightarrow> ok t"
begin

lemma graded_bind:
  assumes "returns_within ok (keeps as) m P" and "\<And>x. P x \<Longrightarrow> returns_within ok (keeps bs) (f x) Q"
  shows "returns_within ok (keeps (as @ bs)) (bind m f) Q"
proof (rule returns_withinI)
  fix s
  assume s: "ok s"
  obtain x t where t: "m s = Ret x t" "keeps as s t" "P x" using assms(1) s by (rule returns_withinD)
  obtain y u where "f x t = Ret y u" "keeps bs t u" "Q y"
    using assms(2) [OF t(3)] account_ok [OF s t(2)] by (rule returns_withinD)
  with t show "\<exists>y u. bind m f s = Ret y u \<and> keeps (as @ bs) s u \<and> Q y" by (auto simp: bind_run intro: account)
qed

lemma graded_seq:
  "returns_within ok (keeps as) m (\<lambda>_. True) \<Longrightarrow> returns_within ok (keeps bs) k Q \<Longrightarrow>
     returns_within ok (keeps (as @ bs)) (seq m k) Q"
  unfolding seq_def by (rule graded_bind)

end

sublocale graded < silent: framed ok "keeps []"
proof unfold_locales
  show "keeps [] s u" if "keeps [] s t" "keeps [] t u" for s t u using account [OF that] by simp
qed (blast intro: nil account_ok)+

end
