(* ===== verification/Hardware.thy ===== *)
theory Hardware
  imports Prelude
begin

text \<open>
  The boundary between the kernel and everything that is not its code: devices behind I/O
  ports and memory-mapped registers, the CPU instructions issued through the
  \<^verbatim>\<open>x86_64\<close> crate, the heap allocator crate, and device DMA.

  Every access the kernel makes is an event; the events made so far, oldest first, are the
  \<open>trace\<close> of the machine. What a device answers to a read may depend on everything that
  happened before, so an environment answers a read as a function of the trace. An
  environment is a parameter of every definition that touches the hardware: nothing about a
  device is fixed here, and the hypotheses a property needs about one are part of its
  statement.
\<close>

section \<open>Events\<close>

datatype cpu_op =
    Hlt
  | Sti
  | Int3
  | Lgdt "u64 list"
  | SetCS u16
  | SetSS u16
  | SetDS u16
  | SetES u16
  | Ltr u16
  | Lidt

datatype bus_event =
    In8 u16 u8
  | Out8 u16 u8
  | In32 u16 u32
  | Out32 u16 u32
  | MRead8 u64 u8
  | MRead32 u64 u32
  | MWrite16 u64 u16
  | MWrite32 u64 u32
  | Store u64 nat u64
  | Load32 u64 u32
  | Alloc usize usize u64
  | Dealloc u64 usize usize
  | Cpu cpu_op
  | PicInitialize
  | Eoi u8

text \<open>
  \<open>Store a w v\<close> and \<open>Load32 a v\<close> are accesses to ordinary memory that a device also reads
  and writes by DMA (\<open>w\<close> is the width in bytes); \<open>Alloc size align a\<close> and \<open>Dealloc a size align\<close>
  are calls of the global allocator.
\<close>

record machine =
  trace :: "bus_event list"

text \<open>
  An environment. \<open>fuel\<close> bounds the number of times a busy-wait loop is run before the
  model gives up with \<^const>\<open>Hang\<close>; the other fields are the answers of the outside world:
  port and register reads, what device-shared memory holds, the address a heap allocation returns, the vectors of the interrupts
  that arrive while the CPU is halted, the instruction pointer an exception pushes, and what
  the \<open>Debug\<close> formatters of foreign types print.
\<close>

record env =
  fuel :: nat
  port8 :: "bus_event list \<Rightarrow> u16 \<Rightarrow> u8"
  port32 :: "bus_event list \<Rightarrow> u16 \<Rightarrow> u32"
  mmio8 :: "bus_event list \<Rightarrow> u64 \<Rightarrow> u8"
  mmio32 :: "bus_event list \<Rightarrow> u64 \<Rightarrow> u32"
  dma32 :: "bus_event list \<Rightarrow> u64 \<Rightarrow> u32"
  heap_alloc :: "bus_event list \<Rightarrow> usize \<Rightarrow> usize \<Rightarrow> u64"
  irqs :: "bus_event list \<Rightarrow> u8 list"
  frame_ip :: "bus_event list \<Rightarrow> u64"
  debug_text :: "bus_event list \<Rightarrow> string \<Rightarrow> string"

section \<open>Accesses\<close>

definition emit :: "bus_event \<Rightarrow> (unit, 'z machine_scheme) prog" where
  "emit e = (\<lambda>s. Ret () (s\<lparr>trace := trace s @ [e]\<rparr>))"

definition in8 :: "env \<Rightarrow> u16 \<Rightarrow> (u8, 'z machine_scheme) prog" where
  "in8 E p = (\<lambda>s. let v = port8 E (trace s) p in Ret v (s\<lparr>trace := trace s @ [In8 p v]\<rparr>))"

definition in32 :: "env \<Rightarrow> u16 \<Rightarrow> (u32, 'z machine_scheme) prog" where
  "in32 E p = (\<lambda>s. let v = port32 E (trace s) p in Ret v (s\<lparr>trace := trace s @ [In32 p v]\<rparr>))"

definition read8 :: "env \<Rightarrow> u64 \<Rightarrow> (u8, 'z machine_scheme) prog" where
  "read8 E a = (\<lambda>s. let v = mmio8 E (trace s) a in Ret v (s\<lparr>trace := trace s @ [MRead8 a v]\<rparr>))"

definition read32 :: "env \<Rightarrow> u64 \<Rightarrow> (u32, 'z machine_scheme) prog" where
  "read32 E a = (\<lambda>s. let v = mmio32 E (trace s) a in Ret v (s\<lparr>trace := trace s @ [MRead32 a v]\<rparr>))"

definition load32 :: "env \<Rightarrow> u64 \<Rightarrow> (u32, 'z machine_scheme) prog" where
  "load32 E a = (\<lambda>s. let v = dma32 E (trace s) a in Ret v (s\<lparr>trace := trace s @ [Load32 a v]\<rparr>))"

text \<open>\<open>alloc(layout)\<close>: the address may be null.\<close>

definition alloc_layout :: "env \<Rightarrow> usize \<Rightarrow> usize \<Rightarrow> (u64, 'z machine_scheme) prog" where
  "alloc_layout E sz al = (\<lambda>s. let a = heap_alloc E (trace s) sz al in
     Ret a (s\<lparr>trace := trace s @ [Alloc sz al a]\<rparr>))"

definition out8 :: "u16 \<Rightarrow> u8 \<Rightarrow> (unit, 'z machine_scheme) prog" where
  "out8 p v = emit (Out8 p v)"

definition out32 :: "u16 \<Rightarrow> u32 \<Rightarrow> (unit, 'z machine_scheme) prog" where
  "out32 p v = emit (Out32 p v)"

definition write16 :: "u64 \<Rightarrow> u16 \<Rightarrow> (unit, 'z machine_scheme) prog" where
  "write16 a v = emit (MWrite16 a v)"

definition write32 :: "u64 \<Rightarrow> u32 \<Rightarrow> (unit, 'z machine_scheme) prog" where
  "write32 a v = emit (MWrite32 a v)"

lemmas access_defs = in8_def in32_def read8_def read32_def load32_def alloc_layout_def
  out8_def out32_def write16_def write32_def emit_def

text \<open>The MMIO writes of a trace, and the writes to I/O ports.\<close>

fun is_mmio_write :: "bus_event \<Rightarrow> bool" where
  "is_mmio_write (MWrite16 a v) = True"
| "is_mmio_write (MWrite32 a v) = True"
| "is_mmio_write _ = False"

fun is_port_write :: "bus_event \<Rightarrow> bool" where
  "is_port_write (Out8 p v) = True"
| "is_port_write (Out32 p v) = True"
| "is_port_write _ = False"

abbreviation mmio_writes :: "bus_event list \<Rightarrow> bus_event list" where
  "mmio_writes \<equiv> filter is_mmio_write"

abbreviation port_writes :: "bus_event list \<Rightarrow> bus_event list" where
  "port_writes \<equiv> filter is_port_write"

section \<open>Weakest liberal preconditions of the accesses\<close>

lemma wlp_emit [wlp_simps]: "wlp (emit e) Q s = Q () (s\<lparr>trace := trace s @ [e]\<rparr>)"
  by (simp add: wlp_def emit_def)

lemma wlp_out8 [wlp_simps]: "wlp (out8 p v) Q s = Q () (s\<lparr>trace := trace s @ [Out8 p v]\<rparr>)"
  by (simp add: out8_def wlp_emit)

lemma wlp_out32 [wlp_simps]: "wlp (out32 p v) Q s = Q () (s\<lparr>trace := trace s @ [Out32 p v]\<rparr>)"
  by (simp add: out32_def wlp_emit)

lemma wlp_write16 [wlp_simps]:
  "wlp (write16 a v) Q s = Q () (s\<lparr>trace := trace s @ [MWrite16 a v]\<rparr>)"
  by (simp add: write16_def wlp_emit)

lemma wlp_write32 [wlp_simps]:
  "wlp (write32 a v) Q s = Q () (s\<lparr>trace := trace s @ [MWrite32 a v]\<rparr>)"
  by (simp add: write32_def wlp_emit)

lemma wlp_in8 [wlp_simps]:
  "wlp (in8 E p) Q s =
     Q (port8 E (trace s) p) (s\<lparr>trace := trace s @ [In8 p (port8 E (trace s) p)]\<rparr>)"
  by (simp add: wlp_def in8_def Let_def)

lemma wlp_in32 [wlp_simps]:
  "wlp (in32 E p) Q s =
     Q (port32 E (trace s) p) (s\<lparr>trace := trace s @ [In32 p (port32 E (trace s) p)]\<rparr>)"
  by (simp add: wlp_def in32_def Let_def)

lemma wlp_read8 [wlp_simps]:
  "wlp (read8 E a) Q s =
     Q (mmio8 E (trace s) a) (s\<lparr>trace := trace s @ [MRead8 a (mmio8 E (trace s) a)]\<rparr>)"
  by (simp add: wlp_def read8_def Let_def)

lemma wlp_read32 [wlp_simps]:
  "wlp (read32 E a) Q s =
     Q (mmio32 E (trace s) a) (s\<lparr>trace := trace s @ [MRead32 a (mmio32 E (trace s) a)]\<rparr>)"
  by (simp add: wlp_def read32_def Let_def)

lemma wlp_load32 [wlp_simps]:
  "wlp (load32 E a) Q s =
     Q (dma32 E (trace s) a) (s\<lparr>trace := trace s @ [Load32 a (dma32 E (trace s) a)]\<rparr>)"
  by (simp add: wlp_def load32_def Let_def)

lemma wlp_alloc_layout [wlp_simps]:
  "wlp (alloc_layout E n al) Q s =
     Q (heap_alloc E (trace s) n al) (s\<lparr>trace := trace s @ [Alloc n al (heap_alloc E (trace s) n al)]\<rparr>)"
  by (simp add: wlp_def alloc_layout_def Let_def)

end
