(* ===== verification/Memory.thy ===== *)
theory Memory
  imports Prelude
begin

text \<open>
  \<^verbatim>\<open>kernel/src/memory.rs\<close>: the frame allocator over the bootloader's memory map and the
  walk of the active page tables. The address, frame and page-table types come from the
  \<^verbatim>\<open>x86_64\<close> crate, which is not part of the sources: its operations are the fields of the
  parameter \<open>x86_crate\<close>, and what its documentation promises is the predicate
  \<open>x86_documented\<close>.
\<close>

section \<open>The \<^verbatim>\<open>x86_64\<close> crate\<close>

text \<open>
  Addresses are their \<open>u64\<close> values, a frame or page is its start address. A field that
  returns an option is an operation that panics (\<open>phys_new\<close>, \<open>virt_new\<close>, \<open>virt_add\<close>, \<open>virt_sub\<close>) or
  returns an \<open>Err\<close> (\<open>entry_frame\<close>).
\<close>

record x86_crate =
  phys_new :: "u64 \<Rightarrow> u64 option"
  frame_containing :: "u64 \<Rightarrow> u64"
  virt_new :: "u64 \<Rightarrow> u64 option"
  virt_add :: "u64 \<Rightarrow> u64 \<Rightarrow> u64 option"
  virt_sub :: "u64 \<Rightarrow> u64 \<Rightarrow> u64 option"
  pages_inclusive :: "u64 \<Rightarrow> u64 \<Rightarrow> u64 list"
  p4_index :: "u64 \<Rightarrow> nat"
  p3_index :: "u64 \<Rightarrow> nat"
  p2_index :: "u64 \<Rightarrow> nat"
  p1_index :: "u64 \<Rightarrow> nat"
  entry_present :: "u64 \<Rightarrow> bool"
  entry_huge :: "u64 \<Rightarrow> bool"
  entry_addr :: "u64 \<Rightarrow> u64"
  entry_frame :: "u64 \<Rightarrow> u64 option"

definition ADDR_MASK :: u64 where
  "ADDR_MASK = 0x000FFFFFFFFFF000"

definition canonical :: "u64 \<Rightarrow> bool" where
  "canonical a \<longleftrightarrow> unat a < 2 ^ 47 \<or> 2 ^ 64 - 2 ^ 47 \<le> unat a"

definition table_index :: "nat \<Rightarrow> u64 \<Rightarrow> nat" where
  "table_index level v = unat (drop_bit (3 + 9 * level) v AND 0x1FF)"

text \<open>The pages from the one holding \<open>a\<close> to the one holding \<open>b\<close>.\<close>

definition pages_between :: "u64 \<Rightarrow> u64 \<Rightarrow> u64 list" where
  "pages_between a b =
     map (\<lambda>i. word_of_nat (4096 * i)) [unat a div 4096 ..< unat b div 4096 + 1]"

text \<open>The crate, written out from its documentation.\<close>

definition x86_reference :: x86_crate where
  "x86_reference = \<lparr>
     phys_new = (\<lambda>a. if unat a < 2 ^ 52 then Some a else None),
     frame_containing = (\<lambda>a. a AND NOT 0xFFF),
     virt_new = (\<lambda>a. if canonical a then Some a else None),
     virt_add = (\<lambda>a b. if unat a + unat b < 2 ^ 64 \<and> canonical (a + b) then Some (a + b) else None),
     virt_sub = (\<lambda>a b. if unat b \<le> unat a \<and> canonical (a - b) then Some (a - b) else None),
     pages_inclusive = pages_between,
     p4_index = table_index 4, p3_index = table_index 3,
     p2_index = table_index 2, p1_index = table_index 1,
     entry_present = (\<lambda>e. bit e 0), entry_huge = (\<lambda>e. bit e 7),
     entry_addr = (\<lambda>e. e AND ADDR_MASK),
     entry_frame = (\<lambda>e. if bit e 0 \<and> \<not> bit e 7 then Some (e AND ADDR_MASK) else None)\<rparr>"

text \<open>
  What the properties use of it: the physical addresses, the table indices and the entry
  fields; address addition is only required to add where it returns.
\<close>

definition x86_documented :: "x86_crate \<Rightarrow> bool" where
  "x86_documented X \<longleftrightarrow>
     (\<forall>a. phys_new X a = (if unat a < 2 ^ 52 then Some a else None)) \<and>
     (\<forall>a. frame_containing X a = a AND NOT 0xFFF) \<and>
     (\<forall>a b c. virt_add X a b = Some c \<longrightarrow> c = a + b) \<and>
     (\<forall>a. canonical a \<longrightarrow> virt_new X a = Some a) \<and>
     (\<forall>a b. canonical (a + b) \<longrightarrow> unat a + unat b < 2 ^ 64 \<longrightarrow> virt_add X a b = Some (a + b)) \<and>
     (\<forall>a b. canonical (a - b) \<longrightarrow> unat b \<le> unat a \<longrightarrow> virt_sub X a b = Some (a - b)) \<and>
     (\<forall>a b. canonical a \<longrightarrow> canonical b \<longrightarrow> pages_inclusive X a b = pages_between a b) \<and>
     p4_index X = table_index 4 \<and> p3_index X = table_index 3 \<and>
     p2_index X = table_index 2 \<and> p1_index X = table_index 1 \<and>
     (\<forall>e. entry_present X e = bit e 0) \<and> (\<forall>e. entry_huge X e = bit e 7) \<and>
     (\<forall>e. entry_addr X e = e AND ADDR_MASK) \<and>
     (\<forall>e. entry_frame X e = (if bit e 0 \<and> \<not> bit e 7 then Some (e AND ADDR_MASK) else None))"

lemma x86_reference_documented: "x86_documented x86_reference"
  by (simp add: x86_documented_def x86_reference_def)

lemma x86_virt_new: "x86_documented X \<Longrightarrow> canonical a \<Longrightarrow> virt_new X a = Some a"
  unfolding x86_documented_def by blast

lemma x86_virt_add:
  "x86_documented X \<Longrightarrow> canonical (a + b) \<Longrightarrow> unat a + unat b < 2 ^ 64 \<Longrightarrow> virt_add X a b = Some (a + b)"
  unfolding x86_documented_def by blast

section \<open>The frame allocator\<close>

datatype memory_region_kind = Usable | Bootloader | UnknownUefi u32 | UnknownBios u32

record memory_region =
  region_start :: u64
  region_end :: u64
  region_kind :: memory_region_kind

record frame_allocator =
  memory_regions :: "memory_region list"
  next_index :: usize

definition frame_allocator_init :: "memory_region list \<Rightarrow> frame_allocator" where
  "frame_allocator_init regions = \<lparr>memory_regions = regions, next_index = 0\<rparr>"

text \<open>\<open>(a..b).step_by(4096)\<close>.\<close>

definition step_range :: "u64 \<Rightarrow> u64 \<Rightarrow> u64 list" where
  "step_range a b = map (\<lambda>i. a + word_of_nat (4096 * i)) [0..<(unat b - unat a + 4095) div 4096]"

text \<open>
  The addresses the iterator \<open>usable_frames\<close> runs over, and the frame it makes of one (which
  panics on an address that is no physical address).
\<close>

definition usable_addrs :: "memory_region list \<Rightarrow> u64 list" where
  "usable_addrs regions =
     concat (map (\<lambda>r. step_range (region_start r) (region_end r))
       (filter (\<lambda>r. region_kind r = Usable) regions))"

definition frame_at :: "x86_crate \<Rightarrow> u64 \<Rightarrow> u64 option" where
  "frame_at X a = map_option (frame_containing X) (phys_new X a)"

text \<open>\<open>take_while(|f| f.start_address() < min_addr).count()\<close> and \<open>nth(n)\<close> over the iterator.\<close>

primrec count_below :: "x86_crate \<Rightarrow> u64 \<Rightarrow> u64 list \<Rightarrow> (nat, 's) prog" where
  "count_below X min_addr [] = return 0"
| "count_below X min_addr (a # as) =
     bind (expect (frame_at X a) ''PhysAddr::new'') (\<lambda>f.
       if f < min_addr then bind (count_below X min_addr as) (\<lambda>n. return (Suc n)) else return 0)"

primrec frames_nth :: "x86_crate \<Rightarrow> u64 list \<Rightarrow> nat \<Rightarrow> (u64 option, 's) prog" where
  "frames_nth X [] n = return None"
| "frames_nth X (a # as) n =
     bind (expect (frame_at X a) ''PhysAddr::new'') (\<lambda>f.
       case n of 0 \<Rightarrow> return (Some f) | Suc m \<Rightarrow> frames_nth X as m)"

definition skip_below :: "x86_crate \<Rightarrow> u64 \<Rightarrow> (unit, frame_allocator) prog" where
  "skip_below X min_addr = (\<lambda>s.
     bind (count_below X min_addr (usable_addrs (memory_regions s)))
       (\<lambda>skip_count s. Ret () (s\<lparr>next_index := skip_count\<rparr>)) s)"

definition allocate_frame :: "x86_crate \<Rightarrow> (u64 option, frame_allocator) prog" where
  "allocate_frame X = (\<lambda>s.
     bind (frames_nth X (usable_addrs (memory_regions s)) (next_index s))
       (\<lambda>frame s. Ret frame (s\<lparr>next_index := next_index s + 1\<rparr>)) s)"

section \<open>The page-table walk\<close>

text \<open>
  The processor's page-table root and the tables as the kernel reads them: entry \<open>i\<close> of the
  table at a virtual address.
\<close>

record mmu =
  cr3 :: u64
  table_entry :: "u64 \<Rightarrow> nat \<Rightarrow> u64"

definition pt_at :: "x86_crate \<Rightarrow> u64 \<Rightarrow> u64 \<Rightarrow> (u64, 's) prog" where
  "pt_at X phys_offset frame =
     (case virt_add X phys_offset frame of None \<Rightarrow> fail ArithOverflow | Some a \<Rightarrow> return a)"

definition virt_to_phys :: "x86_crate \<Rightarrow> mmu \<Rightarrow> u64 \<Rightarrow> u64 \<Rightarrow> (u64 option, 's) prog" where
  "virt_to_phys X M virt phys_offset =
     bind (pt_at X phys_offset (cr3 M)) (\<lambda>p4.
     let p4e = table_entry M p4 (p4_index X virt) in
     if \<not> entry_present X p4e then return None
     else case entry_frame X p4e of None \<Rightarrow> return None | Some f4 \<Rightarrow>
     bind (pt_at X phys_offset f4) (\<lambda>p3.
     let p3e = table_entry M p3 (p3_index X virt) in
     if \<not> entry_present X p3e then return None
     else if entry_huge X p3e then return (Some (entry_addr X p3e + (virt AND 0x3FFFFFFF)))
     else case entry_frame X p3e of None \<Rightarrow> return None | Some f3 \<Rightarrow>
     bind (pt_at X phys_offset f3) (\<lambda>p2.
     let p2e = table_entry M p2 (p2_index X virt) in
     if \<not> entry_present X p2e then return None
     else if entry_huge X p2e then return (Some (entry_addr X p2e + (virt AND 0x1FFFFF)))
     else case entry_frame X p2e of None \<Rightarrow> return None | Some f2 \<Rightarrow>
     bind (pt_at X phys_offset f2) (\<lambda>p1.
     let p1e = table_entry M p1 (p1_index X virt) in
     if \<not> entry_present X p1e then return None
     else return (Some (entry_addr X p1e + (virt AND 0xFFF)))))))"

text \<open>\<open>active_level_4_table\<close>: where the kernel finds the root table.\<close>

definition active_level_4_table :: "x86_crate \<Rightarrow> mmu \<Rightarrow> u64 \<Rightarrow> (u64, 's) prog" where
  "active_level_4_table X M physical_memory_offset = pt_at X physical_memory_offset (cr3 M)"

section \<open>Memory maps\<close>

definition page_aligned :: "u64 \<Rightarrow> bool" where
  "page_aligned a \<longleftrightarrow> unat a mod 4096 = 0"

abbreviation usable_regions :: "memory_region list \<Rightarrow> memory_region list" where
  "usable_regions rs \<equiv> filter (\<lambda>r. region_kind r = Usable) rs"

text \<open>
  A memory map whose usable regions start on page boundaries within the physical address
  space, do not overlap and are listed in ascending order. Their ends need not be aligned.
\<close>

definition region_ok :: "memory_region \<Rightarrow> bool" where
  "region_ok r \<longleftrightarrow> page_aligned (region_start r) \<and> unat (region_start r) \<le> unat (region_end r) \<and>
     unat (region_end r) \<le> 2 ^ 52"

definition map_ok :: "memory_region list \<Rightarrow> bool" where
  "map_ok rs \<longleftrightarrow> list_all region_ok (usable_regions rs) \<and>
     sorted_wrt (\<lambda>r q. unat (region_end r) \<le> unat (region_start q)) (usable_regions rs)"

definition in_usable :: "memory_region list \<Rightarrow> u64 \<Rightarrow> bool" where
  "in_usable rs a \<longleftrightarrow> (\<exists>r\<in>set rs. region_kind r = Usable \<and>
     unat (region_start r) \<le> unat a \<and> unat a < unat (region_end r))"

lemma step_range_index: "i < (d + 4095) div 4096 \<Longrightarrow> 4096 * i < d" for i d :: nat
  by (simp add: less_mult_imp_div_less div_less_iff_less_mult)

lemma step_range_nat:
  assumes "unat b \<le> 2 ^ 52"
  shows "map unat (step_range a b) = map (\<lambda>i. unat a + 4096 * i) [0..<(unat b - unat a + 4095) div 4096]"
proof -
  have "unat (a + word_of_nat (4096 * i)) = unat a + 4096 * i"
    if "i < (unat b - unat a + 4095) div 4096" for i
  proof -
    have "unat a + 4096 * i < 2 ^ 64" using step_range_index [OF that] assms by simp
    then show ?thesis by (simp add: unat_word_ariths unsigned_of_nat take_bit_nat_eq_self)
  qed
  then show ?thesis by (simp add: step_range_def comp_def)
qed

lemma step_range_props:
  assumes "unat b \<le> 2 ^ 52" and "page_aligned a" and "x \<in> set (step_range a b)"
  shows "unat a \<le> unat x" "unat x < unat b" "page_aligned x"
proof -
  have "unat x \<in> set (map unat (step_range a b))" using assms(3) by simp
  then obtain i where i: "i < (unat b - unat a + 4095) div 4096" "unat x = unat a + 4096 * i"
    unfolding step_range_nat [OF assms(1)] set_map set_upt by (metis (no_types, lifting) atLeastLessThan_iff imageE)
  with step_range_index [OF i(1)] show "unat a \<le> unat x" "unat x < unat b" by simp_all
  from i(2) assms(2) show "page_aligned x" by (simp add: page_aligned_def mod_add_left_eq)
qed

lemma step_range_sorted: "unat b \<le> 2 ^ 52 \<Longrightarrow> sorted_wrt (<) (map unat (step_range a b))"
  unfolding step_range_nat by (simp add: sorted_wrt_map sorted_wrt_upt sorted_wrt_mono_rel)

lemma usable_addrs_props:
  assumes "map_ok rs" and "x \<in> set (usable_addrs rs)"
  shows "in_usable rs x" "page_aligned x" "unat x < 2 ^ 52"
proof -
  from assms(2) obtain r where r: "r \<in> set rs" "region_kind r = Usable"
      "x \<in> set (step_range (region_start r) (region_end r))"
    by (auto simp: usable_addrs_def)
  with assms(1) have ok: "region_ok r" by (auto simp: map_ok_def list_all_iff)
  then have e: "unat (region_end r) \<le> 2 ^ 52" "page_aligned (region_start r)"
    by (auto simp: region_ok_def)
  from step_range_props [OF e r(3)] r e show "in_usable rs x" "page_aligned x" "unat x < 2 ^ 52"
    by (auto simp: in_usable_def)
qed

text \<open>Every page boundary inside a range is visited.\<close>

lemma step_range_complete:
  assumes "unat b \<le> 2 ^ 52" and "page_aligned a" and "page_aligned x" and "unat a \<le> unat x" and "unat x < unat b"
  shows "x \<in> set (step_range a b)"
proof -
  obtain k where k: "unat x = unat a + 4096 * k"
  proof
    have "4096 dvd unat x - unat a"
      using assms(2-4) by (simp add: page_aligned_def mod_eq_0_iff_dvd dvd_diff_nat)
    then show "unat x = unat a + 4096 * ((unat x - unat a) div 4096)" using assms(4) by simp
  qed
  with assms(5) have "k < (unat b - unat a + 4095) div 4096"
    by (simp add: less_eq_div_iff_mult_less_eq Suc_le_eq [symmetric])
  then have "unat x \<in> set (map unat (step_range a b))" unfolding step_range_nat [OF assms(1)] using k by simp
  then show ?thesis by (auto dest: unsigned_word_eqI)
qed

lemma usable_addrs_complete:
  assumes "map_ok rs" and "page_aligned x" and "in_usable rs x"
  shows "x \<in> set (usable_addrs rs)"
proof -
  obtain r where r: "r \<in> set rs" "region_kind r = Usable" "unat (region_start r) \<le> unat x" "unat x < unat (region_end r)"
    using assms(3) by (auto simp: in_usable_def)
  with assms(1) have "region_ok r" by (auto simp: map_ok_def list_all_iff)
  with r step_range_complete [OF _ _ assms(2), of "region_end r" "region_start r"] show ?thesis
    by (auto simp: usable_addrs_def region_ok_def)
qed

lemma usable_addrs_sorted:
  assumes "map_ok rs"
  shows "sorted_wrt (<) (map unat (usable_addrs rs))"
proof -
  have "sorted_wrt (<) (map unat (concat (map (\<lambda>r. step_range (region_start r) (region_end r)) us)))"
    if "list_all region_ok us"
      "sorted_wrt (\<lambda>r q. unat (region_end r) \<le> unat (region_start q)) us" for us
    using that
  proof (induction us)
    case (Cons r us)
    have e: "unat (region_end q) \<le> 2 ^ 52" "page_aligned (region_start q)" if "q \<in> set (r # us)" for q
      using Cons.prems(1) that by (auto simp: list_all_iff region_ok_def)
    have "unat x < unat y" if x: "x \<in> set (step_range (region_start r) (region_end r))"
      and q: "q \<in> set us" "y \<in> set (step_range (region_start q) (region_end q))" for x y q
    proof -
      have "unat x < unat (region_end r)" using step_range_props [OF e x] by simp
      also have "\<dots> \<le> unat (region_start q)" using Cons.prems(2) q(1) by simp
      also have "\<dots> \<le> unat y" using step_range_props [OF e q(2)] q(1) by simp
      finally show ?thesis .
    qed
    with Cons step_range_sorted [OF e(1), of r] show ?case
      by (auto simp: sorted_wrt_append)
  qed simp
  then show ?thesis using assms unfolding usable_addrs_def map_ok_def by blast
qed

lemma page_aligned_and: "page_aligned a \<Longrightarrow> a AND - 4096 = a"
proof -
  assume "page_aligned a"
  then have "unat (a AND mask 12) = 0" by (simp add: unat_and_mask page_aligned_def)
  then have low: "take_bit 12 a = 0" by (simp only: unsigned_eq_0_iff take_bit_eq_mask)
  have "\<not> bit a n" if "n < 12" for n
    using arg_cong [OF low, of "\<lambda>w. bit w n"] that by (simp add: bit_simps)
  then have "a AND NOT (mask 12) = a"
    by (intro bit_word_eqI) (auto simp: bit_simps)
  then show ?thesis by (simp add: mask_eq_exp_minus_1)
qed

lemma frame_at_aligned:
  "x86_documented X \<Longrightarrow> page_aligned a \<Longrightarrow> unat a < 2 ^ 52 \<Longrightarrow> frame_at X a = Some a"
  by (simp add: frame_at_def x86_documented_def page_aligned_and)

lemma frames_nth_run:
  assumes "\<And>a. a \<in> set as \<Longrightarrow> frame_at X a = Some a"
  shows "frames_nth X as n s = Ret (if n < length as then Some (as ! n) else None) s"
  using assms by (induction as arbitrary: n) (auto simp: run_simps split: nat.splits)

lemma count_below_run:
  assumes "\<And>a. a \<in> set as \<Longrightarrow> frame_at X a = Some a"
  shows "count_below X m as s = Ret (length (takeWhile (\<lambda>a. a < m) as)) s"
  using assms by (induction as) (auto simp: run_simps)

section \<open>The allocator as a source of frames\<close>

text \<open>
  The contract of the crate's \<open>FrameAllocator\<close> trait that mapping code relies on: frames come
  from a fixed supply, none is handed out twice, and an exhausted allocator keeps saying so.
\<close>

locale frame_source =
  fixes alloc :: "(u64 option, 'a) prog"
    and frames :: "'a \<Rightarrow> u64 list"
    and inv :: "'a \<Rightarrow> bool"
  assumes alloc_some: "inv a \<Longrightarrow> frames a = f # fs \<Longrightarrow>
      \<exists>a'. alloc a = Ret (Some f) a' \<and> inv a' \<and> frames a' = fs"
    and alloc_none: "inv a \<Longrightarrow> frames a = [] \<Longrightarrow>
      \<exists>a'. alloc a = Ret None a' \<and> inv a' \<and> frames a' = []"
    and frames_distinct: "inv a \<Longrightarrow> distinct (frames a)"
begin

lemma alloc_any:
  "inv a \<Longrightarrow> \<exists>a'. alloc a = Ret (case frames a of [] \<Rightarrow> None | f # _ \<Rightarrow> Some f) a' \<and>
     inv a' \<and> frames a' = tl (frames a)"
  using alloc_some [of a] alloc_none [of a] by (cases "frames a") auto

lemma alloc_many:
  "inv a \<Longrightarrow> \<exists>a'. repeat_prog n alloc a =
      Ret (map Some (take n (frames a)) @ replicate (n - length (frames a)) None) a' \<and>
     inv a' \<and> frames a' = drop n (frames a)"
proof (induction n arbitrary: a)
  case 0
  then show ?case by (simp add: run_simps)
next
  case (Suc n)
  obtain a1 where a1: "alloc a = Ret (case frames a of [] \<Rightarrow> None | f # _ \<Rightarrow> Some f) a1"
      "inv a1" "frames a1 = tl (frames a)"
    using alloc_any [OF Suc.prems] by blast
  from Suc.IH [OF a1(2)] a1 show ?case
    by (cases "frames a") (auto simp: run_simps)
qed

lemma alloc_distinct: "inv a \<Longrightarrow> distinct (take n (frames a))"
  using frames_distinct by (rule distinct_take)

end

definition frame_supply :: "frame_allocator \<Rightarrow> u64 list" where
  "frame_supply a = drop (next_index a) (usable_addrs (memory_regions a))"

definition allocator_ok :: "x86_crate \<Rightarrow> frame_allocator \<Rightarrow> bool" where
  "allocator_ok X a \<longleftrightarrow> x86_documented X \<and> map_ok (memory_regions a)"

lemma allocator_frames:
  "allocator_ok X a \<Longrightarrow> f \<in> set (usable_addrs (memory_regions a)) \<Longrightarrow> frame_at X f = Some f"
  using usable_addrs_props [of "memory_regions a" f] by (simp add: allocator_ok_def frame_at_aligned)

lemma allocate_frame_run:
  assumes "allocator_ok X a"
  shows "allocate_frame X a =
    Ret (if next_index a < length (usable_addrs (memory_regions a))
         then Some (usable_addrs (memory_regions a) ! next_index a) else None)
      (a\<lparr>next_index := next_index a + 1\<rparr>)"
  by (simp add: allocate_frame_def run_simps frames_nth_run [of "usable_addrs (memory_regions a)" X, OF allocator_frames [OF assms]])

lemma skip_below_run:
  assumes "allocator_ok X a"
  shows "skip_below X m a =
    Ret () (a\<lparr>next_index := length (takeWhile (\<lambda>f. f < m) (usable_addrs (memory_regions a)))\<rparr>)"
  by (simp add: skip_below_def run_simps count_below_run [of "usable_addrs (memory_regions a)" X, OF allocator_frames [OF assms]])

lemma usable_addrs_distinct: "map_ok rs \<Longrightarrow> distinct (usable_addrs rs)"
  using usable_addrs_sorted [of rs] strict_sorted_iff [of "map unat (usable_addrs rs)"]
  by (simp add: distinct_map)

interpretation boot_frames: frame_source "allocate_frame X" frame_supply "allocator_ok X" for X
proof unfold_locales
  fix a f fs
  assume ok: "allocator_ok X a"
  show "\<exists>a'. allocate_frame X a = Ret (Some f) a' \<and> allocator_ok X a' \<and> frame_supply a' = fs"
    if "frame_supply a = f # fs"
  proof -
    have "next_index a < length (usable_addrs (memory_regions a))"
      using that by (simp add: frame_supply_def) (metis drop_all list.distinct(1) not_le)
    with that ok show ?thesis
      by (auto simp: allocate_frame_run frame_supply_def allocator_ok_def
          Cons_nth_drop_Suc [symmetric])
  qed
  show "\<exists>a'. allocate_frame X a = Ret None a' \<and> allocator_ok X a' \<and> frame_supply a' = []"
    if "frame_supply a = []"
    using that ok by (simp add: allocate_frame_run frame_supply_def allocator_ok_def)
  show "distinct (frame_supply a)"
    using ok usable_addrs_distinct by (simp add: frame_supply_def allocator_ok_def)
qed

lemma sorted_dropWhile_ge:
  assumes "sorted_wrt (<) (map unat xs)" and "x \<in> set (dropWhile (\<lambda>f. f < m) xs)"
  shows "m \<le> x"
  using assms
proof (induction xs)
  case (Cons y xs)
  then show ?case by (cases "y < m") (auto simp: word_less_nat_alt word_le_nat_alt)
qed simp

lemma page_aligned_step: "page_aligned a \<Longrightarrow> page_aligned b \<Longrightarrow> unat a < unat b \<Longrightarrow> unat a + 4096 \<le> unat b"
  unfolding page_aligned_def mod_eq_0_iff_dvd by (elim dvdE) simp

text \<open>
  C7. Frames handed out after \<open>skip_below(min_addr)\<close> on a fresh allocator: the frames are exactly
  the page boundaries from \<open>min_addr\<close> up that lie in a usable region of the memory map, each handed
  out once and in ascending order; when they are exhausted the allocator says so, and keeps saying
  so. Such a frame lies in its region as a whole if the region ends on a page boundary (the
  last frame of a region that does not runs past its end).
\<close>

theorem allocate_after_skip_below:
  fixes X :: x86_crate and rs :: "memory_region list" and m :: u64
  assumes "x86_documented X" and "map_ok rs"
  shows "\<exists>fs a. skip_below X m (frame_allocator_init rs) = Ret () a \<and>
     (\<forall>n. \<exists>a'. repeat_prog n (allocate_frame X) a =
       Ret (map Some (take n fs) @ replicate (n - length fs) None) a') \<and>
     sorted_wrt (<) (map unat fs) \<and> set fs = {f. m \<le> f \<and> page_aligned f \<and> in_usable rs f} \<and>
     (\<forall>f\<in>set fs. \<exists>r\<in>set rs. region_kind r = Usable \<and> unat (region_start r) \<le> unat f \<and>
       unat f < unat (region_end r) \<and> (page_aligned (region_end r) \<longrightarrow> unat f + 4096 \<le> unat (region_end r)))"
proof -
  let ?us = "usable_addrs rs"
  define fs where "fs = filter (\<lambda>f. m \<le> f) ?us"
  have sorted: "sorted_wrt (<) (map unat ?us)" using assms(2) by (rule usable_addrs_sorted)
  have ok: "allocator_ok X (frame_allocator_init rs)"
    using assms by (simp add: allocator_ok_def frame_allocator_init_def)
  let ?a = "(frame_allocator_init rs)\<lparr>next_index := length (takeWhile (\<lambda>f. f < m) ?us)\<rparr>"
  have skip: "skip_below X m (frame_allocator_init rs) = Ret () ?a"
    using skip_below_run [OF ok] by (simp add: frame_allocator_init_def)
  have ok': "allocator_ok X ?a" using ok by (simp add: allocator_ok_def)
  have "filter (\<lambda>f. m \<le> f) ?us = dropWhile (\<lambda>f. f < m) ?us"
  proof -
    have "filter (\<lambda>f. m \<le> f) (takeWhile (\<lambda>f. f < m) ?us) = []"
      by (auto simp: filter_empty_conv dest: set_takeWhileD)
    moreover have "filter (\<lambda>f. m \<le> f) (dropWhile (\<lambda>f. f < m) ?us) = dropWhile (\<lambda>f. f < m) ?us"
      by (rule filter_True) (use sorted_dropWhile_ge [OF sorted] in blast)
    ultimately show ?thesis
      by (metis append_Nil filter_append takeWhile_dropWhile_id)
  qed
  then have fs: "fs = frame_supply ?a"
    by (simp add: fs_def frame_supply_def frame_allocator_init_def dropWhile_eq_drop)
  have run: "\<exists>a'. repeat_prog n (allocate_frame X) ?a = Ret (map Some (take n fs) @ replicate (n - length fs) None) a'" for n
    using boot_frames.alloc_many [OF ok', of n] unfolding fs by blast
  have "sorted_wrt (<) (map unat fs)"
    unfolding fs_def using sorted by (simp add: sorted_wrt_map sorted_wrt_filter)
  moreover have all: "set fs = {f. m \<le> f \<and> page_aligned f \<and> in_usable rs f}"
    using usable_addrs_props [OF assms(2)] usable_addrs_complete [OF assms(2)] by (auto simp: fs_def)
  moreover have "\<exists>r\<in>set rs. region_kind r = Usable \<and> unat (region_start r) \<le> unat f \<and> unat f < unat (region_end r) \<and>
      (page_aligned (region_end r) \<longrightarrow> unat f + 4096 \<le> unat (region_end r))" if "f \<in> set fs" for f
    using that page_aligned_step [of f] unfolding all in_usable_def by blast
  ultimately show ?thesis using skip run by blast
qed

definition two_regions :: "memory_region list" where
  "two_regions =
    [\<lparr>region_start = 0, region_end = 0x9FC00, region_kind = Usable\<rparr>,
     \<lparr>region_start = 0x100000, region_end = 0x202000, region_kind = Usable\<rparr>]"

lemma two_regions_ok: "map_ok two_regions"
  by (simp add: map_ok_def two_regions_def region_ok_def page_aligned_def)

theorem allocate_after_skip_below_witness:
  "\<exists>a a'. skip_below x86_reference 0x200000 (frame_allocator_init two_regions) = Ret () a \<and>
     repeat_prog 3 (allocate_frame x86_reference) a = Ret [Some 0x200000, Some 0x201000, None] a'"
proof -
  obtain fs a a' where a: "skip_below x86_reference 0x200000 (frame_allocator_init two_regions) = Ret () a"
      "repeat_prog 3 (allocate_frame x86_reference) a = Ret (map Some (take 3 fs) @ replicate (3 - length fs) None) a'"
    and fs: "sorted_wrt (<) (map unat fs)" "set fs = {f. 0x200000 \<le> f \<and> page_aligned f \<and> in_usable two_regions f}"
    using allocate_after_skip_below [OF x86_reference_documented two_regions_ok, of "0x200000"] by blast
  have "f = 0x200000 \<or> f = 0x201000" if f: "0x200000 \<le> f" "page_aligned f" "in_usable two_regions f" for f
  proof -
    have "0x200000 \<le> unat f" "unat f < 0x202000" "unat f mod 4096 = 0"
      using f by (auto simp: word_le_nat_alt page_aligned_def in_usable_def two_regions_def)
    then obtain k where k: "unat f = 4096 * k" by (auto simp: mod_eq_0_iff_dvd elim: dvdE)
    with \<open>0x200000 \<le> unat f\<close> \<open>unat f < 0x202000\<close> have "k = 512 \<or> k = 513" by auto
    with k have "unat f = 0x200000 \<or> unat f = 0x201000" by auto
    then show ?thesis by (simp add: word_unat_eq_iff)
  qed
  moreover have "0x200000 \<in> set fs" "0x201000 \<in> set fs"
    unfolding fs(2) by (simp_all add: page_aligned_def in_usable_def two_regions_def)
  ultimately have "set fs = {0x200000, 0x201000}" using fs(2) by blast
  then have "set (map unat fs) = set [0x200000, 0x201000]" by simp
  then have "map unat fs = map unat [0x200000 :: u64, 0x201000]"
    using fs(1) strict_sorted_equal [of "[0x200000, 0x201000]" "map unat fs"] by simp
  then have "fs = [0x200000, 0x201000]" by (rule map_injective) (simp add: inj_def word_unat_eq_iff)
  with a show ?thesis by (simp add: numeral_3_eq_3)
qed

text \<open>
  \<open>skip_below\<close> overwrites the position of the allocator: called again after an
  allocation, it makes the allocator hand out the same frame a second time. It is safe only
  before the first allocation, which is how the boot code uses it.
\<close>

lemma skip_below_again_reissues:
  assumes "x86_documented X" and "map_ok rs" and "f \<in> set (usable_addrs rs)" and "m \<le> f"
  shows "\<exists>g a1 a2 a3 a4. skip_below X m (frame_allocator_init rs) = Ret () a1 \<and>
     allocate_frame X a1 = Ret (Some g) a2 \<and> skip_below X m a2 = Ret () a3 \<and>
     allocate_frame X a3 = Ret (Some g) a4"
proof -
  let ?us = "usable_addrs rs"
  let ?i = "length (takeWhile (\<lambda>f. f < m) ?us)"
  let ?a = "\<lambda>i. \<lparr>memory_regions = rs, next_index = i\<rparr>"
  have ok: "allocator_ok X (?a i)" for i using assms by (simp add: allocator_ok_def)
  have "?i < length ?us"
    using assms(3,4) by (metis length_takeWhile_le linorder_not_less order_le_less takeWhile_eq_all_conv
        takeWhile_eq_take take_all)
  then show ?thesis
    using skip_below_run [OF ok, of m] allocate_frame_run [OF ok]
    by (simp add: frame_allocator_init_def)
qed

lemma skip_below_again_reissues_instance:
  "\<exists>g a1 a2 a3 a4. skip_below x86_reference 0x200000 (frame_allocator_init two_regions) = Ret () a1 \<and>
     allocate_frame x86_reference a1 = Ret (Some g) a2 \<and> skip_below x86_reference 0x200000 a2 = Ret () a3 \<and>
     allocate_frame x86_reference a3 = Ret (Some g) a4"
proof -
  have "0x200000 \<in> set (usable_addrs two_regions)"
    by (auto simp: usable_addrs_def two_regions_def step_range_def intro!: image_eqI [of _ _ 256])
  from skip_below_again_reissues [OF x86_reference_documented two_regions_ok this, of "0x200000"]
  show ?thesis by simp
qed

section \<open>The walk against the architecture\<close>

text \<open>
  Four-level paging as the processor manual defines it, over the tables in physical memory
  (\<open>pm base i\<close> is entry \<open>i\<close> of the table at physical address \<open>base\<close>): the leaf entry
  that maps an address, with its level (1 for a 4 KiB page, 2 for 2 MiB, 3 for 1 GiB), and the
  physical address it gives. In a large-page entry, bit 12 is the PAT bit and the other bits
  below the page size are reserved: they are not part of the address.
\<close>

definition walk_leaf :: "(u64 \<Rightarrow> nat \<Rightarrow> u64) \<Rightarrow> u64 \<Rightarrow> u64 \<Rightarrow> (nat \<times> u64) option" where
  "walk_leaf pm root v =
     (let e4 = pm root (table_index 4 v) in
      if \<not> bit e4 0 \<or> bit e4 7 then None
      else let e3 = pm (e4 AND ADDR_MASK) (table_index 3 v) in
      if \<not> bit e3 0 then None else if bit e3 7 then Some (3, e3)
      else let e2 = pm (e3 AND ADDR_MASK) (table_index 2 v) in
      if \<not> bit e2 0 then None else if bit e2 7 then Some (2, e2)
      else let e1 = pm (e2 AND ADDR_MASK) (table_index 1 v) in
      if \<not> bit e1 0 then None else Some (1, e1))"

definition page_mask :: "nat \<Rightarrow> u64" where
  "page_mask level = mask (3 + 9 * level)"

definition leaf_phys :: "nat \<times> u64 \<Rightarrow> u64 \<Rightarrow> u64" where
  "leaf_phys leaf v =
     (snd leaf AND ADDR_MASK AND NOT (page_mask (fst leaf))) OR (v AND page_mask (fst leaf))"

text \<open>
  The bootloader's mapping of physical memory at \<open>phys_offset\<close>: tables are read through it,
  all of them lie below \<open>limit\<close>, and the window fits the lower half of the address space.
\<close>

definition phys_window :: "mmu \<Rightarrow> (u64 \<Rightarrow> nat \<Rightarrow> u64) \<Rightarrow> u64 \<Rightarrow> nat \<Rightarrow> bool" where
  "phys_window M pm phys_offset limit \<longleftrightarrow>
     (\<forall>p i. table_entry M (phys_offset + p) i = pm p i) \<and> unat (cr3 M) < limit \<and>
     (\<forall>p i. bit (pm p i) 0 \<longrightarrow> \<not> bit (pm p i) 7 \<longrightarrow> unat (pm p i AND ADDR_MASK) < limit) \<and>
     unat phys_offset + limit \<le> 2 ^ 47"

lemma pt_at_run:
  assumes "x86_documented X" and "unat p < limit" and "unat phys_offset + limit \<le> 2 ^ 47"
  shows "pt_at X phys_offset p = return (phys_offset + p)"
proof -
  have lt: "unat phys_offset + unat p < 2 ^ 47" using assms(2,3) by simp
  then have "unat (phys_offset + p) = unat phys_offset + unat p"
    by (simp add: unat_word_ariths)
  with lt have "canonical (phys_offset + p)" by (simp add: canonical_def)
  moreover have "unat phys_offset + unat p < 2 ^ 64" using lt by simp
  ultimately have "virt_add X phys_offset p = Some (phys_offset + p)"
    using assms(1) unfolding x86_documented_def by blast
  then show ?thesis by (simp add: pt_at_def)
qed

lemma page_masks: "page_mask 1 = 0xFFF" "page_mask 2 = 0x1FFFFF" "page_mask 3 = 0x3FFFFFFF"
  by (simp_all add: page_mask_def mask_eq_exp_minus_1)

lemma virt_to_phys_leaf:
  assumes "x86_documented X" and "phys_window M pm phys_offset limit"
  shows "virt_to_phys X M v phys_offset s =
    Ret (map_option (\<lambda>(k, e). (e AND ADDR_MASK) + (v AND page_mask k)) (walk_leaf pm (cr3 M) v)) s"
proof -
  have X: "\<And>e. entry_present X e = bit e 0" "\<And>e. entry_huge X e = bit e 7"
    "\<And>e. entry_addr X e = e AND ADDR_MASK"
    "\<And>e. entry_frame X e = (if bit e 0 \<and> \<not> bit e 7 then Some (e AND ADDR_MASK) else None)"
    "p4_index X = table_index 4" "p3_index X = table_index 3"
    "p2_index X = table_index 2" "p1_index X = table_index 1"
    using assms(1) unfolding x86_documented_def by blast+
  have W: "\<And>p i. table_entry M (phys_offset + p) i = pm p i" "unat (cr3 M) < limit"
    "\<And>p i. bit (pm p i) 0 \<Longrightarrow> \<not> bit (pm p i) 7 \<Longrightarrow> unat (pm p i AND ADDR_MASK) < limit"
    "unat phys_offset + limit \<le> 2 ^ 47"
    using assms(2) by (auto simp: phys_window_def)
  note pt = pt_at_run [OF assms(1) _ W(4)]
  let ?e4 = "pm (cr3 M) (table_index 4 v)"
  let ?e3 = "pm (?e4 AND ADDR_MASK) (table_index 3 v)"
  let ?e2 = "pm (?e3 AND ADDR_MASK) (table_index 2 v)"
  consider "\<not> bit ?e4 0 \<or> bit ?e4 7" | "bit ?e4 0" "\<not> bit ?e4 7" "\<not> bit ?e3 0 \<or> bit ?e3 7"
    | "bit ?e4 0" "\<not> bit ?e4 7" "bit ?e3 0" "\<not> bit ?e3 7" "\<not> bit ?e2 0 \<or> bit ?e2 7"
    | "bit ?e4 0" "\<not> bit ?e4 7" "bit ?e3 0" "\<not> bit ?e3 7" "bit ?e2 0" "\<not> bit ?e2 7"
    by blast
  then show ?thesis
  proof cases
    case 1
    then show ?thesis
      by (auto simp: virt_to_phys_def walk_leaf_def X W(1) pt [OF W(2)] run_simps Let_def)
  next
    case 2
    then show ?thesis
      by (auto simp: virt_to_phys_def walk_leaf_def X W(1) pt [OF W(2)] pt [OF W(3)] run_simps Let_def
          page_masks [unfolded One_nat_def])
  next
    case 3
    then show ?thesis
      by (auto simp: virt_to_phys_def walk_leaf_def X W(1) pt [OF W(2)] pt [OF W(3)] run_simps Let_def
          page_masks [unfolded One_nat_def])
  next
    case 4
    then show ?thesis
      by (simp add: virt_to_phys_def walk_leaf_def X W(1) pt [OF W(2)] pt [OF W(3)] run_simps Let_def
          page_masks [unfolded One_nat_def])
  qed
qed

lemma and_split: "x = (x AND m) OR (x AND NOT m)" for x m :: u64
  by (rule bit_word_eqI) (auto simp: bit_simps)

lemma leaf_phys_sum:
  "(e AND ADDR_MASK AND NOT (page_mask k)) + (v AND page_mask k) = leaf_phys (k, e) v"
proof -
  have "(e AND ADDR_MASK AND NOT (page_mask k)) AND (v AND page_mask k) = 0"
    by (rule bit_word_eqI) (auto simp: bit_simps)
  then show ?thesis by (simp add: leaf_phys_def disjunctive_add_eq_or)
qed

lemma leaf_sum_split:
  "(e AND ADDR_MASK) + (v AND page_mask k) =
     leaf_phys (k, e) v + (e AND ADDR_MASK AND page_mask k)"
proof -
  have "(e AND ADDR_MASK AND page_mask k) AND (e AND ADDR_MASK AND NOT (page_mask k)) = 0"
    by (rule bit_word_eqI) (auto simp: bit_simps)
  then have "e AND ADDR_MASK = (e AND ADDR_MASK AND page_mask k) + (e AND ADDR_MASK AND NOT (page_mask k))"
    using and_split [of "e AND ADDR_MASK" "page_mask k"] by (simp add: disjunctive_add_eq_or and.assoc)
  then show ?thesis by (simp add: leaf_phys_sum [symmetric] algebra_simps)
qed

text \<open>
  C20. \<open>virt_to_phys\<close> returns exactly what the processor's own translation gives (\<open>None\<close> for an
  unmapped address), for 4 KiB, 2 MiB and 1 GiB pages, provided a large-page entry has its PAT
  and reserved bits clear.
\<close>

theorem virt_to_phys_correct:
  assumes "x86_documented X" and "phys_window M pm phys_offset limit"
    and "\<And>k e. walk_leaf pm (cr3 M) v = Some (k, e) \<Longrightarrow> e AND ADDR_MASK AND page_mask k = 0"
  shows "virt_to_phys X M v phys_offset s =
    Ret (map_option (\<lambda>leaf. leaf_phys leaf v) (walk_leaf pm (cr3 M) v)) s"
proof (cases "walk_leaf pm (cr3 M) v")
  case None
  then show ?thesis by (simp add: virt_to_phys_leaf [OF assms(1,2)])
next
  case (Some leaf)
  obtain k e where "leaf = (k, e)" by (cases leaf)
  with Some assms(3) [of k e] show ?thesis
    by (simp add: virt_to_phys_leaf [OF assms(1,2)] leaf_sum_split)
qed

text \<open>
  C21. A large page whose entry has the PAT bit set is translated to the address one 4 KiB page
  too high: the PAT bit is taken for an address bit.
\<close>

theorem virt_to_phys_pat_bit:
  assumes "x86_documented X" and "phys_window M pm phys_offset limit"
    and "walk_leaf pm (cr3 M) v = Some (k, e)" and "e AND ADDR_MASK AND page_mask k = 0x1000"
  shows "virt_to_phys X M v phys_offset s = Ret (Some (leaf_phys (k, e) v + 0x1000)) s"
  by (simp add: virt_to_phys_leaf [OF assms(1,2)] assms(3) leaf_sum_split assms(4))

text \<open>Tables that map everything to the 2 MiB page at \<open>0x200000\<close>, with extra entry bits.\<close>

definition demo_tables :: "u64 \<Rightarrow> u64 \<Rightarrow> nat \<Rightarrow> u64" where
  "demo_tables extra p i =
     (if p = 0x1000 then 0x2003 else if p = 0x2000 then 0x3003
      else if p = 0x3000 then 0x200083 OR extra else 0)"

definition demo_mmu :: "u64 \<Rightarrow> mmu" where
  "demo_mmu extra = \<lparr>cr3 = 0x1000, table_entry = (\<lambda>a i. demo_tables extra (a - 0x10000000) i)\<rparr>"

lemma demo_window:
  "phys_window (demo_mmu 0) (demo_tables 0) 0x10000000 0x4000"
  "phys_window (demo_mmu 0x1000) (demo_tables 0x1000) 0x10000000 0x4000"
  by (auto simp: phys_window_def demo_mmu_def demo_tables_def ADDR_MASK_def)

lemma demo_leaf:
  "walk_leaf (demo_tables 0) (cr3 (demo_mmu 0)) 0x12345 = Some (2, 0x200083)"
  "walk_leaf (demo_tables 0x1000) (cr3 (demo_mmu 0x1000)) 0x12345 = Some (2, 0x201083)"
  by (simp_all add: walk_leaf_def demo_mmu_def demo_tables_def ADDR_MASK_def)

theorem virt_to_phys_correct_witness:
  "virt_to_phys x86_reference (demo_mmu 0) 0x12345 0x10000000 () = Ret (Some 0x212345) ()"
proof -
  have clean: "e AND ADDR_MASK AND page_mask k = 0"
    if "walk_leaf (demo_tables 0) (cr3 (demo_mmu 0)) 0x12345 = Some (k, e)" for k e
    using that by (auto simp: demo_leaf page_masks ADDR_MASK_def)
  have "leaf_phys (2, 0x200083) 0x12345 = 0x212345"
    by (simp add: leaf_phys_def page_masks ADDR_MASK_def)
  with virt_to_phys_correct [OF x86_reference_documented demo_window(1), of "0x12345" "()", OF clean]
  show ?thesis by (simp add: demo_leaf)
qed

theorem virt_to_phys_pat_bit_witness:
  "virt_to_phys x86_reference (demo_mmu 0x1000) 0x12345 0x10000000 () = Ret (Some 0x213345) ()"
proof -
  have pat: "(0x201083 :: u64) AND ADDR_MASK AND page_mask 2 = 0x1000"
    by (simp add: page_masks ADDR_MASK_def)
  have "leaf_phys (2, 0x201083) 0x12345 + 0x1000 = 0x213345"
    by (simp add: leaf_phys_def page_masks ADDR_MASK_def)
  with virt_to_phys_pat_bit [OF x86_reference_documented demo_window(2) demo_leaf(2) pat, where s = "()"]
  show ?thesis by simp
qed

end
