(* ===== verification/Gdt.thy ===== *)
theory Gdt
  imports Hardware Memory
begin

text \<open>
  \<^verbatim>\<open>kernel/src/gdt.rs\<close>: the segment descriptor table and the task state segment. The table
  type and the descriptors come from the \<^verbatim>\<open>x86_64\<close> crate and are the parameter
  \<open>gdt_crate\<close>; the addresses of the statics \<open>STACK\<close> and \<open>TSS\<close> are chosen by the linker and
  are arguments.
\<close>

section \<open>The table type of the crate\<close>

datatype descriptor = UserSegment u64 | SystemSegment u64 u64

record gdt_crate =
  gdt_new :: "u64 list"
  gdt_append :: "u64 list \<Rightarrow> descriptor \<Rightarrow> (u64 list \<times> u16) option"
  kernel_code_segment :: descriptor
  kernel_data_segment :: descriptor
  tss_segment :: "u64 \<Rightarrow> descriptor"

section \<open>The module\<close>

definition DOUBLE_FAULT_IST_INDEX :: nat where
  "DOUBLE_FAULT_IST_INDEX = 0"

definition STACK_SIZE :: nat where
  "STACK_SIZE = 4096 * 5"

text \<open>The task state segment is its interrupt stack table of seven entries.\<close>

record task_state_segment =
  interrupt_stack_table :: "u64 list"

definition tss_new :: task_state_segment where
  "tss_new = \<lparr>interrupt_stack_table = replicate 7 0\<rparr>"

definition TSS :: "x86_crate \<Rightarrow> u64 \<Rightarrow> (task_state_segment, 's) prog" where
  "TSS X stack =
     bind (expect (virt_new X stack) ''VirtAddr::new'') (\<lambda>stack_start.
     bind (expect (virt_add X stack_start (word_of_nat STACK_SIZE)) ''VirtAddr + u64'') (\<lambda>top_of_stack.
     return (tss_new\<lparr>interrupt_stack_table :=
       (interrupt_stack_table tss_new)[DOUBLE_FAULT_IST_INDEX := top_of_stack]\<rparr>)))"

record selectors =
  code_selector :: u16
  data_selector :: u16
  tss_selector :: u16

text \<open>The static \<open>TSS\<close> is built when its descriptor is.\<close>

definition GDT :: "x86_crate \<Rightarrow> gdt_crate \<Rightarrow> u64 \<Rightarrow> u64 \<Rightarrow> (u64 list \<times> selectors, 's) prog" where
  "GDT X G stack tss =
     bind (expect (gdt_append G (gdt_new G) (kernel_code_segment G)) ''GDT full'') (\<lambda>(gdt, code).
     bind (expect (gdt_append G gdt (kernel_data_segment G)) ''GDT full'') (\<lambda>(gdt, data).
     seq (TSS X stack)
     (bind (expect (gdt_append G gdt (tss_segment G tss)) ''GDT requires two free spaces'') (\<lambda>(gdt, ts).
     return (gdt, \<lparr>code_selector = code, data_selector = data, tss_selector = ts\<rparr>)))))"

definition gdt_init :: "x86_crate \<Rightarrow> gdt_crate \<Rightarrow> u64 \<Rightarrow> u64 \<Rightarrow> (unit, 'z machine_scheme) prog" where
  "gdt_init X G stack tss =
     bind (GDT X G stack tss) (\<lambda>(gdt, sel). run_all [
       emit (Cpu (Lgdt gdt)),
       emit (Cpu (SetCS (code_selector sel))),
       emit (Cpu (SetSS (data_selector sel))),
       emit (Cpu (SetDS (data_selector sel))),
       emit (Cpu (SetES (data_selector sel))),
       emit (Cpu (Ltr (tss_selector sel)))])"

section \<open>What the processor makes of a descriptor\<close>

definition privilege :: "u64 \<Rightarrow> u16" where
  "privilege w = ucast (drop_bit 45 w AND 3)"

definition is_code64 :: "u64 \<Rightarrow> bool" where
  "is_code64 w \<longleftrightarrow> bit w 47 \<and> bit w 44 \<and> bit w 43 \<and> bit w 53 \<and> privilege w = 0"

definition is_writable_data :: "u64 \<Rightarrow> bool" where
  "is_writable_data w \<longleftrightarrow> bit w 47 \<and> bit w 44 \<and> \<not> bit w 43 \<and> bit w 41 \<and> privilege w = 0"

definition tss_base :: "u64 \<Rightarrow> u64 \<Rightarrow> u64" where
  "tss_base lo hi = take_bit 24 (drop_bit 16 lo) OR push_bit 24 (drop_bit 56 lo) OR push_bit 32 hi"

definition is_tss :: "u64 \<Rightarrow> bool" where
  "is_tss lo \<longleftrightarrow> bit lo 47 \<and> \<not> bit lo 44 \<and> bit lo 43 \<and> \<not> bit lo 42 \<and> \<not> bit lo 41 \<and> bit lo 40"

text \<open>The table slot a selector names.\<close>

definition slot :: "u16 \<Rightarrow> nat" where
  "slot sel = unat (drop_bit 3 sel)"

text \<open>
  What the crate documents: a new table holds the null descriptor and has room for eight
  entries; a descriptor is appended at the end and its selector names its first slot, with the
  descriptor's privilege level; the kernel segments and the task state descriptor are what
  their names say.
\<close>

definition gdt_documented :: "gdt_crate \<Rightarrow> bool" where
  "gdt_documented G \<longleftrightarrow>
     gdt_new G = [0] \<and>
     (\<forall>tab w. length tab + 1 \<le> 8 \<longrightarrow> gdt_append G tab (UserSegment w) =
        Some (tab @ [w], push_bit 3 (word_of_nat (length tab)) OR privilege w)) \<and>
     (\<forall>tab lo hi. length tab + 2 \<le> 8 \<longrightarrow> gdt_append G tab (SystemSegment lo hi) =
        Some (tab @ [lo, hi], push_bit 3 (word_of_nat (length tab)))) \<and>
     (\<exists>w. kernel_code_segment G = UserSegment w \<and> is_code64 w) \<and>
     (\<exists>w. kernel_data_segment G = UserSegment w \<and> is_writable_data w) \<and>
     (\<forall>a. \<exists>lo hi. tss_segment G a = SystemSegment lo hi \<and> is_tss lo \<and> tss_base lo hi = a)"

section \<open>What initialisation does\<close>

lemma TSS_run:
  assumes "x86_documented X" and "canonical stack" and "canonical (stack + 20480)"
    and "unat stack + 20480 < 2 ^ 64"
  shows "TSS X stack s = Ret \<lparr>interrupt_stack_table = [stack + 20480, 0, 0, 0, 0, 0, 0]\<rparr> s"
proof -
  have "virt_new X stack = Some stack"
    by (rule x86_virt_new [OF assms(1,2)])
  moreover have "virt_add X stack 20480 = Some (stack + 20480)"
    by (rule x86_virt_add) (use assms in simp_all)
  moreover have "interrupt_stack_table tss_new = [0, 0, 0, 0, 0, 0, 0]"
    by (simp add: tss_new_def eval_nat_numeral)
  ultimately show ?thesis
    by (simp add: TSS_def run_simps STACK_SIZE_def DOUBLE_FAULT_IST_INDEX_def tss_new_def)
qed

lemma GDT_run:
  assumes "gdt_documented G" and "TSS X stack s = Ret t s"
  shows "\<exists>code data lo hi.
    GDT X G stack tss s = Ret ([0, code, data, lo, hi],
      \<lparr>code_selector = 8, data_selector = 16, tss_selector = 24\<rparr>) s \<and>
    is_code64 code \<and> is_writable_data data \<and> is_tss lo \<and> tss_base lo hi = tss"
proof -
  from assms(1) obtain code data lo hi where
    d: "kernel_code_segment G = UserSegment code" "is_code64 code"
      "kernel_data_segment G = UserSegment data" "is_writable_data data"
      "tss_segment G tss = SystemSegment lo hi" "is_tss lo" "tss_base lo hi = tss"
    unfolding gdt_documented_def by metis
  have p: "privilege code = 0" "privilege data = 0"
    using d by (simp_all add: is_code64_def is_writable_data_def)
  have "gdt_append G (gdt_new G) (UserSegment code) = Some ([0, code], 8)"
    "gdt_append G [0, code] (UserSegment data) = Some ([0, code, data], 16)"
    "gdt_append G [0, code, data] (SystemSegment lo hi) = Some ([0, code, data, lo, hi], 24)"
    using assms p by (simp_all add: gdt_documented_def push_bit_of_1 push_bit_eq_mult)
  then show ?thesis
    using d assms(2) by (simp add: GDT_def run_simps)
qed

text \<open>
  C30. \<open>gdt::init\<close> loads a table and then the segment registers, in this order and before the
  task register: CS names a 64-bit kernel code segment, SS, DS and ES a writable data segment
  (not the slot of the task state segment, where the bootloader's SS would point), and TR the
  descriptor of the TSS; entry \<open>DOUBLE_FAULT_IST_INDEX\<close> of its interrupt stack table is the
  address just past the 20 KiB stack array, all of which lies below it.
\<close>

theorem gdt_init_correct:
  assumes "x86_documented X" and "gdt_documented G" and "canonical stack"
    and "canonical (stack + 20480)" and "unat stack + 20480 < 2 ^ 64"
  shows "\<exists>tab cs ds tr. gdt_init X G stack tss s =
      Ret () (s\<lparr>trace := trace s @ map Cpu [Lgdt tab, SetCS cs, SetSS ds, SetDS ds, SetES ds, Ltr tr]\<rparr>) \<and>
    is_code64 (tab ! slot cs) \<and> is_writable_data (tab ! slot ds) \<and>
    is_tss (tab ! slot tr) \<and> tss_base (tab ! slot tr) (tab ! (slot tr + 1)) = tss \<and>
    slot tr + 1 < length tab \<and> 0 < slot cs \<and> distinct [slot cs, slot ds, slot tr] \<and>
    (\<exists>t. TSS X stack s = Ret t s \<and>
       unat (interrupt_stack_table t ! DOUBLE_FAULT_IST_INDEX) = unat stack + STACK_SIZE)"
proof -
  note t = TSS_run [OF assms(1,3-5), of s]
  obtain code data lo hi where g: "GDT X G stack tss s = Ret ([0, code, data, lo, hi],
      \<lparr>code_selector = 8, data_selector = 16, tss_selector = 24\<rparr>) s"
    and d: "is_code64 code" "is_writable_data data" "is_tss lo" "tss_base lo hi = tss"
    using GDT_run [OF assms(2) t, of tss] by blast
  have run: "gdt_init X G stack tss s = Ret () (s\<lparr>trace := trace s @
      map Cpu [Lgdt [0, code, data, lo, hi], SetCS 8, SetSS 16, SetDS 16, SetES 16, Ltr 24]\<rparr>)"
    by (simp add: gdt_init_def run_simps g emit_def)
  have slots: "slot 8 = 1" "slot 16 = 2" "slot 24 = 3"
    by (simp_all add: slot_def unat_drop_bit)
  have "unat (stack + 20480) = unat stack + 20480"
    using assms(5) by (simp add: unat_word_ariths)
  then show ?thesis
    using run d by (intro exI [of _ "[0, code, data, lo, hi]"] exI [of _ 8] exI [of _ 16] exI [of _ 24])
      (simp add: slots t DOUBLE_FAULT_IST_INDEX_def STACK_SIZE_def)
qed

text \<open>The crate's table, written out from its documentation.\<close>

definition tss_low :: "u64 \<Rightarrow> u64" where
  "tss_low a = push_bit 40 0x89 OR 0x67 OR push_bit 16 (take_bit 24 a) OR push_bit 56 (take_bit 8 (drop_bit 24 a))"

definition gdt_reference :: gdt_crate where
  "gdt_reference = \<lparr>
     gdt_new = [0],
     gdt_append = (\<lambda>tab d. case d of
       UserSegment w \<Rightarrow> if length tab + 1 \<le> 8
         then Some (tab @ [w], push_bit 3 (word_of_nat (length tab)) OR privilege w) else None
     | SystemSegment lo hi \<Rightarrow> if length tab + 2 \<le> 8
         then Some (tab @ [lo, hi], push_bit 3 (word_of_nat (length tab))) else None),
     kernel_code_segment = UserSegment 0x00AF9B000000FFFF,
     kernel_data_segment = UserSegment 0x00CF93000000FFFF,
     tss_segment = (\<lambda>a. SystemSegment
       (tss_low a)
       (drop_bit 32 a))\<rparr>"

lemma gdt_reference_documented: "gdt_documented gdt_reference"
proof -
  have base: "tss_base (tss_low a) (drop_bit 32 a) = a" for a
    unfolding tss_base_def tss_low_def
    apply (rule bit_word_eqI, auto simp: bit_simps bit_numeral_rec)
    subgoal for n by (cases "32 \<le> n") simp_all
    subgoal for n by (cases "32 \<le> n") simp_all
    subgoal for n by (cases "24 \<le> n") simp_all
    subgoal for n by (cases "24 \<le> n"; cases "32 \<le> n") simp_all
    done
  have type: "is_tss (tss_low a)" for a
    unfolding is_tss_def tss_low_def by (simp add: bit_simps bit_numeral_rec)
  show ?thesis
    by (simp add: gdt_documented_def gdt_reference_def base type is_code64_def is_writable_data_def
        privilege_def)
qed

theorem gdt_init_correct_witness:
  "x86_documented x86_reference \<and> gdt_documented gdt_reference \<and>
   canonical 0x10000 \<and> canonical 0x15000 \<and>
   (\<exists>tab cs ds tr. gdt_init x86_reference gdt_reference 0x10000 0x8000 \<lparr>trace = []\<rparr> =
      Ret () \<lparr>trace = map Cpu [Lgdt tab, SetCS cs, SetSS ds, SetDS ds, SetES ds, Ltr tr]\<rparr> \<and>
      is_tss (tab ! slot tr) \<and> is_writable_data (tab ! slot ds))"
proof -
  have c: "canonical 0x10000" "canonical 0x15000"
    by (simp_all add: canonical_def)
  show ?thesis
    using gdt_init_correct [OF x86_reference_documented gdt_reference_documented, of "0x10000" "0x8000"
        "\<lparr>trace = []\<rparr>"] x86_reference_documented gdt_reference_documented c
    by fastforce
qed

end
