(* ===== verification/Serial.thy ===== *)
theory Serial
  imports Hardware
begin

text \<open>
  \<^verbatim>\<open>kernel/src/serial.rs\<close>: the COM1 writer that carries the boot log. The UART is part of
  the environment; the model is the exact sequence of port accesses the driver makes.
  The arguments of the printing macros are formatted by Rust's \<^verbatim>\<open>core::fmt\<close> before
  \<open>write_str\<close> sees them; the formats the kernel uses are modelled at the end of the
  definitions.
\<close>

section \<open>The driver\<close>

definition COM1 :: u16 where
  "COM1 = 0x3F8"

definition serial_init :: "(unit, 'z machine_scheme) prog" where
  "serial_init = run_all [
     out8 (COM1 + 1) 0x00,
     out8 (COM1 + 3) 0x80,
     out8 (COM1 + 0) 0x03,
     out8 (COM1 + 1) 0x00,
     out8 (COM1 + 3) 0x03,
     out8 (COM1 + 2) 0xC7,
     out8 (COM1 + 4) 0x0B]"

definition bytes :: "string \<Rightarrow> u8 list" where
  "bytes s = map of_char s"

definition thr_busy :: "env \<Rightarrow> (bool, 'z machine_scheme) prog" where
  "thr_busy E = bind (in8 E (COM1 + 5)) (\<lambda>v. return (v AND 0x20 = 0))"

definition write_byte :: "env \<Rightarrow> u8 \<Rightarrow> (unit, 'z machine_scheme) prog" where
  "write_byte E b = seq (spin_while (fuel E) (thr_busy E)) (out8 COM1 b)"

definition write_str :: "env \<Rightarrow> string \<Rightarrow> (unit, 'z machine_scheme) prog" where
  "write_str E s = for_each (bytes s) (write_byte E)"

definition serial_print :: "env \<Rightarrow> string \<Rightarrow> (unit, 'z machine_scheme) prog" where
  "serial_print E s = write_str E s"

definition serial_println :: "env \<Rightarrow> string \<Rightarrow> (unit, 'z machine_scheme) prog" where
  "serial_println E s = serial_print E (s @ [CHR 0x0A])"

text \<open>
  Formats of \<^verbatim>\<open>core::fmt\<close> used by the kernel: \<open>{}\<close> on unsigned integers,
  \<open>{:x}\<close>, \<open>{:#x}\<close> and the zero-padded \<open>{:0wx}\<close> and \<open>{:#0wx}\<close>.
\<close>

definition digit_char :: "nat \<Rightarrow> char" where
  "digit_char d = (if d < 10 then char_of (48 + d) else char_of (87 + d))"

fun to_base :: "nat \<Rightarrow> nat \<Rightarrow> string" where
  "to_base b n = (if b \<le> 1 \<or> n < b then [digit_char n] else to_base b (n div b) @ [digit_char (n mod b)])"

declare to_base.simps [simp del]

definition fmt_dec :: "nat \<Rightarrow> string" where
  "fmt_dec n = to_base 10 n"

definition fmt_hex :: "nat \<Rightarrow> string" where
  "fmt_hex n = to_base 16 n"

definition pad_zero :: "nat \<Rightarrow> string \<Rightarrow> string" where
  "pad_zero w s = replicate (w - length s) CHR ''0'' @ s"

definition fmt_hex_width :: "nat \<Rightarrow> nat \<Rightarrow> string" where
  "fmt_hex_width w n = pad_zero w (fmt_hex n)"

definition fmt_hex_alt :: "nat \<Rightarrow> string" where
  "fmt_hex_alt n = ''0x'' @ fmt_hex n"

definition fmt_hex_alt_width :: "nat \<Rightarrow> nat \<Rightarrow> string" where
  "fmt_hex_alt_width w n = ''0x'' @ pad_zero (w - 2) (fmt_hex n)"

section \<open>What is seen at the UART\<close>

text \<open>The bytes written to the transmit register, and the events that touch only the UART.\<close>

fun uart_byte :: "bus_event \<Rightarrow> u8 list" where
  "uart_byte (Out8 p v) = (if p = COM1 then [v] else [])"
| "uart_byte _ = []"

definition uart_out :: "bus_event list \<Rightarrow> u8 list" where
  "uart_out t = concat (map uart_byte t)"

fun uart_event :: "bus_event \<Rightarrow> bool" where
  "uart_event (Out8 p v) = (p = COM1)"
| "uart_event (In8 p v) = (p = COM1 + 5)"
| "uart_event _ = False"

abbreviation uart_only :: "bus_event list \<Rightarrow> bool" where
  "uart_only t \<equiv> list_all uart_event t"

text \<open>Every transmitted byte follows a status read that reported an empty holding register.\<close>

definition saw_empty :: "bus_event \<Rightarrow> bool" where
  "saw_empty e = (case e of In8 p v \<Rightarrow> p = COM1 + 5 \<and> v AND 0x20 \<noteq> 0 | _ \<Rightarrow> False)"

primrec thr_checked_from :: "bool \<Rightarrow> bus_event list \<Rightarrow> bool" where
  "thr_checked_from ready [] = True"
| "thr_checked_from ready (e # t) = ((uart_byte e \<noteq> [] \<longrightarrow> ready) \<and> thr_checked_from (saw_empty e) t)"

definition thr_checked :: "bus_event list \<Rightarrow> bool" where
  "thr_checked t = thr_checked_from False t"

text \<open>The machine after \<open>k\<close> reads of the line status register.\<close>

primrec after_polls :: "env \<Rightarrow> nat \<Rightarrow> 'z machine_scheme \<Rightarrow> 'z machine_scheme" where
  "after_polls E 0 s = s"
| "after_polls E (Suc k) s =
     (let s' = after_polls E k s
      in s'\<lparr>trace := trace s' @ [In8 (COM1 + 5) (port8 E (trace s') (COM1 + 5))]\<rparr>)"

definition thr_empty :: "env \<Rightarrow> 'z machine_scheme \<Rightarrow> bool" where
  "thr_empty E s \<longleftrightarrow> port8 E (trace s) (COM1 + 5) AND 0x20 \<noteq> 0"

text \<open>
  The environment's UART drains its holding register within \<open>n\<close> status reads, whatever has
  happened before.
\<close>

definition uart_drains :: "env \<Rightarrow> nat \<Rightarrow> bool" where
  "uart_drains E n \<longleftrightarrow> (\<forall>t. \<exists>k\<le>n. thr_empty E (after_polls E k \<lparr>trace = t\<rparr>))"

section \<open>Lemmas about the driver\<close>

lemma uart_out_Nil [simp]: "uart_out [] = []"
  by (simp add: uart_out_def)

lemma uart_out_append [simp]: "uart_out (s @ t) = uart_out s @ uart_out t"
  by (simp add: uart_out_def)

lemma uart_out_In8 [simp]: "uart_out [In8 p v] = []"
  by (simp add: uart_out_def)

lemma uart_out_Out8 [simp]: "uart_out [Out8 p v] = (if p = COM1 then [v] else [])"
  by (simp add: uart_out_def)

lemma uart_only_no_mmio: "uart_only t \<Longrightarrow> mmio_writes t = []"
proof (induction t)
  case (Cons e t)
  then show ?case by (cases e) auto
qed simp

lemma bytes_append: "bytes (s @ t) = bytes s @ bytes t"
  by (simp add: bytes_def)

lemma write_str_append: "write_str E (s @ t) = seq (write_str E s) (write_str E t)"
  by (simp only: write_str_def bytes_append for_each_append)

definition status_polls :: "bus_event list \<Rightarrow> bool" where
  "status_polls t \<longleftrightarrow> (\<forall>e\<in>set t. \<exists>v. e = In8 (COM1 + 5) v)"

lemma status_polls_append [simp]: "status_polls (s @ t) \<longleftrightarrow> status_polls s \<and> status_polls t"
  by (auto simp: status_polls_def)

lemma status_polls_simps [simp]:
  "status_polls []" "status_polls [In8 p v] \<longleftrightarrow> p = COM1 + 5"
  by (simp_all add: status_polls_def)

lemma uart_out_polls: "status_polls t \<Longrightarrow> uart_out t = []"
  by (auto simp: status_polls_def uart_out_def)

lemma uart_only_polls: "status_polls t \<Longrightarrow> uart_only t"
  by (auto simp: status_polls_def list_all_iff)

lemma thr_checked_from_polls_write:
  assumes "status_polls t" and "v AND 0x20 \<noteq> 0" and "thr_checked u"
  shows "thr_checked_from ready (t @ In8 (COM1 + 5) v # Out8 COM1 b # u)"
  using assms
  by (induction t arbitrary: ready) (auto simp: status_polls_def thr_checked_def saw_empty_def)

lemmas thr_checked_polls_write = thr_checked_from_polls_write [of _ _ _ False, folded thr_checked_def]

text \<open>One byte: some status polls, the last of which saw the register empty, then the write.\<close>

lemma write_byte_trace:
  "wlp (write_byte E b)
     (\<lambda>_ s'. \<exists>t v. s' = s\<lparr>trace := trace s @ t @ [In8 (COM1 + 5) v, Out8 COM1 b]\<rparr> \<and>
        status_polls t \<and> v AND 0x20 \<noteq> 0) s"
proof -
  let ?I = "\<lambda>u. \<exists>t. u = s\<lparr>trace := trace s @ t\<rparr> \<and> status_polls t"
  have I0: "?I s"
    by (rule exI [of _ "[]"]) simp
  have step: "wlp (thr_busy E) (\<lambda>busy u. if busy then ?I u else
      wlp (out8 COM1 b) (\<lambda>_ s'. \<exists>t v. s' = s\<lparr>trace := trace s @ t @ [In8 (COM1 + 5) v, Out8 COM1 b]\<rparr> \<and>
        status_polls t \<and> v AND 0x20 \<noteq> 0) u) u" if "?I u" for u
  proof -
    from that obtain t where t: "u = s\<lparr>trace := trace s @ t\<rparr>" "status_polls t" by blast
    let ?v = "port8 E (trace s @ t) (COM1 + 5)"
    have "?v AND 0x20 = 0 \<Longrightarrow> ?I (u\<lparr>trace := trace u @ [In8 (COM1 + 5) ?v]\<rparr>)"
      by (rule exI [of _ "t @ [In8 (COM1 + 5) ?v]"]) (use t in simp)
    with t show ?thesis
      by (auto simp: thr_busy_def wlp_simps)
  qed
  show ?thesis
    unfolding write_byte_def wlp_seq
    by (rule wlp_spin_while [where I = ?I, OF I0 step])
qed

text \<open>
  Strongest postcondition of printing: only the UART is touched, the bytes come out in order,
  each after a status read that saw the holding register empty.
\<close>

lemma write_str_trace:
  "wlp (write_str E m)
     (\<lambda>_ s'. \<exists>t. s' = s\<lparr>trace := trace s @ t\<rparr> \<and> uart_only t \<and> thr_checked t \<and>
        uart_out t = bytes m) s"
proof (induction m arbitrary: s)
  case Nil
  show ?case by (auto simp: write_str_def bytes_def wlp_return thr_checked_def intro!: exI [of _ "[]"])
next
  case (Cons c m)
  let ?Q = "\<lambda>_ s'. \<exists>t. s' = s\<lparr>trace := trace s @ t\<rparr> \<and> uart_only t \<and> thr_checked t \<and>
        uart_out t = bytes (c # m)"
  have "wlp (write_byte E (of_char c)) (\<lambda>_. wlp (write_str E m) ?Q) s"
  proof (rule wlp_mono [OF write_byte_trace])
    fix x :: unit and u
    assume "\<exists>t v. u = s\<lparr>trace := trace s @ t @ [In8 (COM1 + 5) v, Out8 COM1 (of_char c)]\<rparr> \<and>
        status_polls t \<and> v AND 0x20 \<noteq> 0"
    then obtain t v where u: "u = s\<lparr>trace := trace s @ t @ [In8 (COM1 + 5) v, Out8 COM1 (of_char c)]\<rparr>"
      and t: "status_polls t" and v: "v AND 0x20 \<noteq> 0" by blast
    show "wlp (write_str E m) ?Q u"
    proof (rule wlp_mono [OF Cons.IH])
      fix y :: unit and s'
      assume "\<exists>r. s' = u\<lparr>trace := trace u @ r\<rparr> \<and> uart_only r \<and> thr_checked r \<and> uart_out r = bytes m"
      then obtain r where r: "s' = u\<lparr>trace := trace u @ r\<rparr>" "uart_only r" "thr_checked r"
          "uart_out r = bytes m" by blast
      let ?t = "t @ In8 (COM1 + 5) v # Out8 COM1 (of_char c) # r"
      have "uart_out ?t = bytes (c # m)"
        using r t by (simp add: uart_out_def bytes_def uart_out_polls [unfolded uart_out_def])
      then show "?Q y s'"
        using r u t v by (intro exI [of _ ?t]) (simp add: uart_only_polls thr_checked_polls_write)
    qed
  qed
  then show ?case by (simp add: write_str_def bytes_def wlp_seq)
qed

lemma serial_print_wlp [wlp_intros]:
  assumes "\<And>t. uart_only t \<Longrightarrow> uart_out t = bytes m \<Longrightarrow> Q () (s\<lparr>trace := trace s @ t\<rparr>)"
  shows "wlp (serial_print E m) Q s"
  unfolding serial_print_def by (rule wlp_mono [OF write_str_trace]) (use assms in auto)

lemma serial_println_wlp [wlp_intros]:
  assumes "\<And>t. uart_only t \<Longrightarrow> uart_out t = bytes (m @ [CHR 0x0A]) \<Longrightarrow> Q () (s\<lparr>trace := trace s @ t\<rparr>)"
  shows "wlp (serial_println E m) Q s"
  unfolding serial_println_def by (rule serial_print_wlp) (use assms in auto)

lemma after_polls_trace:
  "trace (after_polls E k s) = trace (after_polls E k \<lparr>trace = trace s\<rparr>)"
  by (induction k) (simp_all add: Let_def)

lemma thr_empty_after_polls:
  "thr_empty E (after_polls E k s) \<longleftrightarrow> thr_empty E (after_polls E k \<lparr>trace = trace s\<rparr>)"
  unfolding thr_empty_def by (subst after_polls_trace) (rule refl)

lemma thr_busy_after_polls:
  "thr_busy E (after_polls E k s) = Ret (\<not> thr_empty E (after_polls E k s)) (after_polls E (Suc k) s)"
  by (simp add: thr_busy_def thr_empty_def in8_def run_simps Let_def)

lemma write_byte_returns:
  assumes "uart_drains E n" and "n < fuel E"
  shows "\<exists>s'. write_byte E b s = Ret () s'"
proof -
  let ?P = "\<lambda>k. thr_empty E (after_polls E k s)"
  obtain k0 where "k0 \<le> n" "?P k0"
    using assms(1) unfolding uart_drains_def thr_empty_after_polls [of E _ s] by blast
  define k where "k = (LEAST k. ?P k)"
  have k: "?P k" "k < fuel E"
    using LeastI [of ?P k0] Least_le [of ?P k0] \<open>?P k0\<close> \<open>k0 \<le> n\<close> assms(2) unfolding k_def by auto
  have before: "\<not> ?P i" if "i < k" for i
    using that not_less_Least unfolding k_def by blast
  have "spin_while (fuel E) (thr_busy E) (after_polls E 0 s) = Ret () (after_polls E (Suc k) s)"
    by (rule spin_while_run [where st = "\<lambda>i. after_polls E i s"])
      (use k before in \<open>simp_all only: thr_busy_after_polls simp_thms\<close>)
  then show ?thesis
    by (simp add: write_byte_def run_simps out8_def emit_def)
qed

lemma write_str_returns:
  assumes "uart_drains E n" and "n < fuel E"
  shows "\<exists>s'. write_str E m s = Ret () s'"
proof (induction m arbitrary: s)
  case Nil
  show ?case by (simp add: write_str_def bytes_def run_simps)
next
  case (Cons c m)
  obtain s1 where "write_byte E (of_char c) s = Ret () s1"
    using write_byte_returns [OF assms] by blast
  with Cons.IH [of s1] show ?case by (simp add: write_str_def bytes_def run_simps)
qed

lemma serial_print_run:
  assumes "uart_drains E n" and "n < fuel E"
  shows "\<exists>t. serial_print E m s = Ret () (s\<lparr>trace := trace s @ t\<rparr>) \<and> uart_only t \<and> uart_out t = bytes m"
proof -
  obtain s' where s': "write_str E m s = Ret () s'"
    using write_str_returns [OF assms] by blast
  from wlpD [OF write_str_trace s'] s' show ?thesis unfolding serial_print_def by auto
qed

lemma serial_println_returns:
  assumes "uart_drains E n" and "n < fuel E"
  shows "\<exists>s'. serial_println E m s = Ret () s'"
  unfolding serial_println_def serial_print_def by (rule write_str_returns [OF assms])

text \<open>
  C27. Printing a string on a UART whose holding register drains returns, touches nothing but
  the UART, and transmits exactly the bytes of the string, in order, each one only after a
  status read that saw the holding register empty.
\<close>

theorem write_str_transmits:
  assumes "uart_drains E n" and "n < fuel E"
  shows "\<exists>t. write_str E m s = Ret () (s\<lparr>trace := trace s @ t\<rparr>) \<and>
    uart_only t \<and> thr_checked t \<and> uart_out t = bytes m"
proof -
  obtain s' where s': "write_str E m s = Ret () s'"
    using write_str_returns [OF assms] by blast
  from wlpD [OF write_str_trace s'] s' show ?thesis by auto
qed

definition ready_env :: env where
  "ready_env = \<lparr>fuel = 1, port8 = (\<lambda>_ _. 0x60), port32 = (\<lambda>_ _. 0), mmio8 = (\<lambda>_ _. 0),
     mmio32 = (\<lambda>_ _. 0), dma32 = (\<lambda>_ _. 0), heap_alloc = (\<lambda>_ _ _. 0), irqs = (\<lambda>_. []), frame_ip = (\<lambda>_. 0),
     debug_text = (\<lambda>_ _. [])\<rparr>"

theorem write_str_transmits_witness:
  "uart_drains ready_env 0 \<and> 0 < fuel ready_env \<and>
   (\<exists>t. write_str ready_env ''ok'' \<lparr>trace = []\<rparr> = Ret () \<lparr>trace = t\<rparr> \<and>
     uart_only t \<and> thr_checked t \<and> uart_out t = [0x6F, 0x6B])"
proof -
  have 1: "uart_drains ready_env 0"
    by (simp add: uart_drains_def thr_empty_def ready_env_def)
  have 2: "0 < fuel ready_env" by (simp add: ready_env_def)
  have "bytes ''ok'' = [0x6F, 0x6B]" by (simp add: bytes_def of_char_def)
  with write_str_transmits [OF 1 2, of "''ok''" "\<lparr>trace = []\<rparr>"] 1 2 show ?thesis by simp
qed

section \<open>The UART that the initialisation programs\<close>

text \<open>
  The registers of a 16550: while the divisor latch access bit (bit 7 of the line control
  register) is set, offsets 0 and 1 address the baud rate divisor.
\<close>

record uart =
  IER :: u8
  FCR :: u8
  LCR :: u8
  MCR :: u8
  DLL :: u8
  DLM :: u8

definition dlab :: "uart \<Rightarrow> bool" where
  "dlab u \<longleftrightarrow> bit (LCR u) 7"

fun uart_step :: "bus_event \<Rightarrow> uart \<Rightarrow> uart" where
  "uart_step (Out8 p v) u =
     (if p = COM1 then (if dlab u then u\<lparr>DLL := v\<rparr> else u)
      else if p = COM1 + 1 then (if dlab u then u\<lparr>DLM := v\<rparr> else u\<lparr>IER := v\<rparr>)
      else if p = COM1 + 2 then u\<lparr>FCR := v\<rparr>
      else if p = COM1 + 3 then u\<lparr>LCR := v\<rparr>
      else if p = COM1 + 4 then u\<lparr>MCR := v\<rparr>
      else u)"
| "uart_step _ u = u"

definition baud :: "uart \<Rightarrow> nat" where
  "baud u = 115200 div (256 * unat (DLM u) + unat (DLL u))"

text \<open>
  C28. Whatever the UART held before, \<open>init\<close> leaves it at 38400 baud with 8 data bits, no
  parity and one stop bit, the divisor latch closed and the FIFOs enabled; its interrupts are
  disabled provided the divisor latch was closed when \<open>init\<close> was called (otherwise the
  first write lands in the divisor and the old interrupt mask stays).
\<close>

theorem serial_init_programs_uart:
  "\<exists>t. serial_init s = Ret () (s\<lparr>trace := trace s @ t\<rparr>) \<and>
     (let u' = fold uart_step t u in
        baud u' = 38400 \<and> LCR u' = 0x03 \<and> \<not> dlab u' \<and> FCR u' = 0xC7 \<and> MCR u' = 0x0B \<and>
        IER u' = (if dlab u then IER u else 0))"
  by (rule exI [of _ "[Out8 (COM1 + 1) 0, Out8 (COM1 + 3) 0x80, Out8 (COM1 + 0) 3,
      Out8 (COM1 + 1) 0, Out8 (COM1 + 3) 3, Out8 (COM1 + 2) 0xC7, Out8 (COM1 + 4) 0x0B]"])
    (simp add: serial_init_def access_defs run_simps COM1_def dlab_def baud_def Let_def)

end
