(* ===== verification/Keyboard.thy ===== *)
theory Keyboard
  imports Hardware
begin

text \<open>
  \<^verbatim>\<open>kernel/src/keyboard.rs\<close>, the part that runs in the keyboard interrupt and the
  non-blocking reader: the ring buffer, the shift state, the scancode table. The blocking
  readers, which wait for interrupts, are in \<open>Console\<close>.
\<close>

section \<open>The ring buffer\<close>

text \<open>
  \<open>RingBuffer<N>\<close>: the capacity \<open>N\<close> is the length of the array. The methods take
  \<open>&mut self\<close>, so they are programs whose state is the buffer itself.
\<close>

record ring_buffer =
  data :: "char list"
  head :: usize
  tail :: usize

definition BUF_SIZE :: usize where
  "BUF_SIZE = 256"

definition ring_new :: "usize \<Rightarrow> ring_buffer" where
  "ring_new N = \<lparr>data = replicate N (CHR 0x00), head = 0, tail = 0\<rparr>"

definition ring_push :: "char \<Rightarrow> (unit, ring_buffer) prog" where
  "ring_push c = (\<lambda>r.
     let N = length (data r) in
     if N = 0 then Panic DivisionByZero r
     else let next = (head r + 1) mod N in
       if next = tail r then Ret () r
       else if head r < N then Ret () (r\<lparr>data := (data r)[head r := c], head := next\<rparr>)
       else Panic IndexOutOfBounds r)"

definition ring_pop :: "(char option, ring_buffer) prog" where
  "ring_pop = (\<lambda>r.
     let N = length (data r) in
     if head r = tail r then Ret None r
     else if tail r < N then Ret (Some (data r ! tail r)) (r\<lparr>tail := (tail r + 1) mod N\<rparr>)
     else Panic IndexOutOfBounds r)"

section \<open>The interrupt side\<close>

text \<open>
  The statics of the module. \<open>BUF\<close> sits in a \<^verbatim>\<open>spin::Mutex\<close>; \<open>BUF_locked\<close> is the
  lock. On the kernel's only core a \<open>lock()\<close> that finds it taken spins for ever, since the
  holder cannot run until the spinning code is left.
\<close>

record kbd = machine +
  BUF :: ring_buffer
  BUF_locked :: bool
  SHIFT :: bool

definition lock_BUF :: "(unit, 'z kbd_scheme) prog" where
  "lock_BUF = (\<lambda>s. if BUF_locked s then Hang s else Ret () (s\<lparr>BUF_locked := True\<rparr>))"

definition unlock_BUF :: "(unit, 'z kbd_scheme) prog" where
  "unlock_BUF = (\<lambda>s. Ret () (s\<lparr>BUF_locked := False\<rparr>))"

definition on_BUF :: "('a, ring_buffer) prog \<Rightarrow> ('a, 'z kbd_scheme) prog" where
  "on_BUF m = (\<lambda>s. case m (BUF s) of
     Ret x b \<Rightarrow> Ret x (s\<lparr>BUF := b\<rparr>)
   | Panic p b \<Rightarrow> Panic p (s\<lparr>BUF := b\<rparr>)
   | Hang b \<Rightarrow> Hang (s\<lparr>BUF := b\<rparr>))"

definition with_BUF :: "('a, ring_buffer) prog \<Rightarrow> ('a, 'z kbd_scheme) prog" where
  "with_BUF m = seq lock_BUF (bind (on_BUF m) (\<lambda>x. seq unlock_BUF (return x)))"

text \<open>Scancode set 1, US QWERTY: scancode, character, character with shift.\<close>

definition scancode_table :: "(u8 \<times> char \<times> char) list" where
  "scancode_table =
    [(0x01, CHR 0x1B, CHR 0x1B),
     (0x0E, CHR 0x08, CHR 0x08),
     (0x0F, CHR 0x09, CHR 0x09),
     (0x1C, CHR 0x0A, CHR 0x0A),
     (0x39, CHR '' '', CHR '' ''),
     (0x02, CHR ''1'', CHR ''!''),
     (0x03, CHR ''2'', CHR ''@''),
     (0x04, CHR ''3'', CHR ''#''),
     (0x05, CHR ''4'', CHR ''$''),
     (0x06, CHR ''5'', CHR ''%''),
     (0x07, CHR ''6'', CHR ''^''),
     (0x08, CHR ''7'', CHR ''&''),
     (0x09, CHR ''8'', CHR ''*''),
     (0x0A, CHR ''9'', CHR ''(''),
     (0x0B, CHR ''0'', CHR '')''),
     (0x0C, CHR ''-'', CHR ''_''),
     (0x0D, CHR ''='', CHR ''+''),
     (0x10, CHR ''q'', CHR ''Q''),
     (0x11, CHR ''w'', CHR ''W''),
     (0x12, CHR ''e'', CHR ''E''),
     (0x13, CHR ''r'', CHR ''R''),
     (0x14, CHR ''t'', CHR ''T''),
     (0x15, CHR ''y'', CHR ''Y''),
     (0x16, CHR ''u'', CHR ''U''),
     (0x17, CHR ''i'', CHR ''I''),
     (0x18, CHR ''o'', CHR ''O''),
     (0x19, CHR ''p'', CHR ''P''),
     (0x1A, CHR ''['', CHR ''{''),
     (0x1B, CHR '']'', CHR ''}''),
     (0x1E, CHR ''a'', CHR ''A''),
     (0x1F, CHR ''s'', CHR ''S''),
     (0x20, CHR ''d'', CHR ''D''),
     (0x21, CHR ''f'', CHR ''F''),
     (0x22, CHR ''g'', CHR ''G''),
     (0x23, CHR ''h'', CHR ''H''),
     (0x24, CHR ''j'', CHR ''J''),
     (0x25, CHR ''k'', CHR ''K''),
     (0x26, CHR ''l'', CHR ''L''),
     (0x27, CHR '';'', CHR '':''),
     (0x28, CHR 0x27, CHR 0x22),
     (0x2B, CHR 0x5C, CHR ''|''),
     (0x2C, CHR ''z'', CHR ''Z''),
     (0x2D, CHR ''x'', CHR ''X''),
     (0x2E, CHR ''c'', CHR ''C''),
     (0x2F, CHR ''v'', CHR ''V''),
     (0x30, CHR ''b'', CHR ''B''),
     (0x31, CHR ''n'', CHR ''N''),
     (0x32, CHR ''m'', CHR ''M''),
     (0x33, CHR '','', CHR ''<''),
     (0x34, CHR ''.'', CHR ''>''),
     (0x35, CHR ''/'', CHR ''?'')]"

definition scancode_to_char :: "u8 \<Rightarrow> bool \<Rightarrow> char option" where
  "scancode_to_char scancode shifted =
     map_option (\<lambda>(plain, up). if shifted then up else plain) (map_of scancode_table scancode)"

definition store_SHIFT :: "bool \<Rightarrow> (unit, 'z kbd_scheme) prog" where
  "store_SHIFT b = (\<lambda>s. Ret () (s\<lparr>SHIFT := b\<rparr>))"

definition load_SHIFT :: "(bool, 'z kbd_scheme) prog" where
  "load_SHIFT = (\<lambda>s. Ret (SHIFT s) s)"

definition handle_scancode :: "env \<Rightarrow> (unit, 'z kbd_scheme) prog" where
  "handle_scancode E =
     bind (in8 E 0x60) (\<lambda>scancode.
       if scancode = 0x2A \<or> scancode = 0x36 then store_SHIFT True
       else if scancode = 0xAA \<or> scancode = 0xB6 then store_SHIFT False
       else if scancode AND 0x80 \<noteq> 0 then return ()
       else bind load_SHIFT (\<lambda>shifted.
         case scancode_to_char scancode shifted of
           Some c \<Rightarrow> with_BUF (ring_push c)
         | None \<Rightarrow> return ()))"

definition read_char :: "(char option, 'z kbd_scheme) prog" where
  "read_char = with_BUF ring_pop"

section \<open>The buffer as a bounded queue\<close>

text \<open>
  The interface the rest of the kernel relies on: a queue of bounded capacity whose
  \<open>push\<close> on a full queue does nothing.
\<close>

text \<open>Sequences of operations on a queue, with their answers, and what a list of bounded length answers.\<close>

datatype 'a queue_op = Push 'a | Pop

primrec perform :: "('a \<Rightarrow> (unit, 'q) prog) \<Rightarrow> ('a option, 'q) prog \<Rightarrow> 'a queue_op list \<Rightarrow> ('a option list, 'q) prog" where
  "perform push pop [] = return []"
| "perform push pop (op # ops) =
     bind (case op of Push x \<Rightarrow> seq (push x) (return None) | Pop \<Rightarrow> pop) (\<lambda>r.
     bind (perform push pop ops) (\<lambda>rs. return (r # rs)))"

fun fifo_step :: "nat \<Rightarrow> 'a queue_op \<Rightarrow> 'a list \<Rightarrow> 'a option \<times> 'a list" where
  "fifo_step n (Push x) xs = (None, if length xs < n then xs @ [x] else xs)"
| "fifo_step n Pop [] = (None, [])"
| "fifo_step n Pop (x # xs) = (Some x, xs)"

primrec fifo_run :: "nat \<Rightarrow> 'a queue_op list \<Rightarrow> 'a list \<Rightarrow> 'a option list \<times> 'a list" where
  "fifo_run n [] xs = ([], xs)"
| "fifo_run n (op # ops) xs =
     (let (r, ys) = fifo_step n op xs; (rs, zs) = fifo_run n ops ys in (r # rs, zs))"

locale bounded_queue =
  fixes push :: "'a \<Rightarrow> (unit, 'q) prog"
    and pop :: "('a option, 'q) prog"
    and items :: "'q \<Rightarrow> 'a list"
    and cap :: "'q \<Rightarrow> nat"
    and inv :: "'q \<Rightarrow> bool"
  assumes push_room: "inv q \<Longrightarrow> length (items q) < cap q \<Longrightarrow>
      \<exists>q'. push x q = Ret () q' \<and> inv q' \<and> cap q' = cap q \<and> items q' = items q @ [x]"
    and push_full: "inv q \<Longrightarrow> length (items q) = cap q \<Longrightarrow> push x q = Ret () q"
    and pop_empty: "inv q \<Longrightarrow> items q = [] \<Longrightarrow> pop q = Ret None q"
    and pop_cons: "inv q \<Longrightarrow> items q = x # xs \<Longrightarrow>
      \<exists>q'. pop q = Ret (Some x) q' \<and> inv q' \<and> cap q' = cap q \<and> items q' = xs"
    and bounded: "inv q \<Longrightarrow> length (items q) \<le> cap q"
begin

lemma push_any:
  assumes "inv q"
  shows "\<exists>q'. push x q = Ret () q' \<and> inv q' \<and> cap q' = cap q \<and>
    items q' = take (cap q) (items q @ [x])"
proof (cases "length (items q) < cap q")
  case True
  with push_room [OF assms True, of x] show ?thesis by (auto simp: take_Cons')
next
  case False
  with bounded [OF assms] have full: "length (items q) = cap q" by simp
  with push_full [OF assms full, of x] assms show ?thesis by simp
qed

lemma push_list:
  "inv q \<Longrightarrow> \<exists>q'. for_each xs push q = Ret () q' \<and> inv q' \<and> cap q' = cap q \<and>
    items q' = take (cap q) (items q @ xs)"
proof (induction xs arbitrary: q)
  case Nil
  with bounded [of q] show ?case by (simp add: run_simps)
next
  case (Cons x xs)
  obtain q1 where q1: "push x q = Ret () q1" "inv q1" "cap q1 = cap q"
      "items q1 = take (cap q) (items q @ [x])"
    using push_any [OF Cons.prems] by blast
  obtain q2 where q2: "for_each xs push q1 = Ret () q2" "inv q2" "cap q2 = cap q1"
      "items q2 = take (cap q1) (items q1 @ xs)"
    using Cons.IH [OF q1(2)] by blast
  have "take (cap q) (take (cap q) (items q @ [x]) @ xs) = take (cap q) (items q @ x # xs)"
    by (cases "length (items q) < cap q") (simp_all add: min_def)
  with q1 q2 show ?case by (auto simp: run_simps)
qed

lemma op_fifo:
  assumes "inv q"
  shows "\<exists>q'. (case op of Push x \<Rightarrow> seq (push x) (return None) | Pop \<Rightarrow> pop) q = Ret (fst (fifo_step (cap q) op (items q))) q' \<and>
    inv q' \<and> cap q' = cap q \<and> items q' = snd (fifo_step (cap q) op (items q))"
proof (cases op)
  case (Push x)
  show ?thesis
  proof (cases "length (items q) < cap q")
    case True
    with push_room [OF assms True, of x] Push show ?thesis by (auto simp: run_simps)
  next
    case False
    with bounded [OF assms] have full: "length (items q) = cap q" by simp
    with push_full [OF assms full, of x] Push assms show ?thesis by (auto simp: run_simps)
  qed
next
  case Pop
  then show ?thesis
    using pop_empty [OF assms] pop_cons [OF assms] assms by (cases "items q") fastforce+
qed

lemma perform_fifo:
  "inv q \<Longrightarrow> \<exists>q'. perform push pop ops q = Ret (fst (fifo_run (cap q) ops (items q))) q' \<and> inv q' \<and> cap q' = cap q \<and>
     items q' = snd (fifo_run (cap q) ops (items q))"
proof (induction ops arbitrary: q)
  case Nil
  then show ?case by (simp add: run_simps)
next
  case (Cons op ops)
  obtain q1 where q1: "(case op of Push x \<Rightarrow> seq (push x) (return None) | Pop \<Rightarrow> pop) q = Ret (fst (fifo_step (cap q) op (items q))) q1"
      "inv q1" "cap q1 = cap q" "items q1 = snd (fifo_step (cap q) op (items q))"
    using op_fifo [OF Cons.prems] by blast
  obtain q2 where "perform push pop ops q1 = Ret (fst (fifo_run (cap q) ops (items q1))) q2" "inv q2" "cap q2 = cap q"
      "items q2 = snd (fifo_run (cap q) ops (items q1))"
    using Cons.IH [OF q1(2)] q1(3) by auto
  then show ?case unfolding perform.simps bind_run q1(1) by (simp add: q1(4) run_simps split: prod.splits)
qed

text \<open>Popping \<open>length (items q)\<close> times yields the items in order and empties the queue.\<close>

lemma pop_all:
  "inv q \<Longrightarrow> \<exists>q'. repeat_prog (length (items q)) pop q = Ret (map Some (items q)) q' \<and>
     inv q' \<and> cap q' = cap q \<and> items q' = []"
proof (induction "items q" arbitrary: q)
  case Nil
  then show ?case by (metis list.map(1) list.size(3) repeat_prog.simps(1) return_run)
next
  case (Cons x xs)
  obtain q1 where q1: "pop q = Ret (Some x) q1" "inv q1" "cap q1 = cap q" "items q1 = xs"
    using pop_cons [OF Cons.prems Cons.hyps(2) [symmetric]] by blast
  with Cons.hyps(1) [of q1] show ?case
    unfolding Cons.hyps(2) [symmetric] by (fastforce simp: run_simps)
qed

end

text \<open>The items of the ring buffer, oldest first, and its invariant.\<close>

definition ring_count :: "ring_buffer \<Rightarrow> nat" where
  "ring_count r = (head r + length (data r) - tail r) mod length (data r)"

definition ring_items :: "ring_buffer \<Rightarrow> char list" where
  "ring_items r = map (\<lambda>i. data r ! ((tail r + i) mod length (data r))) [0..<ring_count r]"

definition ring_cap :: "ring_buffer \<Rightarrow> nat" where
  "ring_cap r = length (data r) - 1"

definition ring_inv :: "ring_buffer \<Rightarrow> bool" where
  "ring_inv r \<longleftrightarrow> head r < length (data r) \<and> tail r < length (data r)"


lemma ring_count_less: "ring_inv r \<Longrightarrow> ring_count r < length (data r)"
  by (auto simp: ring_inv_def ring_count_def intro!: mod_less_divisor)

lemma ring_count_eq:
  "ring_inv r \<Longrightarrow> ring_count r =
     (if tail r \<le> head r then head r - tail r else head r + length (data r) - tail r)"
  by (auto simp: ring_inv_def ring_count_def mod_wrap)

lemma length_ring_items [simp]: "length (ring_items r) = ring_count r"
  by (simp add: ring_items_def)

lemma ring_full_iff:
  "ring_inv r \<Longrightarrow> (head r + 1) mod length (data r) = tail r \<longleftrightarrow> ring_count r = ring_cap r"
  by (auto simp: ring_count_eq ring_cap_def ring_inv_def mod_wrap split: if_splits)

lemma ring_slot_head:
  "ring_inv r \<Longrightarrow> (tail r + ring_count r) mod length (data r) = head r"
  by (auto simp: ring_count_eq ring_inv_def mod_wrap)

lemma ring_slot_neq:
  "ring_inv r \<Longrightarrow> i < ring_count r \<Longrightarrow> (tail r + i) mod length (data r) \<noteq> head r"
  by (auto simp: ring_count_eq ring_inv_def mod_wrap split: if_splits)

lemma ring_push_room:
  assumes inv: "ring_inv r" and room: "ring_count r < ring_cap r"
  shows "\<exists>r'. ring_push c r = Ret () r' \<and> ring_inv r' \<and> ring_cap r' = ring_cap r \<and>
    ring_items r' = ring_items r @ [c]"
proof -
  let ?N = "length (data r)"
  let ?r = "r\<lparr>data := (data r)[head r := c], head := (head r + 1) mod ?N\<rparr>"
  from inv have h: "head r < ?N" "tail r < ?N" "0 < ?N" by (auto simp: ring_inv_def)
  from room have not_full: "(head r + 1) mod ?N \<noteq> tail r" using ring_full_iff [OF inv] by simp
  have inv': "ring_inv ?r" using h by (simp add: ring_inv_def)
  have count': "ring_count ?r = Suc (ring_count r)"
    using not_full h unfolding ring_count_eq [OF inv] ring_count_eq [OF inv']
    by (auto simp: mod_wrap split: if_splits)
  have "ring_items ?r = ring_items r @ [c]"
    unfolding ring_items_def count' using h
    by (auto simp: ring_slot_head [OF inv] ring_slot_neq [OF inv, symmetric] nth_list_update_mod)
  with inv' h not_full show ?thesis
    by (auto simp: ring_push_def Let_def ring_cap_def)
qed

lemma ring_push_full:
  "ring_inv r \<Longrightarrow> ring_count r = ring_cap r \<Longrightarrow> ring_push c r = Ret () r"
  using ring_full_iff [of r] by (auto simp: ring_push_def Let_def ring_inv_def)

lemma ring_pop_empty: "ring_inv r \<Longrightarrow> ring_items r = [] \<Longrightarrow> ring_pop r = Ret None r"
  using length_ring_items [of r]
  by (auto simp: ring_pop_def Let_def ring_count_eq ring_inv_def split: if_splits)

lemma ring_pop_cons:
  assumes inv: "ring_inv r" and items: "ring_items r = x # xs"
  shows "\<exists>r'. ring_pop r = Ret (Some x) r' \<and> ring_inv r' \<and> ring_cap r' = ring_cap r \<and> ring_items r' = xs"
proof -
  let ?N = "length (data r)"
  let ?r = "r\<lparr>tail := (tail r + 1) mod ?N\<rparr>"
  from inv have h: "head r < ?N" "tail r < ?N" "0 < ?N" by (auto simp: ring_inv_def)
  have count: "ring_count r = Suc (length xs)"
    using items length_ring_items [of r] by simp
  then have ne: "head r \<noteq> tail r" using inv by (auto simp: ring_count_eq)
  have inv': "ring_inv ?r" using h by (simp add: ring_inv_def)
  have count': "ring_count ?r = length xs"
    using count ne h unfolding ring_count_eq [OF inv] ring_count_eq [OF inv']
    by (auto simp: mod_wrap split: if_splits)
  have split: "ring_items r = data r ! tail r # map (\<lambda>i. data r ! ((tail r + Suc i) mod ?N)) [0..<length xs]"
    unfolding ring_items_def count using h by (simp add: upt_conv_Cons map_Suc_upt [symmetric] del: upt_Suc)
  have "x = data r ! tail r" "ring_items ?r = xs"
    using split items count' by (simp_all add: ring_items_def mod_add_left_eq)
  with inv' h ne show ?thesis
    by (auto simp: ring_pop_def Let_def ring_cap_def)
qed

interpretation kq: bounded_queue ring_push ring_pop ring_items ring_cap ring_inv
proof unfold_locales
  show "length (ring_items q) \<le> ring_cap q" if "ring_inv q" for q
    using ring_count_less [OF that] by (simp add: ring_cap_def)
qed (auto intro: ring_push_room ring_push_full ring_pop_empty ring_pop_cons)

lemma ring_new_props:
  "0 < N \<Longrightarrow> ring_inv (ring_new N)" "ring_items (ring_new N) = []" "ring_cap (ring_new N) = N - 1"
  by (simp_all add: ring_new_def ring_inv_def ring_items_def ring_count_def ring_cap_def)

text \<open>
  C9. The ring buffer is a bounded queue. Whatever pushes and pops follow the construction of a
  buffer of \<open>N\<close> slots, in whatever order, none of them panics, and they answer as a list with
  room for \<open>N - 1\<close> characters does: a push appends at the end, or is dropped when the list is
  full (the new character, not the oldest), and a pop takes from the front, or reports that the
  list is empty. The buffer stays well formed and holds what the list holds.
\<close>

theorem ring_buffer_refines_fifo:
  assumes "0 < N"
  shows "\<exists>r'. perform ring_push ring_pop ops (ring_new N) = Ret (fst (fifo_run (N - 1) ops [])) r' \<and> ring_inv r' \<and>
    length (data r') = N \<and> ring_items r' = snd (fifo_run (N - 1) ops [])"
proof -
  obtain r' where r': "perform ring_push ring_pop ops (ring_new N) = Ret (fst (fifo_run (N - 1) ops [])) r'" "ring_inv r'"
      "ring_cap r' = N - 1" "ring_items r' = snd (fifo_run (N - 1) ops [])"
    using kq.perform_fifo [OF ring_new_props(1) [OF assms], of ops] by (auto simp: ring_new_props)
  moreover have "length (data r') = N" using r'(2,3) assms by (auto simp: ring_cap_def ring_inv_def)
  ultimately show ?thesis by blast
qed

theorem ring_buffer_refines_fifo_witness:
  "\<exists>r'. perform ring_push ring_pop [Push (CHR ''a''), Push (CHR ''b''), Push (CHR ''c''), Pop, Push (CHR ''d''), Pop, Pop, Pop]
      (ring_new 3) = Ret [None, None, None, Some (CHR ''a''), None, Some (CHR ''b''), Some (CHR ''d''), None] r' \<and>
    ring_items r' = []"
  using ring_buffer_refines_fifo [of 3 "[Push (CHR ''a''), Push (CHR ''b''), Push (CHR ''c''), Pop, Push (CHR ''d''), Pop, Pop, Pop]"]
  by auto

text \<open>
  First in, first out: what is pushed on the fresh 256-slot buffer comes out of the pops
  in the same order; of a longer input the first 255 characters survive; then the buffer
  reports empty.
\<close>

lemma ring_fifo_roundtrip:
  "\<exists>r' r''. for_each xs ring_push (ring_new BUF_SIZE) = Ret () r' \<and>
     repeat_prog (min (length xs) 255) ring_pop r' = Ret (map Some (take 255 xs)) r'' \<and>
     ring_pop r'' = Ret None r''"
proof -
  let ?r = "ring_new BUF_SIZE"
  have r: "ring_inv ?r" "ring_items ?r = []" "ring_cap ?r = 255"
    by (simp_all add: ring_new_def BUF_SIZE_def ring_inv_def ring_items_def ring_count_def ring_cap_def)
  obtain r' where r': "for_each xs ring_push ?r = Ret () r'" "ring_inv r'"
      "ring_items r' = take 255 xs"
    using kq.push_list [OF r(1), of xs] r by auto
  obtain r'' where r'': "repeat_prog (length (ring_items r')) ring_pop r' = Ret (map Some (ring_items r')) r''"
      "ring_inv r''" "ring_items r'' = []"
    using kq.pop_all [OF r'(2)] by blast
  have "length (ring_items r') = min (length xs) 255"
    using r'(3) by (simp only: length_take min.commute)
  then show ?thesis
    using r' r'' kq.pop_empty [OF r''(2,3)] by (metis)
qed

section \<open>The scancode table\<close>

lemma scancode_table_keys: "list_all (\<lambda>(k, _). k AND 0x80 = 0) scancode_table"
  by (simp add: scancode_table_def)

lemma scancode_table_distinct:
  "distinct (map fst scancode_table)"
  "distinct (map (fst \<circ> snd) scancode_table)" "distinct (map (snd \<circ> snd) scancode_table)"
  by (simp_all add: scancode_table_def)

lemma scancode_to_char_Some:
  "scancode_to_char k sh = Some c \<longleftrightarrow>
     (\<exists>a b. (k, a, b) \<in> set scancode_table \<and> c = (if sh then b else a))"
  using scancode_table_distinct(1) by (auto simp: scancode_to_char_def)

lemma scancode_to_char_break: "k AND 0x80 \<noteq> 0 \<Longrightarrow> scancode_to_char k sh = None"
  using scancode_table_keys by (auto simp: list_all_iff scancode_to_char_def map_of_eq_None_iff)

lemma scancode_to_char_inj:
  assumes "scancode_to_char k sh = Some c" and "scancode_to_char k' sh = Some c"
  shows "k = k'"
proof -
  from assms obtain a b a' b' where
    "(k, a, b) \<in> set scancode_table" "(k', a', b') \<in> set scancode_table"
    "(if sh then b else a) = (if sh then b' else a')"
    by (auto simp: scancode_to_char_Some)
  with scancode_table_distinct(2,3) show ?thesis
    by (cases sh) (force simp: distinct_map inj_on_def)+
qed

definition typable :: "char list" where
  "typable = concat (map (\<lambda>(k, a, b). [a, b]) scancode_table)"

lemma typable_iff: "(\<exists>k sh. scancode_to_char k sh = Some c) \<longleftrightarrow> c \<in> set typable"
proof
  assume "\<exists>k sh. scancode_to_char k sh = Some c"
  then show "c \<in> set typable" by (fastforce simp: scancode_to_char_Some typable_def split: if_splits)
next
  assume "c \<in> set typable"
  then obtain k a b where "(k, a, b) \<in> set scancode_table" "c = a \<or> c = b"
    by (auto simp: typable_def)
  then have "scancode_to_char k False = Some c \<or> scancode_to_char k True = Some c"
    by (auto simp: scancode_to_char_Some)
  then show "\<exists>k sh. scancode_to_char k sh = Some c" by blast
qed

lemma typable_codes_sound:
  "list_all (\<lambda>c. (of_char c :: nat) \<in> ({8, 9, 10, 27} \<union> {32..126}) - {96, 126}) typable"
  by (simp add: typable_def scancode_table_def of_char_def)

lemma typable_codes_complete:
  "list_all (\<lambda>n. n = 96 \<or> n = 126 \<or> char_of n \<in> set typable) ([8, 9, 10, 27] @ [32..<127 :: nat])"
  by (simp add: typable_def scancode_table_def upt_rec char_of_def bit_Suc_0_iff)

lemma typable_codes: "c \<in> set typable \<longleftrightarrow> of_char c \<in> ({8, 9, 10, 27} \<union> {32..126}) - {96, 126 :: nat}"
proof
  assume code: "of_char c \<in> ({8, 9, 10, 27} \<union> {32..126}) - {96, 126 :: nat}"
  then have "of_char c \<in> set ([8, 9, 10, 27] @ [32..<127 :: nat])"
    unfolding set_append set_upt by auto
  with typable_codes_complete code have "char_of (of_char c :: nat) \<in> set typable"
    unfolding list_all_iff by blast
  then show "c \<in> set typable" by simp
qed (use typable_codes_sound in \<open>unfold list_all_iff, blast\<close>)

text \<open>
  C31. The keymap: a key yields at most one character per shift state and no two keys yield
  the same one; the characters that can be typed are exactly backspace, tab, newline, escape
  and the printable ASCII characters, except the grave accent and the tilde (the key with
  scancode 0x29 is not in the table). Break codes (bit 7 set) yield nothing.
\<close>

theorem keymap_complete:
  "((\<exists>k sh. scancode_to_char k sh = Some c) \<longleftrightarrow>
      of_char c \<in> ({8, 9, 10, 27} \<union> {32..126}) - {96, 126 :: nat}) \<and>
   (scancode_to_char k sh = Some c \<longrightarrow> scancode_to_char k' sh = Some c \<longrightarrow> k = k') \<and>
   (bit k 7 \<longrightarrow> scancode_to_char k sh = None)"
proof (intro conjI impI)
  show "(\<exists>k sh. scancode_to_char k sh = Some c) \<longleftrightarrow>
      of_char c \<in> ({8, 9, 10, 27} \<union> {32..126}) - {96, 126 :: nat}"
    unfolding typable_iff by (rule typable_codes)
  show "k = k'" if "scancode_to_char k sh = Some c" "scancode_to_char k' sh = Some c"
    using that by (rule scancode_to_char_inj)
  show "scancode_to_char k sh = None" if "bit k 7"
  proof (rule scancode_to_char_break)
    have "bit (k AND 0x80) 7" using that by (simp add: bit_simps)
    then show "k AND 0x80 \<noteq> 0" by auto
  qed
qed

theorem keymap_complete_witness:
  "scancode_to_char 0x1E True = Some CHR ''A'' \<and> {k. scancode_to_char k True = Some CHR ''A''} = {0x1E} \<and>
   bit (0x9E :: u8) 7 \<and> scancode_to_char 0x9E True = None"
proof -
  have a: "scancode_to_char 0x1E True = Some CHR ''A''"
    by (simp add: scancode_to_char_def scancode_table_def)
  have b: "bit (0x9E :: u8) 7" by simp
  have "{k. scancode_to_char k True = Some CHR ''A''} = {0x1E}"
    using keymap_complete [of "CHR ''A''" _ True "0x1E"] a by blast
  with a b keymap_complete [of "CHR ''A''" "0x9E" True "0x1E"] show ?thesis by blast
qed

section \<open>The interrupt handler\<close>

text \<open>
  What a keyboard user means: the characters a sequence of scancodes types, given the shift
  state it starts in, and the shift state it ends in.
\<close>

fun shift_after :: "bool \<Rightarrow> u8 list \<Rightarrow> bool" where
  "shift_after sh [] = sh"
| "shift_after sh (k # ks) =
     shift_after (if k \<in> {0x2A, 0x36} then True else if k \<in> {0xAA, 0xB6} then False else sh) ks"

fun typed :: "bool \<Rightarrow> u8 list \<Rightarrow> string" where
  "typed sh [] = []"
| "typed sh (k # ks) =
     (if k \<in> {0x2A, 0x36, 0xAA, 0xB6} then []
      else case scancode_to_char k sh of None \<Rightarrow> [] | Some c \<Rightarrow> [c]) @
     typed (shift_after sh [k]) ks"

lemma typed_append: "typed sh (ks @ ls) = typed sh ks @ typed (shift_after sh ks) ls"
  by (induction sh ks rule: typed.induct) simp_all

lemma shift_after_append: "shift_after sh (ks @ ls) = shift_after (shift_after sh ks) ls"
  by (induction sh ks rule: shift_after.induct) simp_all

lemma with_BUF_run:
  "\<not> BUF_locked s \<Longrightarrow> m (BUF s) = Ret x b \<Longrightarrow> with_BUF m s = Ret x (s\<lparr>BUF := b, BUF_locked := False\<rparr>)"
  by (simp add: with_BUF_def lock_BUF_def on_BUF_def unlock_BUF_def run_simps)

definition kbd_ok :: "'z kbd_scheme \<Rightarrow> bool" where
  "kbd_ok s \<longleftrightarrow> ring_inv (BUF s) \<and> \<not> BUF_locked s"

lemma kbd_ok_more [simp]:
  "kbd_ok (s\<lparr>trace := t\<rparr>) = kbd_ok s" "kbd_ok (s\<lparr>SHIFT := b\<rparr>) = kbd_ok s"
  by (simp_all add: kbd_ok_def)

lemma unlocked_id: "\<not> BUF_locked s \<Longrightarrow> s\<lparr>BUF_locked := False\<rparr> = s"
  by (cases s) auto

lemma push_char:
  assumes "kbd_ok s"
  shows "\<exists>b. with_BUF (ring_push c) s = Ret () (s\<lparr>BUF := b\<rparr>) \<and> ring_inv b \<and>
    ring_cap b = ring_cap (BUF s) \<and>
    ring_items b = take (ring_cap (BUF s)) (ring_items (BUF s) @ [c])"
proof -
  obtain b where b: "ring_push c (BUF s) = Ret () b" "ring_inv b" "ring_cap b = ring_cap (BUF s)"
     "ring_items b = take (ring_cap (BUF s)) (ring_items (BUF s) @ [c])"
    using kq.push_any [of "BUF s" c] assms by (auto simp: kbd_ok_def)
  have "with_BUF (ring_push c) s = Ret () (s\<lparr>BUF := b\<rparr>)"
    using assms with_BUF_run [of s "ring_push c", OF _ b(1)]
    by (simp add: kbd_ok_def unlocked_id)
  with b show ?thesis by blast
qed

text \<open>One interrupt: the scancode read from port 0x60 acts as specified.\<close>

lemma handle_scancode_step:
  fixes s :: "'z kbd_scheme" and E :: env
  assumes "kbd_ok s"
  defines "k \<equiv> port8 E (trace s) 0x60"
  shows "\<exists>b. handle_scancode E s = Ret () (s\<lparr>trace := trace s @ [In8 0x60 k],
      SHIFT := shift_after (SHIFT s) [k], BUF := b\<rparr>) \<and> ring_inv b \<and> ring_cap b = ring_cap (BUF s) \<and>
    ring_items b = take (ring_cap (BUF s)) (ring_items (BUF s) @ typed (SHIFT s) [k])"
proof -
  let ?s = "s\<lparr>trace := trace s @ [In8 0x60 k]\<rparr>"
  have inv: "ring_inv (BUF s)" using assms(1) by (simp add: kbd_ok_def)
  have len: "take (ring_cap (BUF s)) (ring_items (BUF s)) = ring_items (BUF s)"
    using kq.bounded [OF inv] by simp
  have same: "s\<lparr>trace := t, SHIFT := b\<rparr> = s\<lparr>trace := t, SHIFT := b, BUF := BUF s\<rparr>"
    "s\<lparr>trace := t\<rparr> = s\<lparr>trace := t, SHIFT := SHIFT s, BUF := BUF s\<rparr>"
    "s\<lparr>trace := t, BUF := r\<rparr> = s\<lparr>trace := t, SHIFT := SHIFT s, BUF := r\<rparr>" for t b r
    by (cases s, simp)+
  show ?thesis
  proof (cases "k \<in> {0x2A, 0x36, 0xAA, 0xB6}")
    case True
    then show ?thesis
      using inv len same(1)
      by (auto simp: handle_scancode_def in8_def run_simps Let_def k_def store_SHIFT_def
          intro!: exI [of _ "BUF s"])
  next
    case False
    show ?thesis
    proof (cases "scancode_to_char k (SHIFT s)")
      case None
      with False show ?thesis
        using inv len same(2)
        by (auto simp: handle_scancode_def in8_def run_simps Let_def k_def load_SHIFT_def
            intro!: exI [of _ "BUF s"])
    next
      case (Some c)
      then have make: "k AND 0x80 = 0" using scancode_to_char_break [of k "SHIFT s"] by fastforce
      obtain b where b: "with_BUF (ring_push c) ?s = Ret () (?s\<lparr>BUF := b\<rparr>)" "ring_inv b"
          "ring_cap b = ring_cap (BUF s)"
          "ring_items b = take (ring_cap (BUF s)) (ring_items (BUF s) @ [c])"
        using push_char [of ?s c] assms(1) by auto
      with False Some make same(3) show ?thesis
        by (intro exI [of _ b])
          (auto simp: handle_scancode_def in8_def run_simps Let_def k_def [symmetric] load_SHIFT_def)
    qed
  qed
qed

text \<open>
  C17. Any number of keyboard interrupts, whatever scancodes the controller delivers: no panic,
  no deadlock, one read of port 0x60 per interrupt, the shift state follows the shift keys,
  and the characters typed are appended to the buffer in order, up to its capacity.
\<close>

theorem keyboard_interrupts_type:
  assumes "kbd_ok s"
  shows "\<exists>ks s'. repeat_prog n (handle_scancode E) s = Ret (replicate n ()) s' \<and>
    length ks = n \<and> trace s' = trace s @ map (In8 0x60) ks \<and> kbd_ok s' \<and>
    ring_cap (BUF s') = ring_cap (BUF s) \<and> SHIFT s' = shift_after (SHIFT s) ks \<and>
    ring_items (BUF s') = take (ring_cap (BUF s)) (ring_items (BUF s) @ typed (SHIFT s) ks)"
  using assms
proof (induction n arbitrary: s)
  case 0
  have "length (ring_items (BUF s)) \<le> ring_cap (BUF s)"
    using 0 by (intro kq.bounded) (simp add: kbd_ok_def)
  with 0 show ?case by (intro exI [of _ "[]"]) (simp add: run_simps)
next
  case (Suc n)
  define k where "k = port8 E (trace s) 0x60"
  obtain b where b: "handle_scancode E s = Ret () (s\<lparr>trace := trace s @ [In8 0x60 k],
      SHIFT := shift_after (SHIFT s) [k], BUF := b\<rparr>)" "ring_inv b" "ring_cap b = ring_cap (BUF s)"
    "ring_items b = take (ring_cap (BUF s)) (ring_items (BUF s) @ typed (SHIFT s) [k])"
    using handle_scancode_step [OF Suc.prems, of E] unfolding k_def by blast
  let ?s = "s\<lparr>trace := trace s @ [In8 0x60 k], SHIFT := shift_after (SHIFT s) [k], BUF := b\<rparr>"
  have "kbd_ok ?s" using Suc.prems b(2) by (simp add: kbd_ok_def)
  from Suc.IH [OF this] obtain ks s' where IH:
    "repeat_prog n (handle_scancode E) ?s = Ret (replicate n ()) s'" "length ks = n"
    "trace s' = trace ?s @ map (In8 0x60) ks" "kbd_ok s'" "ring_cap (BUF s') = ring_cap (BUF ?s)"
    "SHIFT s' = shift_after (SHIFT ?s) ks"
    "ring_items (BUF s') = take (ring_cap (BUF ?s)) (ring_items (BUF ?s) @ typed (SHIFT ?s) ks)"
    by blast
  have items: "ring_items (BUF s') = take (ring_cap (BUF s)) (ring_items (BUF s) @ typed (SHIFT s) (k # ks))"
  proof -
    have typed: "typed (SHIFT s) (k # ks) = typed (SHIFT s) [k] @ typed (shift_after (SHIFT s) [k]) ks"
      using typed_append [of "SHIFT s" "[k]" ks] by simp
    have fields: "BUF ?s = b" "SHIFT ?s = shift_after (SHIFT s) [k]" by simp_all
    show ?thesis
      unfolding IH(7) typed fields b(3,4) take_append_take append_assoc by (rule refl)
  qed
  have "SHIFT s' = shift_after (SHIFT s) (k # ks)"
    using IH(6) shift_after_append [of "SHIFT s" "[k]" ks] by simp
  with IH b items show ?case
    by (intro exI [of _ "k # ks"] exI [of _ s']) (simp add: run_simps)
qed

text \<open>A keyboard controller that delivers a given list of scancodes, one per read.\<close>

definition scancode_env :: "u8 list \<Rightarrow> env" where
  "scancode_env ks = \<lparr>fuel = 1,
     port8 = (\<lambda>t p. if p = 0x60 \<and> length t < length ks then ks ! length t else 0), port32 = (\<lambda>_ _. 0),
     mmio8 = (\<lambda>_ _. 0), mmio32 = (\<lambda>_ _. 0), dma32 = (\<lambda>_ _. 0), heap_alloc = (\<lambda>_ _ _. 0), irqs = (\<lambda>_. []),
     frame_ip = (\<lambda>_. 0), debug_text = (\<lambda>_ _. [])\<rparr>"

definition kbd_start :: kbd where
  "kbd_start = \<lparr>trace = [], BUF = ring_new BUF_SIZE, BUF_locked = False, SHIFT = False\<rparr>"

lemma kbd_start_ok: "kbd_ok kbd_start"
  by (simp add: kbd_ok_def kbd_start_def ring_new_def BUF_SIZE_def ring_inv_def)

theorem keyboard_interrupts_type_witness:
  "kbd_ok kbd_start \<and>
   (\<exists>ks s'. repeat_prog 3 (handle_scancode (scancode_env [0x2A, 0x23, 0xAA])) kbd_start
       = Ret (replicate 3 ()) s' \<and> length ks = 3 \<and> trace s' = map (In8 0x60) ks \<and> kbd_ok s')"
proof -
  have "trace kbd_start = []" by (simp add: kbd_start_def)
  with keyboard_interrupts_type [OF kbd_start_ok, of 3 "scancode_env [0x2A, 0x23, 0xAA]"]
  show ?thesis using kbd_start_ok by auto
qed

text \<open>
  One flag serves both shift keys: with both held down, releasing either one makes the
  driver treat the other as released too.
\<close>

lemma shift_release_forgets_other_shift:
  "shift_after sh [0x2A, 0x36, 0xB6] = False \<and> typed sh [0x2A, 0x36, 0xB6, 0x1E] = ''a'' \<and>
   typed sh [0x2A, 0x1E] = ''A''"
  by (simp add: scancode_to_char_def scancode_table_def)

text \<open>From here on sequences of scancodes are decomposed with the append lemmas only.\<close>

declare shift_after.simps(2) [simp del] typed.simps(2) [simp del]

end
