(* ===== verification/Interrupts.thy ===== *)
theory Interrupts
  imports Gdt Serial Keyboard
begin

text \<open>
  \<^verbatim>\<open>kernel/src/interrupts.rs\<close>: the interrupt descriptor table, the timer, the handlers,
  and what a halted CPU does when interrupts arrive. The \<^verbatim>\<open>pic8259\<close> crate's
  \<open>initialize\<close> and \<open>notify_end_of_interrupt\<close> appear as the events \<^const>\<open>PicInitialize\<close>
  and \<^const>\<open>Eoi\<close>.
\<close>

section \<open>State\<close>

record kernel = kbd +
  TICKS :: u64
  PICS_locked :: bool

definition PIC_1_OFFSET :: u8 where
  "PIC_1_OFFSET = 32"

definition PIC_2_OFFSET :: u8 where
  "PIC_2_OFFSET = PIC_1_OFFSET + 8"

datatype interrupt_index = Timer | Keyboard

fun as_u8 :: "interrupt_index \<Rightarrow> u8" where
  "as_u8 Timer = PIC_1_OFFSET"
| "as_u8 Keyboard = PIC_1_OFFSET + 1"

declare as_u8.simps [simp del]

text \<open>The table: handlers by vector, and the interrupt stack of the double fault.\<close>

datatype handler = BreakpointH | PageFaultH | DoubleFaultH | TimerH | KeyboardH

record gate =
  gate_handler :: handler
  gate_ist :: "nat option"

definition IDT :: "u8 \<Rightarrow> gate option" where
  "IDT = Map.empty(
     3 \<mapsto> \<lparr>gate_handler = BreakpointH, gate_ist = None\<rparr>,
     14 \<mapsto> \<lparr>gate_handler = PageFaultH, gate_ist = None\<rparr>,
     8 \<mapsto> \<lparr>gate_handler = DoubleFaultH, gate_ist = Some DOUBLE_FAULT_IST_INDEX\<rparr>,
     as_u8 Timer \<mapsto> \<lparr>gate_handler = TimerH, gate_ist = None\<rparr>,
     as_u8 Keyboard \<mapsto> \<lparr>gate_handler = KeyboardH, gate_ist = None\<rparr>)"

section \<open>Operations\<close>

text \<open>\<open>PICS.lock()\<close> around an operation of the crate, as in the handlers.\<close>

definition with_PICS :: "bus_event \<Rightarrow> (unit, 'z kernel_scheme) prog" where
  "with_PICS e =
     seq (\<lambda>s. if PICS_locked s then Hang s else Ret () (s\<lparr>PICS_locked := True\<rparr>))
     (seq (emit e) (\<lambda>s. Ret () (s\<lparr>PICS_locked := False\<rparr>)))"

definition init_idt :: "(unit, 'z machine_scheme) prog" where
  "init_idt = emit (Cpu Lidt)"

definition init_pit :: "u32 \<Rightarrow> (unit, 'z machine_scheme) prog" where
  "init_pit hz =
     (if hz = 0 then fail DivisionByZero
      else let divisor = (ucast (1193182 div hz) :: u16)
        in run_all [
          out8 0x43 0x36,
          out8 0x40 (ucast (divisor AND 0xFF)),
          out8 0x40 (ucast (drop_bit 8 divisor))])"

definition interrupts_init :: "(unit, 'z kernel_scheme) prog" where
  "interrupts_init = run_all [with_PICS PicInitialize, init_pit 100, emit (Cpu Sti)]"

definition ticks :: "(u64, 'z kernel_scheme) prog" where
  "ticks = (\<lambda>s. Ret (TICKS s) s)"

definition init_keyboard :: "(unit, 'z kernel_scheme) prog" where
  "init_keyboard = return ()"

definition timer_handler :: "(unit, 'z kernel_scheme) prog" where
  "timer_handler = seq (\<lambda>s. Ret () (s\<lparr>TICKS := TICKS s + 1\<rparr>)) (with_PICS (Eoi (as_u8 Timer)))"

definition keyboard_handler :: "env \<Rightarrow> (unit, 'z kernel_scheme) prog" where
  "keyboard_handler E = seq (handle_scancode E) (with_PICS (Eoi (as_u8 Keyboard)))"

definition breakpoint_handler :: "env \<Rightarrow> (unit, 'z kernel_scheme) prog" where
  "breakpoint_handler E = (\<lambda>s.
     serial_println E (''[int] breakpoint at '' @ fmt_hex_alt (unat (frame_ip E (trace s)))) s)"

definition double_fault_handler :: "env \<Rightarrow> (unit, 'z kernel_scheme) prog" where
  "double_fault_handler E = (\<lambda>s.
     Panic (FaultPanic (''double fault'' @ [CHR 0x0A] @ debug_text E (trace s) ''stack_frame'')) s)"

text \<open>
  \<open>hcf\<close>, a loop of \<open>hlt\<close>, where interrupts are off, as they are in a handler that was entered
  through an interrupt gate: nothing ends the first \<open>hlt\<close>.
\<close>

definition hcf_masked :: "('a, 'z machine_scheme) prog" where
  "hcf_masked = (\<lambda>s. Hang (s\<lparr>trace := trace s @ [Cpu Hlt]\<rparr>))"

definition page_fault_handler :: "env \<Rightarrow> (unit, 'z kernel_scheme) prog" where
  "page_fault_handler E = (\<lambda>s.
     run_all [
       serial_println E (''[int] PAGE FAULT  addr='' @ debug_text E (trace s) ''cr2'' @
         ''  code='' @ debug_text E (trace s) ''error_code''),
       serial_println E (debug_text E (trace s) ''stack_frame''),
       hcf_masked] s)"

text \<open>
  Delivery of an interrupt vector by the CPU: the gate's handler runs; a vector without a
  gate raises a fault that ends in the double fault gate.
\<close>

definition run_handler :: "env \<Rightarrow> handler \<Rightarrow> (unit, 'z kernel_scheme) prog" where
  "run_handler E h = (case h of
     BreakpointH \<Rightarrow> breakpoint_handler E
   | PageFaultH \<Rightarrow> page_fault_handler E
   | DoubleFaultH \<Rightarrow> double_fault_handler E
   | TimerH \<Rightarrow> timer_handler
   | KeyboardH \<Rightarrow> keyboard_handler E)"

definition deliver :: "env \<Rightarrow> u8 \<Rightarrow> (unit, 'z kernel_scheme) prog" where
  "deliver E v = (case IDT v of
     Some g \<Rightarrow> run_handler E (gate_handler g)
   | None \<Rightarrow> double_fault_handler E)"

text \<open>
  \<open>hlt\<close> outside a handler: the CPU sleeps, and the interrupts that wake it are serviced. The
  bootloader enters the kernel with interrupts off; until the kernel has executed \<open>sti\<close> nothing
  wakes the CPU.
\<close>

abbreviation interrupts_on :: "'z machine_scheme \<Rightarrow> bool" where
  "interrupts_on s \<equiv> Cpu Sti \<in> set (trace s)"

definition hlt :: "env \<Rightarrow> (unit, 'z kernel_scheme) prog" where
  "hlt E = seq (emit (Cpu Hlt)) (\<lambda>s.
     if interrupts_on s then for_each (irqs E (trace s)) (deliver E) s else Hang s)"

text \<open>\<open>hcf\<close> outside a handler: \<open>n\<close> passes of its loop are observed.\<close>

primrec hcf :: "nat \<Rightarrow> env \<Rightarrow> ('a, 'z kernel_scheme) prog" where
  "hcf 0 E = (\<lambda>s. Hang s)"
| "hcf (Suc n) E = seq (hlt E) (hcf n E)"

section \<open>Observations\<close>

fun eoi_of :: "bus_event \<Rightarrow> u8 list" where
  "eoi_of (Eoi v) = [v]"
| "eoi_of _ = []"

definition eois :: "bus_event list \<Rightarrow> u8 list" where
  "eois t = concat (map eoi_of t)"

fun scancode_of :: "bus_event \<Rightarrow> u8 list" where
  "scancode_of (In8 p v) = (if p = 0x60 then [v] else [])"
| "scancode_of _ = []"

definition scancodes :: "bus_event list \<Rightarrow> u8 list" where
  "scancodes t = concat (map scancode_of t)"

definition kernel_ok :: "'z kernel_scheme \<Rightarrow> bool" where
  "kernel_ok s \<longleftrightarrow> kbd_ok s \<and> \<not> PICS_locked s"

definition irq_vector :: "u8 \<Rightarrow> bool" where
  "irq_vector v \<longleftrightarrow> v = as_u8 Timer \<or> v = as_u8 Keyboard"

lemma observations_append [simp]:
  "eois (s @ t) = eois s @ eois t" "scancodes (s @ t) = scancodes s @ scancodes t"
  "eois [] = []" "scancodes [] = []"
  by (simp_all add: eois_def scancodes_def)

lemma observations_event [simp]: "eois [e] = eoi_of e" "scancodes [e] = scancode_of e"
  by (simp_all add: eois_def scancodes_def)

section \<open>The timer\<close>

text \<open>
  The interval timer's channel 0 as its data sheet describes it: after the mode byte 0x36 on
  port 0x43, the two bytes written to port 0x40 are the low and the high half of the reload
  value; reload value 0 counts as 65536.
\<close>

fun pit_reload :: "bus_event list \<Rightarrow> nat option" where
  "pit_reload [Out8 c m, Out8 d lo, Out8 e hi] =
     (if c = 0x43 \<and> m = 0x36 \<and> d = 0x40 \<and> e = 0x40
      then (let v = unat lo + 256 * unat hi in Some (if v = 0 then 65536 else v)) else None)"
| "pit_reload _ = None"

lemma init_pit_divisor:
  "unat (ucast (1193182 div hz :: u32) :: u16) = (1193182 div unat hz) mod 65536"
  by (simp add: unat_ucast unat_div_distrib)

text \<open>
  C29. \<open>init_pit(hz)\<close> programs channel 0 with the reload value \<open>1193182 / hz\<close>, truncated to
  16 bits (0 meaning 65536): exactly the intended divisor when 19 <= hz <= 1193182, so the
  100 Hz the kernel asks for gives reload value 11931; \<open>hz = 0\<close> panics.
\<close>

theorem init_pit_programs_reload:
  fixes hz :: u32 and s :: "'z machine_scheme"
  defines "d \<equiv> 1193182 div unat hz mod 65536"
  shows "if hz = 0 then init_pit hz s = Panic DivisionByZero s
    else \<exists>t. init_pit hz s = Ret () (s\<lparr>trace := trace s @ t\<rparr>) \<and>
      pit_reload t = Some (if d = 0 then 65536 else d) \<and>
      (19 \<le> unat hz \<and> unat hz \<le> 1193182 \<longrightarrow> pit_reload t = Some (1193182 div unat hz))"
proof (cases "hz = 0")
  case True
  then show ?thesis by (simp add: init_pit_def run_simps)
next
  case False
  define v where "v = (ucast (1193182 div hz) :: u16)"
  let ?t = "[Out8 0x43 0x36, Out8 0x40 (ucast (v AND 0xFF)), Out8 0x40 (ucast (drop_bit 8 v))]"
  have run: "init_pit hz s = Ret () (s\<lparr>trace := trace s @ ?t\<rparr>)"
    using False by (simp add: init_pit_def v_def [symmetric] Let_def access_defs run_simps)
  have dv: "unat v = d" by (simp add: v_def d_def init_pit_divisor)
  have reload: "pit_reload ?t = Some (if d = 0 then 65536 else d)"
    unfolding dv [symmetric] by (simp add: u16_low_byte u16_high_byte Let_def)
  have exact: "d = 1193182 div unat hz \<and> d \<noteq> 0" if "19 \<le> unat hz" "unat hz \<le> 1193182"
  proof -
    have "1193182 div unat hz \<le> 1193182 div 19" using that by (intro div_le_mono2) auto
    moreover have "1193182 div unat hz \<noteq> 0" using that by (simp add: div_eq_0_iff)
    ultimately show ?thesis by (simp add: d_def)
  qed
  have "\<exists>t. init_pit hz s = Ret () (s\<lparr>trace := trace s @ t\<rparr>) \<and> pit_reload t = Some (if d = 0 then 65536 else d) \<and>
      (19 \<le> unat hz \<and> unat hz \<le> 1193182 \<longrightarrow> pit_reload t = Some (1193182 div unat hz))"
    by (intro exI [of _ ?t] conjI run reload) (use reload exact in auto)
  with False show ?thesis by simp
qed

theorem init_pit_programs_reload_witness:
  "\<exists>t. init_pit 100 \<lparr>trace = []\<rparr> = Ret () \<lparr>trace = t\<rparr> \<and> pit_reload t = Some 11931"
  using init_pit_programs_reload [of 100 "\<lparr>trace = []\<rparr>"] by auto

section \<open>Interrupt service\<close>

lemma kernel_ok_simps [simp]:
  "kernel_ok (s\<lparr>trace := t\<rparr>) = kernel_ok s" "kernel_ok (s\<lparr>TICKS := n\<rparr>) = kernel_ok s"
  by (simp_all add: kernel_ok_def kbd_ok_def)

lemma pics_unlocked_id: "\<not> PICS_locked s \<Longrightarrow> s\<lparr>PICS_locked := False\<rparr> = s"
  by (cases s) auto

lemma with_PICS_run:
  "\<not> PICS_locked s \<Longrightarrow> with_PICS e s = Ret () (s\<lparr>trace := trace s @ [e]\<rparr>)"
  by (simp add: with_PICS_def emit_def run_simps pics_unlocked_id)

lemma deliver_simps:
  "deliver E (as_u8 Timer) = timer_handler" "deliver E (as_u8 Keyboard) = keyboard_handler E"
  by (simp_all add: deliver_def IDT_def run_handler_def PIC_1_OFFSET_def as_u8.simps)

lemma deliver_timer:
  "kernel_ok s \<Longrightarrow> deliver E (as_u8 Timer) s =
     Ret () (s\<lparr>TICKS := TICKS s + 1, trace := trace s @ [Eoi (as_u8 Timer)]\<rparr>)"
  unfolding deliver_simps by (simp add: timer_handler_def run_simps with_PICS_run kernel_ok_def)

lemma deliver_keyboard:
  fixes s :: "'z kernel_scheme" and E :: env
  assumes "kernel_ok s"
  defines "k \<equiv> port8 E (trace s) 0x60"
  shows "\<exists>s'. deliver E (as_u8 Keyboard) s = Ret () s' \<and> kernel_ok s' \<and> TICKS s' = TICKS s \<and>
    trace s' = trace s @ [In8 0x60 k, Eoi (as_u8 Keyboard)] \<and> SHIFT s' = shift_after (SHIFT s) [k] \<and>
    ring_cap (BUF s') = ring_cap (BUF s) \<and>
    ring_items (BUF s') = take (ring_cap (BUF s)) (ring_items (BUF s) @ typed (SHIFT s) [k])"
proof -
  obtain b where b: "handle_scancode E s = Ret () (s\<lparr>trace := trace s @ [In8 0x60 k],
      SHIFT := shift_after (SHIFT s) [k], BUF := b\<rparr>)" "ring_inv b" "ring_cap b = ring_cap (BUF s)"
    "ring_items b = take (ring_cap (BUF s)) (ring_items (BUF s) @ typed (SHIFT s) [k])"
    using handle_scancode_step [of s E] assms unfolding k_def kernel_ok_def by blast
  let ?s = "s\<lparr>trace := trace s @ [In8 0x60 k], SHIFT := shift_after (SHIFT s) [k], BUF := b\<rparr>"
  have ok: "\<not> PICS_locked ?s" "kbd_ok ?s"
    using assms b(2) by (simp_all add: kernel_ok_def kbd_ok_def)
  have run: "deliver E (as_u8 Keyboard) s = Ret () (?s\<lparr>trace := trace ?s @ [Eoi (as_u8 Keyboard)]\<rparr>)"
    unfolding deliver_simps keyboard_handler_def by (simp only: seq_run b(1) outcome.case with_PICS_run [OF ok(1)])
  have fin: "kernel_ok (?s\<lparr>trace := trace ?s @ [Eoi (as_u8 Keyboard)]\<rparr>)"
    using ok by (simp add: kernel_ok_def kbd_ok_def)
  show ?thesis
    by (rule exI, intro conjI, rule run, rule fin) (use b in simp_all)
qed

text \<open>
  From \<open>s\<close> to \<open>s'\<close> the vectors \<open>vs\<close> were serviced with the events \<open>u\<close>: each was acknowledged, timer
  interrupts counted, the scancodes read and what they type buffered as far as there is room.
\<close>

definition serviced :: "u8 list \<Rightarrow> 'z kernel_scheme \<Rightarrow> bus_event list \<Rightarrow> 'z kernel_scheme \<Rightarrow> bool" where
  "serviced vs s u s' \<longleftrightarrow> kernel_ok s' \<and> trace s' = trace s @ u \<and>
    eois u = vs \<and> length (scancodes u) = length (filter (\<lambda>v. v = as_u8 Keyboard) vs) \<and>
    TICKS s' = TICKS s + of_nat (length (filter (\<lambda>v. v = as_u8 Timer) vs)) \<and>
    SHIFT s' = shift_after (SHIFT s) (scancodes u) \<and> ring_cap (BUF s') = ring_cap (BUF s) \<and>
    ring_items (BUF s') = take (ring_cap (BUF s)) (ring_items (BUF s) @ typed (SHIFT s) (scancodes u))"

lemma ring_items_fit: "kernel_ok s \<Longrightarrow> length (ring_items (BUF s)) \<le> ring_cap (BUF s)"
  by (intro kq.bounded) (simp add: kernel_ok_def kbd_ok_def)

lemma serviced_nil: "kernel_ok s \<Longrightarrow> serviced [] s [] s"
  using ring_items_fit [of s] by (simp add: serviced_def eois_def scancodes_def)

lemma scancodes_append: "scancodes (u @ w) = scancodes u @ scancodes w"
  by (simp add: scancodes_def)

lemma serviced_trans:
  assumes "serviced vs s u s1" and "serviced ws s1 w s2"
  shows "serviced (vs @ ws) s (u @ w) s2"
proof -
  have "ring_items (BUF s2) =
      take (ring_cap (BUF s)) (ring_items (BUF s) @ typed (SHIFT s) (scancodes (u @ w)))"
    using assms unfolding serviced_def scancodes_append typed_append
    by (simp only: take_append_take append_assoc [symmetric])
  then show ?thesis
    using assms unfolding serviced_def scancodes_append shift_after_append by (simp add: eois_def)
qed

lemma deliver_serviced:
  assumes "kernel_ok s" and "irq_vector v"
  shows "\<exists>u s'. deliver E v s = Ret () s' \<and> serviced [v] s u s'"
proof -
  have distinct: "as_u8 Timer \<noteq> as_u8 Keyboard" by (simp add: PIC_1_OFFSET_def as_u8.simps)
  from assms(2) consider "v = as_u8 Timer" | "v = as_u8 Keyboard" by (auto simp: irq_vector_def)
  then show ?thesis
  proof cases
    case 1
    then show ?thesis
      using deliver_timer [OF assms(1), of E] ring_items_fit [OF assms(1)] assms(1) distinct
      by (intro exI [of _ "[Eoi (as_u8 Timer)]"]) (simp add: serviced_def eois_def scancodes_def)
  next
    case 2
    then show ?thesis
      using deliver_keyboard [OF assms(1), of E] distinct
      by (intro exI [of _ "[In8 0x60 (port8 E (trace s) 0x60), Eoi (as_u8 Keyboard)]"])
        (auto simp: serviced_def eois_def scancodes_def)
  qed
qed

lemma serve_irqs_serviced:
  "kernel_ok s \<Longrightarrow> list_all irq_vector vs \<Longrightarrow> \<exists>u s'. for_each vs (deliver E) s = Ret () s' \<and> serviced vs s u s'"
proof (induction vs arbitrary: s)
  case Nil
  then show ?case using serviced_nil by (auto simp: run_simps)
next
  case (Cons v vs)
  then obtain u s1 where 1: "deliver E v s = Ret () s1" "serviced [v] s u s1" using deliver_serviced by fastforce
  moreover obtain w s2 where "for_each vs (deliver E) s1 = Ret () s2" "serviced vs s1 w s2"
    using Cons.IH [of s1] Cons.prems 1(2) by (auto simp: serviced_def)
  ultimately show ?case using serviced_trans [OF 1(2)] by (fastforce simp: seq_run)
qed

lemma serve_irqs:
  assumes "kernel_ok s" and "list_all irq_vector vs"
  shows "\<exists>s' u. for_each vs (deliver E) s = Ret () s' \<and> kernel_ok s' \<and> trace s' = trace s @ u \<and>
    eois u = vs \<and> length (scancodes u) = length (filter (\<lambda>v. v = as_u8 Keyboard) vs) \<and>
    TICKS s' = TICKS s + of_nat (length (filter (\<lambda>v. v = as_u8 Timer) vs)) \<and>
    SHIFT s' = shift_after (SHIFT s) (scancodes u) \<and> ring_cap (BUF s') = ring_cap (BUF s) \<and>
    ring_items (BUF s') = take (ring_cap (BUF s)) (ring_items (BUF s) @ typed (SHIFT s) (scancodes u))"
  using serve_irqs_serviced [OF assms] unfolding serviced_def by blast

text \<open>The events of a halt depend on the trace alone, not on what the kernel has buffered.\<close>

definition irq_events :: "env \<Rightarrow> bus_event list \<Rightarrow> u8 \<Rightarrow> bus_event list" where
  "irq_events E t v =
     (if v = as_u8 Keyboard then [In8 0x60 (port8 E t 0x60), Eoi v] else [Eoi v])"

definition hlt_trace :: "env \<Rightarrow> bus_event list \<Rightarrow> bus_event list" where
  "hlt_trace E t = fold (\<lambda>v t. t @ irq_events E t v) (irqs E (t @ [Cpu Hlt])) (t @ [Cpu Hlt])"

lemma serve_irqs_trace:
  assumes "kernel_ok s" and "list_all irq_vector vs" and "for_each vs (deliver E) s = Ret () s'"
  shows "trace s' = fold (\<lambda>v t. t @ irq_events E t v) vs (trace s)"
  using assms
proof (induction vs arbitrary: s)
  case Nil
  then show ?case by (simp add: run_simps)
next
  case (Cons v vs)
  have distinct: "as_u8 Timer \<noteq> as_u8 Keyboard" by (simp add: PIC_1_OFFSET_def as_u8.simps)
  from Cons.prems consider "v = as_u8 Timer" | "v = as_u8 Keyboard" by (auto simp: irq_vector_def)
  then obtain s1 where "deliver E v s = Ret () s1" "kernel_ok s1" "trace s1 = trace s @ irq_events E (trace s) v"
  proof cases
    case 1
    with that Cons.prems(1) distinct show ?thesis
      by (auto simp: deliver_timer irq_events_def)
  next
    case 2
    with that deliver_keyboard [OF Cons.prems(1), of E] show ?thesis
      by (auto simp: irq_events_def)
  qed
  with Cons show ?case by (auto simp: run_simps)
qed

text \<open>
  Handlers leave everything outside the interrupt state alone: \<open>kernel.more\<close> is what a larger
  state adds to it.
\<close>

lemma deliver_keeps:
  fixes s :: "'z kernel_scheme"
  assumes "kernel_ok s" and "irq_vector v"
  shows "\<exists>s'. deliver E v s = Ret () s' \<and> kernel_ok s' \<and> kernel.more s' = kernel.more s \<and>
    trace s' = trace s @ irq_events E (trace s) v"
proof -
  have distinct: "as_u8 Timer \<noteq> as_u8 Keyboard" by (simp add: PIC_1_OFFSET_def as_u8.simps)
  from assms(2) consider "v = as_u8 Timer" | "v = as_u8 Keyboard" by (auto simp: irq_vector_def)
  then show ?thesis
  proof cases
    case 1
    with assms(1) distinct show ?thesis by (simp add: deliver_timer irq_events_def)
  next
    case 2
    define k where "k = port8 E (trace s) 0x60"
    obtain b where b: "handle_scancode E s = Ret () (s\<lparr>trace := trace s @ [In8 0x60 k],
        SHIFT := shift_after (SHIFT s) [k], BUF := b\<rparr>)"
      using handle_scancode_step [of s E] assms unfolding k_def kernel_ok_def by blast
    let ?s = "s\<lparr>trace := trace s @ [In8 0x60 k], SHIFT := shift_after (SHIFT s) [k], BUF := b\<rparr>"
    have free: "\<not> PICS_locked ?s" using assms(1) by (simp add: kernel_ok_def)
    have "deliver E v s = Ret () (?s\<lparr>trace := trace ?s @ [Eoi (as_u8 Keyboard)]\<rparr>)"
      unfolding 2 deliver_simps keyboard_handler_def by (simp only: seq_run b outcome.case with_PICS_run [OF free])
    moreover obtain s' where "deliver E v s = Ret () s'" "kernel_ok s'"
      using deliver_keyboard [OF assms(1), of E] unfolding 2 by blast
    ultimately show ?thesis by (auto simp: 2 irq_events_def k_def)
  qed
qed

definition hlts :: "bus_event list \<Rightarrow> nat" where
  "hlts t = length (filter (\<lambda>e. e = Cpu Hlt) t)"

lemma hlts_append [simp]: "hlts (s @ t) = hlts s + hlts t"
  by (simp add: hlts_def)

lemma hlt_on:
  "interrupts_on s \<Longrightarrow> hlt E s = for_each (irqs E (trace s @ [Cpu Hlt])) (deliver E) (s\<lparr>trace := trace s @ [Cpu Hlt]\<rparr>)"
  by (simp add: hlt_def seq_run emit_def)

lemma hlt_off: "\<not> interrupts_on s \<Longrightarrow> hlt E s = Hang (s\<lparr>trace := trace s @ [Cpu Hlt]\<rparr>)"
  by (simp add: hlt_def seq_run emit_def)

lemma hlt_trace_extends: "\<exists>u. hlt_trace E t = t @ u"
proof -
  have "\<exists>u. fold (\<lambda>v t. t @ irq_events E t v) vs t = t @ u" for vs t
    by (induction vs arbitrary: t) (simp, metis append_assoc fold_simps(2))
  then show ?thesis unfolding hlt_trace_def by (metis append_assoc)
qed

lemma hlt_keeps:
  fixes s :: "'z kernel_scheme"
  assumes "kernel_ok s" and "interrupts_on s" and "list_all irq_vector (irqs E (trace s @ [Cpu Hlt]))"
  shows "\<exists>s'. hlt E s = Ret () s' \<and> kernel_ok s' \<and> interrupts_on s' \<and> kernel.more s' = kernel.more s \<and>
    hlts (trace s') = Suc (hlts (trace s)) \<and> trace s' = hlt_trace E (trace s)"
proof -
  have serve: "\<exists>s'. for_each vs (deliver E) s = Ret () s' \<and> kernel_ok s' \<and>
      kernel.more s' = kernel.more s \<and> hlts (trace s') = hlts (trace s)"
    if "kernel_ok s" "list_all irq_vector vs" for s :: "'z kernel_scheme" and vs
    using that
  proof (induction vs arbitrary: s)
    case Nil
    then show ?case by (simp add: run_simps)
  next
    case (Cons v vs)
    then obtain s1 where s1: "deliver E v s = Ret () s1" "kernel_ok s1" "kernel.more s1 = kernel.more s"
        "trace s1 = trace s @ irq_events E (trace s) v"
      using deliver_keeps [of s v E] by auto
    have "hlts (irq_events E (trace s) v) = 0" by (simp add: irq_events_def hlts_def)
    with Cons.IH [of s1] Cons.prems s1 show ?case by (auto simp: run_simps)
  qed
  have one: "hlts [Cpu Hlt] = 1" by (simp add: hlts_def)
  let ?s = "s\<lparr>trace := trace s @ [Cpu Hlt]\<rparr>"
  from serve [of ?s "irqs E (trace s @ [Cpu Hlt])"] assms(1,3) obtain s' where
    s': "hlt E s = Ret () s'" "kernel_ok s'" "kernel.more s' = kernel.more s" "hlts (trace s') = Suc (hlts (trace s))"
    unfolding hlt_on [OF assms(2)] by (auto simp: one)
  have "trace s' = hlt_trace E (trace s)"
    using serve_irqs_trace [of ?s _ E s'] s'(1) assms(1,3) unfolding hlt_on [OF assms(2)] by (simp add: hlt_trace_def)
  moreover obtain u where "hlt_trace E (trace s) = trace s @ u" using hlt_trace_extends by blast
  ultimately show ?thesis using s' assms(2) by auto
qed

text \<open>
  C10. A halt with interrupts enabled and timer and keyboard interrupts pending services every one
  of them: each is acknowledged to the controllers exactly once, in order and with its own vector,
  the tick counter advances by the number of timer interrupts (modulo 2^64), and the typed
  characters are appended to the keyboard buffer; no handler panics or blocks. A halt before
  interrupts were enabled never ends.
\<close>

theorem hlt_services_interrupts:
  fixes s :: "'z kernel_scheme"
  assumes "kernel_ok s" and "list_all irq_vector (irqs E (trace s @ [Cpu Hlt]))"
  shows "if interrupts_on s then \<exists>s' u. hlt E s = Ret () s' \<and> kernel_ok s' \<and> trace s' = trace s @ Cpu Hlt # u \<and>
      eois u = irqs E (trace s @ [Cpu Hlt]) \<and>
      TICKS s' = TICKS s + of_nat (length (filter (\<lambda>v. v = as_u8 Timer) (eois u))) \<and>
      length (scancodes u) = length (filter (\<lambda>v. v = as_u8 Keyboard) (eois u)) \<and>
      SHIFT s' = shift_after (SHIFT s) (scancodes u) \<and> ring_cap (BUF s') = ring_cap (BUF s) \<and>
      ring_items (BUF s') = take (ring_cap (BUF s)) (ring_items (BUF s) @ typed (SHIFT s) (scancodes u))
    else hlt E s = Hang (s\<lparr>trace := trace s @ [Cpu Hlt]\<rparr>)"
proof (cases "interrupts_on s")
  case True
  from serve_irqs [of "s\<lparr>trace := trace s @ [Cpu Hlt]\<rparr>" "irqs E (trace s @ [Cpu Hlt])" E] assms True show ?thesis
    unfolding hlt_on [OF True] by fastforce
next
  case False
  then show ?thesis using hlt_off by simp
qed

definition kernel_start :: kernel where
  "kernel_start = \<lparr>trace = [], BUF = ring_new BUF_SIZE, BUF_locked = False, SHIFT = False,
     TICKS = 0, PICS_locked = False\<rparr>"

lemma kernel_start_ok: "kernel_ok kernel_start"
  by (simp add: kernel_ok_def kernel_start_def kbd_ok_def ring_new_def BUF_SIZE_def ring_inv_def)

text \<open>The same with interrupts enabled.\<close>

definition kernel_awake :: kernel where
  "kernel_awake = kernel_start\<lparr>trace := [Cpu Sti]\<rparr>"

lemma kernel_awake_ok: "kernel_ok kernel_awake" "interrupts_on kernel_awake"
  using kernel_start_ok by (simp_all add: kernel_awake_def)

theorem hlt_services_interrupts_witness:
  "\<exists>s' u. hlt ((scancode_env [])\<lparr>irqs := \<lambda>_. [32, 33, 32]\<rparr>) kernel_awake = Ret () s' \<and>
     trace s' = [Cpu Sti, Cpu Hlt] @ u \<and> eois u = [32, 33, 32] \<and> TICKS s' = 2"
proof -
  let ?E = "(scancode_env [])\<lparr>irqs := \<lambda>_. [32, 33, 32]\<rparr>"
  have "list_all irq_vector (irqs ?E (trace kernel_awake @ [Cpu Hlt]))"
    by (simp add: irq_vector_def as_u8.simps PIC_1_OFFSET_def)
  from hlt_services_interrupts [OF kernel_awake_ok(1) this] show ?thesis
    by (auto simp: kernel_awake_def kernel_start_def as_u8.simps PIC_1_OFFSET_def)
qed

section \<open>Parking the processor\<close>

lemma hlt_trace_silent: "uart_out (hlt_trace E t) = uart_out t"
proof -
  have "uart_out (irq_events E t v) = []" for t v by (simp add: irq_events_def uart_out_def)
  then have "uart_out (fold (\<lambda>v t. t @ irq_events E t v) vs t) = uart_out t" for vs t
    by (induction vs arbitrary: t) (simp_all add: uart_out_append)
  then show ?thesis by (simp add: hlt_trace_def uart_out_append) (simp add: uart_out_def)
qed

text \<open>
  A parked processor stays parked: it services interrupts if they are enabled, prints nothing and
  never goes on.
\<close>

lemma hcf_run:
  fixes s :: "'z kernel_scheme"
  assumes "kernel_ok s" and "\<And>t. list_all irq_vector (irqs E t)"
  shows "\<exists>s' u. (hcf n E s :: ('a, 'z kernel_scheme) outcome) = Hang s' \<and> kernel_ok s' \<and> kernel.more s' = kernel.more s \<and>
    trace s' = trace s @ u \<and> uart_out u = [] \<and> hlts u = (if interrupts_on s then n else min n 1)"
  using assms(1)
proof (induction n arbitrary: s)
  case 0
  then show ?case by (simp add: hlts_def uart_out_def)
next
  case (Suc n)
  show ?case
  proof (cases "interrupts_on s")
    case False
    then show ?thesis using Suc.prems by (simp add: seq_run hlt_off hlts_def uart_out_def)
  next
    case True
    obtain s1 where s1: "hlt E s = Ret () s1" "kernel_ok s1" "interrupts_on s1" "kernel.more s1 = kernel.more s"
        "hlts (trace s1) = Suc (hlts (trace s))" "trace s1 = hlt_trace E (trace s)"
      using hlt_keeps [OF Suc.prems True assms(2)] by blast
    obtain u1 where u1: "trace s1 = trace s @ u1" using hlt_trace_extends s1(6) by metis
    have "uart_out (trace s1) = uart_out (trace s)" using s1(6) hlt_trace_silent by simp
    with u1 s1(5) have "uart_out u1 = []" "hlts u1 = 1" by (simp_all add: uart_out_append)
    moreover obtain s2 u2 where "(hcf n E s1 :: ('a, 'z kernel_scheme) outcome) = Hang s2" "kernel_ok s2"
        "kernel.more s2 = kernel.more s1" "trace s2 = trace s1 @ u2" "uart_out u2 = []" "hlts u2 = n"
      using Suc.IH [OF s1(2)] s1(3) by auto
    ultimately show ?thesis using True s1(1,4) u1 by (simp add: seq_run uart_out_append)
  qed
qed

end
