(* ===== verification/Console.thy ===== *)
theory Console
  imports Interrupts
begin

text \<open>
  The blocking readers of \<^verbatim>\<open>kernel/src/keyboard.rs\<close>, which sleep until an interrupt has
  delivered a keystroke.
\<close>

section \<open>Blocking reads\<close>

primrec read_char_blocking_loop :: "nat \<Rightarrow> env \<Rightarrow> (char, 'z kernel_scheme) prog" where
  "read_char_blocking_loop 0 E = (\<lambda>s. Hang s)"
| "read_char_blocking_loop (Suc n) E =
     bind read_char (\<lambda>r. case r of
       Some c \<Rightarrow> return c
     | None \<Rightarrow> seq (hlt E) (read_char_blocking_loop n E))"

definition read_char_blocking :: "env \<Rightarrow> (char, 'z kernel_scheme) prog" where
  "read_char_blocking E = read_char_blocking_loop (fuel E) E"

primrec read_line_loop :: "nat \<Rightarrow> env \<Rightarrow> string \<Rightarrow> (string, 'z kernel_scheme) prog" where
  "read_line_loop 0 E line = (\<lambda>s. Hang s)"
| "read_line_loop (Suc n) E line =
     bind (read_char_blocking E) (\<lambda>c.
       if c = CHR 0x0A then return line
       else if c = CHR 0x08 then read_line_loop n E (butlast line)
       else read_line_loop n E (line @ [c]))"

definition read_line :: "env \<Rightarrow> (string, 'z kernel_scheme) prog" where
  "read_line E = read_line_loop (fuel E) E []"

section \<open>What a line is\<close>

text \<open>
  Line editing as the user sees it: characters accumulate, backspace erases the last one, the
  newline ends the line and is the last character consumed.
\<close>

fun edit :: "string \<Rightarrow> string \<Rightarrow> string option" where
  "edit line [] = None"
| "edit line (c # cs) =
     (if c = CHR 0x0A then (if cs = [] then Some line else None)
      else if c = CHR 0x08 then edit (butlast line) cs
      else edit (line @ [c]) cs)"

text \<open>The interrupts the environment raises are the two the kernel enables, at most \<open>n\<close> per halt.\<close>

definition irqs_bounded :: "env \<Rightarrow> nat \<Rightarrow> bool" where
  "irqs_bounded E n \<longleftrightarrow> (\<forall>t. list_all irq_vector (irqs E t) \<and> length (irqs E t) \<le> n)"

text \<open>
  From \<open>s\<close> to \<open>s'\<close> the reader consumed \<open>cs\<close>, and no keystroke was lost: what was buffered,
  followed by everything typed meanwhile, is what was consumed followed by what is buffered now.
\<close>

definition consumed :: "'z kernel_scheme \<Rightarrow> string \<Rightarrow> 'z kernel_scheme \<Rightarrow> bool" where
  "consumed s cs s' \<longleftrightarrow> kernel_ok s' \<and> ring_cap (BUF s') = ring_cap (BUF s) \<and>
     (\<exists>u. trace s' = trace s @ u \<and> SHIFT s' = shift_after (SHIFT s) (scancodes u) \<and>
        ring_items (BUF s) @ typed (SHIFT s) (scancodes u) = cs @ ring_items (BUF s'))"

text \<open>Everything a reader starting in \<open>s\<close> can get out of the next \<open>k\<close> halts.\<close>

definition input_within :: "env \<Rightarrow> nat \<Rightarrow> 'z kernel_scheme \<Rightarrow> string" where
  "input_within E k s = ring_items (BUF s) @
     typed (SHIFT s) (scancodes (drop (length (trace s)) ((hlt_trace E ^^ k) (trace s))))"

lemma consumed_trans: "consumed s cs s1 \<Longrightarrow> consumed s1 ds s2 \<Longrightarrow> consumed s (cs @ ds) s2"
proof -
  assume 1: "consumed s cs s1" and 2: "consumed s1 ds s2"
  from 1 obtain u where u: "trace s1 = trace s @ u" "SHIFT s1 = shift_after (SHIFT s) (scancodes u)"
      "ring_items (BUF s) @ typed (SHIFT s) (scancodes u) = cs @ ring_items (BUF s1)"
      "ring_cap (BUF s1) = ring_cap (BUF s)"
    by (auto simp: consumed_def)
  from 2 obtain w where w: "trace s2 = trace s1 @ w" "SHIFT s2 = shift_after (SHIFT s1) (scancodes w)"
      "ring_items (BUF s1) @ typed (SHIFT s1) (scancodes w) = ds @ ring_items (BUF s2)"
      "ring_cap (BUF s2) = ring_cap (BUF s1)" "kernel_ok s2"
    by (auto simp: consumed_def)
  have "ring_items (BUF s) @ typed (SHIFT s) (scancodes (u @ w)) = (cs @ ds) @ ring_items (BUF s2)"
  proof -
    have "ring_items (BUF s) @ typed (SHIFT s) (scancodes (u @ w)) =
        (ring_items (BUF s) @ typed (SHIFT s) (scancodes u)) @ typed (SHIFT s1) (scancodes w)"
      by (simp only: observations_append typed_append u(2) append_assoc)
    also have "\<dots> = cs @ ring_items (BUF s1) @ typed (SHIFT s1) (scancodes w)"
      by (simp only: u(3) append_assoc)
    finally show ?thesis by (simp only: w(3) append_assoc)
  qed
  with u w show ?thesis
    by (auto simp: consumed_def shift_after_append intro!: exI [of _ "u @ w"])
qed

lemma consumed_refl: "kernel_ok s \<Longrightarrow> consumed s [] s"
  by (auto simp: consumed_def intro!: exI [of _ "[]"])

lemma length_typed: "length (typed sh ks) \<le> length ks"
proof (induction sh ks rule: typed.induct)
  case (2 sh k ks)
  then show ?case by (auto simp: typed.simps split: option.splits)
qed simp

lemma read_char_run:
  assumes "kernel_ok s"
  shows "ring_items (BUF s) = [] \<Longrightarrow> read_char s = Ret None s"
    and "ring_items (BUF s) = c # cs \<Longrightarrow>
      \<exists>s'. read_char s = Ret (Some c) s' \<and> consumed s [c] s' \<and> trace s' = trace s"
proof -
  from assms have s: "ring_inv (BUF s)" "\<not> BUF_locked s" "\<not> PICS_locked s"
    by (simp_all add: kernel_ok_def kbd_ok_def)
  show "read_char s = Ret None s" if "ring_items (BUF s) = []"
    using with_BUF_run [of s ring_pop, OF s(2) kq.pop_empty [OF s(1) that]] s(2)
    by (cases s) (auto simp: read_char_def)
  show "\<exists>s'. read_char s = Ret (Some c) s' \<and> consumed s [c] s' \<and> trace s' = trace s"
    if items: "ring_items (BUF s) = c # cs"
  proof -
    obtain b where b: "ring_pop (BUF s) = Ret (Some c) b" "ring_inv b" "ring_cap b = ring_cap (BUF s)"
        "ring_items b = cs"
      using kq.pop_cons [OF s(1) items] by blast
    have "read_char s = Ret (Some c) (s\<lparr>BUF := b, BUF_locked := False\<rparr>)"
      unfolding read_char_def by (rule with_BUF_run [of s ring_pop, OF s(2) b(1)])
    moreover have "consumed s [c] (s\<lparr>BUF := b, BUF_locked := False\<rparr>)"
      using s b items by (auto simp: consumed_def kernel_ok_def kbd_ok_def intro!: exI [of _ "[]"])
    ultimately show ?thesis by auto
  qed
qed

lemma hlt_run:
  assumes "kernel_ok s" and "interrupts_on s" and "irqs_bounded E n" and "n \<le> ring_cap (BUF s)"
    and "ring_items (BUF s) = []"
  shows "\<exists>s'. hlt E s = Ret () s' \<and> consumed s [] s' \<and> trace s' = hlt_trace E (trace s)"
proof -
  let ?s = "s\<lparr>trace := trace s @ [Cpu Hlt]\<rparr>"
  let ?vs = "irqs E (trace s @ [Cpu Hlt])"
  have vs: "list_all irq_vector ?vs" "length ?vs \<le> n" using assms(3) by (auto simp: irqs_bounded_def)
  note run = hlt_on [OF assms(2), of E]
  obtain s' u where s': "for_each ?vs (deliver E) ?s = Ret () s'" "kernel_ok s'"
      "trace s' = trace ?s @ u" "length (scancodes u) = length (filter (\<lambda>v. v = as_u8 Keyboard) ?vs)"
      "SHIFT s' = shift_after (SHIFT ?s) (scancodes u)" "ring_cap (BUF s') = ring_cap (BUF ?s)"
      "ring_items (BUF s') = take (ring_cap (BUF ?s)) (ring_items (BUF ?s) @ typed (SHIFT ?s) (scancodes u))"
    using serve_irqs [of ?s ?vs E] assms(1) vs(1) by auto
  have "length (typed (SHIFT s) (scancodes u)) \<le> length (filter (\<lambda>v. v = as_u8 Keyboard) ?vs)"
    using length_typed [of "SHIFT s" "scancodes u"] s'(4) by simp
  also have "\<dots> \<le> ring_cap (BUF s)"
    using length_filter_le [of "\<lambda>v. v = as_u8 Keyboard" ?vs] vs(2) assms(4) by linarith
  finally have items: "ring_items (BUF s') = typed (SHIFT s) (scancodes u)"
    using s'(7) assms(5) by simp
  have "consumed s [] s'"
    unfolding consumed_def using s' items assms(5)
    by (auto simp: scancodes_def intro!: exI [of _ "Cpu Hlt # u"])
  moreover have "trace s' = hlt_trace E (trace s)"
    using serve_irqs_trace [OF _ vs(1) s'(1)] assms(1) by (simp add: hlt_trace_def)
  ultimately show ?thesis using run s'(1) by auto
qed

section \<open>Correctness of the readers\<close>

text \<open>
  A reader's state: well formed, interrupts enabled, and the buffer holds a halt's worth of
  keystrokes.
\<close>

definition reader_ok :: "env \<Rightarrow> nat \<Rightarrow> 'z kernel_scheme \<Rightarrow> bool" where
  "reader_ok E n s \<longleftrightarrow> kernel_ok s \<and> interrupts_on s \<and> irqs_bounded E n \<and> n \<le> ring_cap (BUF s)"

lemma reader_ok_consumed: "reader_ok E n s \<Longrightarrow> consumed s cs s' \<Longrightarrow> reader_ok E n s'"
  by (auto simp: reader_ok_def consumed_def)

lemma read_char_blocking_consumes:
  "reader_ok E n s \<Longrightarrow> read_char_blocking_loop m E s = Ret c s' \<Longrightarrow> consumed s [c] s'"
proof (induction m arbitrary: s)
  case 0
  then show ?case by simp
next
  case (Suc m)
  from Suc.prems(1) have ok: "kernel_ok s" "interrupts_on s" "irqs_bounded E n" "n \<le> ring_cap (BUF s)"
    by (auto simp: reader_ok_def)
  show ?case
  proof (cases "ring_items (BUF s)")
    case Nil
    obtain s1 where s1: "hlt E s = Ret () s1" "consumed s [] s1"
      using hlt_run [OF ok Nil] by blast
    have "read_char_blocking_loop m E s1 = Ret c s'"
      using Suc.prems(2) s1(1) read_char_run(1) [OF ok(1) Nil] by (simp add: run_simps)
    from Suc.IH [OF reader_ok_consumed [OF Suc.prems(1) s1(2)] this] consumed_trans [OF s1(2)]
    show ?thesis by fastforce
  next
    case (Cons d ds)
    then show ?thesis
      using read_char_run(2) [OF ok(1) Cons] Suc.prems(2) by (auto simp: run_simps)
  qed
qed

lemma read_line_consumes:
  "reader_ok E n s \<Longrightarrow> read_line_loop m E acc s = Ret line s' \<Longrightarrow>
     \<exists>cs. edit acc cs = Some line \<and> consumed s cs s'"
proof (induction m arbitrary: acc s)
  case 0
  then show ?case by simp
next
  case (Suc m)
  obtain c s1 where s1: "read_char_blocking E s = Ret c s1"
    using Suc.prems(2) by (auto simp: run_simps split: outcome.splits)
  have con: "consumed s [c] s1"
    using read_char_blocking_consumes Suc.prems(1) s1 unfolding read_char_blocking_def by blast
  note ok = reader_ok_consumed [OF Suc.prems(1) con]
  show ?case
  proof (cases "c = CHR 0x0A")
    case True
    then have "edit acc [c] = Some line" "s' = s1"
      using Suc.prems(2) s1 by (auto simp: run_simps)
    with con show ?thesis by blast
  next
    case False
    let ?acc = "if c = CHR 0x08 then butlast acc else acc @ [c]"
    have "read_line_loop m E ?acc s1 = Ret line s'"
      using Suc.prems(2) s1 False by (auto simp: run_simps)
    from Suc.IH [OF ok this] obtain cs where cs: "edit ?acc cs = Some line" "consumed s1 cs s'"
      by blast
    have "edit acc (c # cs) = Some line" using False cs(1) by auto
    moreover have "consumed s (c # cs) s'" using consumed_trans [OF con cs(2)] by simp
    ultimately show ?thesis by blast
  qed
qed

lemma hlt_traces_extend: "\<exists>w. (hlt_trace E ^^ k) t = t @ w"
proof (induction k)
  case (Suc k)
  then obtain w where "(hlt_trace E ^^ k) t = t @ w" by blast
  moreover obtain u where "hlt_trace E (t @ w) = (t @ w) @ u" using hlt_trace_extends by blast
  ultimately show ?case by simp
qed simp

text \<open>Consuming the first available character leaves the rest of the input available.\<close>

lemma input_within_consumed:
  assumes "consumed s [c] s'" and "trace s' = (hlt_trace E ^^ j) (trace s)" and "j \<le> k"
  shows "input_within E k s = c # input_within E (k - j) s'"
proof -
  obtain u where u: "trace s' = trace s @ u" "SHIFT s' = shift_after (SHIFT s) (scancodes u)"
      "ring_items (BUF s) @ typed (SHIFT s) (scancodes u) = [c] @ ring_items (BUF s')"
    using assms(1) by (auto simp: consumed_def)
  obtain w where w: "(hlt_trace E ^^ (k - j)) (trace s') = trace s' @ w"
    using hlt_traces_extend by blast
  have "(hlt_trace E ^^ k) (trace s) = (hlt_trace E ^^ (k - j)) (trace s')"
  proof -
    have "k = (k - j) + j" using assms(3) by simp
    then have "(hlt_trace E ^^ k) (trace s) = (hlt_trace E ^^ (k - j)) ((hlt_trace E ^^ j) (trace s))"
      by (metis comp_apply funpow_add)
    then show ?thesis by (simp only: assms(2))
  qed
  then have "(hlt_trace E ^^ k) (trace s) = trace s @ u @ w"
    using w u(1) by simp
  then have "input_within E k s = (ring_items (BUF s) @ typed (SHIFT s) (scancodes u)) @
      typed (SHIFT s') (scancodes w)"
    by (simp add: input_within_def typed_append u(2))
  also have "\<dots> = c # input_within E (k - j) s'"
    unfolding u(3) by (simp add: input_within_def w)
  finally show ?thesis .
qed

lemma read_char_blocking_live:
  assumes "reader_ok E n s" and "input_within E k s \<noteq> []" and "k < m"
  shows "\<exists>c s' j. read_char_blocking_loop m E s = Ret c s' \<and> j \<le> k \<and>
     trace s' = (hlt_trace E ^^ j) (trace s) \<and> consumed s [c] s'"
  using assms
proof (induction k arbitrary: s m)
  case 0
  then obtain c cs where items: "ring_items (BUF s) = c # cs"
    by (cases "ring_items (BUF s)") (auto simp: input_within_def)
  obtain m' where "m = Suc m'" using 0 by (cases m) auto
  with read_char_run(2) [OF _ items] 0 show ?case by (fastforce simp: run_simps reader_ok_def)
next
  case (Suc k)
  obtain m' where m: "m = Suc m'" "k < m'" using Suc.prems(3) by (cases m) auto
  have ok: "kernel_ok s" "interrupts_on s" "irqs_bounded E n" "n \<le> ring_cap (BUF s)"
    using Suc.prems(1) by (auto simp: reader_ok_def)
  show ?case
  proof (cases "ring_items (BUF s)")
    case (Cons c cs)
    with read_char_run(2) [OF ok(1) Cons] m show ?thesis
      by (fastforce simp: run_simps intro: exI [of _ "0 :: nat"])
  next
    case Nil
    obtain s1 where s1: "hlt E s = Ret () s1" "consumed s [] s1" "trace s1 = hlt_trace E (trace s)"
      using hlt_run [OF ok Nil] by blast
    have step: "read_char_blocking_loop m E s = read_char_blocking_loop m' E s1"
      using read_char_run(1) [OF ok(1) Nil] s1(1) m by (simp add: run_simps)
    have "input_within E k s1 = input_within E (Suc k) s"
    proof -
      obtain u where u: "trace s1 = trace s @ u" "SHIFT s1 = shift_after (SHIFT s) (scancodes u)"
          "ring_items (BUF s) @ typed (SHIFT s) (scancodes u) = ring_items (BUF s1)"
        using s1(2) by (auto simp: consumed_def)
      obtain w where w: "(hlt_trace E ^^ k) (trace s1) = trace s1 @ w"
        using hlt_traces_extend by blast
      have "(hlt_trace E ^^ Suc k) (trace s) = trace s @ u @ w"
        using w u(1) s1(3) by (simp add: funpow_swap1)
      then show ?thesis
        using u w by (simp add: input_within_def typed_append)
    qed
    with Suc.IH [OF reader_ok_consumed [OF Suc.prems(1) s1(2)] _ m(2)] Suc.prems(2)
    obtain c s' j where s': "read_char_blocking_loop m' E s1 = Ret c s'" "j \<le> k"
        "trace s' = (hlt_trace E ^^ j) (trace s1)" "consumed s1 [c] s'"
      by auto
    have "trace s' = (hlt_trace E ^^ Suc j) (trace s)" using s'(3) s1(3) by (simp add: funpow_swap1)
    moreover have "consumed s [c] s'" using consumed_trans [OF s1(2) s'(4)] by simp
    ultimately show ?thesis using step s' by (metis Suc_le_mono)
  qed
qed

lemma read_line_live:
  assumes "reader_ok E n s" and "CHR 0x0A \<in> set (input_within E k s)" and "k < fuel E"
    and "length (takeWhile (\<lambda>c. c \<noteq> CHR 0x0A) (input_within E k s)) < m"
  shows "\<exists>line s'. read_line_loop m E acc s = Ret line s'"
  using assms
proof (induction m arbitrary: acc s k)
  case 0
  then show ?case by simp
next
  case (Suc m)
  from Suc.prems(2) have "input_within E k s \<noteq> []" by auto
  then obtain c s1 j where s1: "read_char_blocking E s = Ret c s1" "j \<le> k"
      "trace s1 = (hlt_trace E ^^ j) (trace s)" "consumed s [c] s1"
    using read_char_blocking_live [OF Suc.prems(1) _ Suc.prems(3)] unfolding read_char_blocking_def
    by blast
  have inp: "input_within E k s = c # input_within E (k - j) s1"
    by (rule input_within_consumed [OF s1(4,3,2)])
  show ?case
  proof (cases "c = CHR 0x0A")
    case True
    with s1(1) show ?thesis by (simp add: run_simps)
  next
    case False
    let ?acc = "if c = CHR 0x08 then butlast acc else acc @ [c]"
    have "\<exists>line s'. read_line_loop m E ?acc s1 = Ret line s'"
      by (rule Suc.IH [where k = "k - j", OF reader_ok_consumed [OF Suc.prems(1) s1(4)]])
        (use Suc.prems inp False in auto)
    with s1(1) False show ?thesis by (auto simp: run_simps)
  qed
qed

text \<open>
  C2. Reading a line, with interrupts enabled. If the keystrokes buffered and typed during the next \<open>k\<close> halts contain
  a newline, the reader returns (with more than \<open>k\<close> and more than that many iterations); the
  line is the result of editing the characters up to and including the first newline, and no
  keystroke is lost: what was consumed, followed by what is buffered afterwards, is what was
  buffered before followed by everything typed meanwhile. The hypothesis on the interrupts is
  that no single halt delivers more than the buffer holds.
\<close>

theorem read_line_correct:
  assumes "kernel_ok s" and "interrupts_on s" and "irqs_bounded E (ring_cap (BUF s))"
    and "CHR 0x0A \<in> set (input_within E k s)"
    and "k < fuel E" and "length (input_within E k s) < fuel E"
  shows "\<exists>line cs s' u. read_line E s = Ret line s' \<and> edit [] cs = Some line \<and>
    trace s' = trace s @ u \<and> kernel_ok s' \<and>
    ring_items (BUF s) @ typed (SHIFT s) (scancodes u) = cs @ ring_items (BUF s')"
proof -
  have ok: "reader_ok E (ring_cap (BUF s)) s" using assms(1-3) by (simp add: reader_ok_def)
  have "length (takeWhile (\<lambda>c. c \<noteq> CHR 0x0A) (input_within E k s)) < fuel E"
    using assms(6) length_takeWhile_le le_less_trans by blast
  then obtain line s' where r: "read_line E s = Ret line s'"
    using read_line_live [OF ok assms(4,5)] unfolding read_line_def by blast
  from read_line_consumes [OF ok r [unfolded read_line_def]] r show ?thesis
    by (auto simp: consumed_def)
qed

definition typing_env :: "u8 list \<Rightarrow> env" where
  "typing_env ks = (scancode_env [])\<lparr>fuel := 100,
     port8 := (\<lambda>t p. if p = 0x60 \<and> length (scancodes t) < length ks then ks ! length (scancodes t) else 0),
     irqs := (\<lambda>t. [33, 33, 33])\<rparr>"

theorem read_line_correct_witness:
  "\<exists>line cs s' u. read_line (typing_env [0x23, 0x17, 0x1C]) kernel_awake = Ret line s' \<and>
     edit [] cs = Some line \<and> trace s' = Cpu Sti # u \<and> kernel_ok s' \<and>
     typed False (scancodes u) = cs @ ring_items (BUF s')"
proof -
  let ?E = "typing_env [0x23, 0x17, 0x1C]"
  have bounded: "irqs_bounded ?E (ring_cap (BUF kernel_awake))"
    by (simp add: irqs_bounded_def typing_env_def irq_vector_def as_u8.simps PIC_1_OFFSET_def
        kernel_awake_def kernel_start_def ring_cap_def ring_new_def BUF_SIZE_def)
  have input: "input_within ?E (Suc 0) kernel_awake = [CHR ''h'', CHR ''i'', CHR 0x0A]"
    by (simp add: input_within_def kernel_awake_def kernel_start_def ring_items_def ring_count_def ring_new_def
        BUF_SIZE_def hlt_trace_def typing_env_def irq_events_def scancodes_def as_u8.simps
        PIC_1_OFFSET_def typed.simps shift_after.simps scancode_to_char_def scancode_table_def)
  have items: "ring_items (BUF kernel_awake) = []" "SHIFT kernel_awake = False" "trace kernel_awake = [Cpu Sti]"
    by (simp_all add: kernel_awake_def kernel_start_def ring_items_def ring_count_def ring_new_def)
  have fuel: "fuel ?E = 100" by (simp add: typing_env_def)
  show ?thesis
    using read_line_correct [OF kernel_awake_ok bounded, of "Suc 0"] by (simp add: input items fuel)
qed

end
