(* ===== verification/Allocator.thy ===== *)
theory Allocator
  imports Memory
begin

text \<open>
  \<^verbatim>\<open>kernel/src/allocator.rs\<close>: backing the kernel heap with frames. The page mapper is the
  \<^verbatim>\<open>x86_64\<close> crate's \<open>OffsetPageTable\<close>, a parameter; the allocator behind the heap is the
  \<^verbatim>\<open>linked_list_allocator\<close> crate, of which the code only records the region it is given.
\<close>

section \<open>The heap region\<close>

definition HEAP_START :: u64 where
  "HEAP_START = 0x444444440000"

definition HEAP_SIZE :: usize where
  "HEAP_SIZE = 8 * 1024 * 1024"

datatype map_to_error = FrameAllocationFailed | ParentEntryHugePage | PageAlreadyMapped u64

datatype page_table_flag = PRESENT | WRITABLE

text \<open>
  The crate's mapper: \<open>map_to\<close> may take frames for page tables from the allocator it is
  handed; \<open>flush\<close> discards the stale translation of a page.
\<close>

record ('m, 'a) mapper_ops =
  map_to :: "u64 \<Rightarrow> u64 \<Rightarrow> page_table_flag set \<Rightarrow> (map_to_error + unit, 'm \<times> 'a) prog"
  flush :: "u64 \<Rightarrow> 'm \<Rightarrow> 'm"

record ('m, 'a) paging =
  mapper :: 'm
  falloc :: 'a
  heap_region :: "(u64 \<times> usize) option"

definition run_alloc :: "('r, 'a) prog \<Rightarrow> ('r, ('m, 'a) paging) prog" where
  "run_alloc m = (\<lambda>s. case m (falloc s) of
     Ret x a \<Rightarrow> Ret x (s\<lparr>falloc := a\<rparr>)
   | Panic p a \<Rightarrow> Panic p (s\<lparr>falloc := a\<rparr>)
   | Hang a \<Rightarrow> Hang (s\<lparr>falloc := a\<rparr>))"

definition run_mapper :: "('r, 'm \<times> 'a) prog \<Rightarrow> ('r, ('m, 'a) paging) prog" where
  "run_mapper k = (\<lambda>s. case k (mapper s, falloc s) of
     Ret x (m, a) \<Rightarrow> Ret x (s\<lparr>mapper := m, falloc := a\<rparr>)
   | Panic p (m, a) \<Rightarrow> Panic p (s\<lparr>mapper := m, falloc := a\<rparr>)
   | Hang (m, a) \<Rightarrow> Hang (s\<lparr>mapper := m, falloc := a\<rparr>))"

text \<open>The loop of \<open>init_heap\<close> over the pages of the heap, with its two early returns.\<close>

primrec map_pages :: "('m, 'a) mapper_ops \<Rightarrow> (u64 option, 'a) prog \<Rightarrow> u64 list \<Rightarrow>
    (map_to_error + unit, ('m, 'a) paging) prog" where
  "map_pages ops alloc [] = return (Inr ())"
| "map_pages ops alloc (page # pages) =
     bind (run_alloc alloc) (\<lambda>r. case r of
       None \<Rightarrow> return (Inl FrameAllocationFailed)
     | Some frame \<Rightarrow>
         bind (run_mapper (map_to ops page frame {PRESENT, WRITABLE})) (\<lambda>r. case r of
           Inl e \<Rightarrow> return (Inl e)
         | Inr _ \<Rightarrow> seq (\<lambda>s. Ret () (s\<lparr>mapper := flush ops page (mapper s)\<rparr>))
             (map_pages ops alloc pages)))"

definition init_heap :: "x86_crate \<Rightarrow> ('m, 'a) mapper_ops \<Rightarrow> (u64 option, 'a) prog \<Rightarrow>
    (map_to_error + unit, ('m, 'a) paging) prog" where
  "init_heap X ops alloc =
     bind (expect (virt_new X HEAP_START) ''VirtAddr::new'') (\<lambda>heap_start.
     bind (expect (virt_add X heap_start (word_of_nat HEAP_SIZE)) ''VirtAddr + u64'') (\<lambda>end1.
     bind (expect (virt_sub X end1 1) ''VirtAddr - u64'') (\<lambda>heap_end.
     bind (map_pages ops alloc (pages_inclusive X heap_start heap_end)) (\<lambda>r. case r of
       Inl e \<Rightarrow> return (Inl e)
     | Inr _ \<Rightarrow> seq (\<lambda>s. Ret () (s\<lparr>heap_region := Some (HEAP_START, HEAP_SIZE)\<rparr>)) (return (Inr ()))))))"

section \<open>The mapper's contract\<close>

text \<open>
  What the crate documents of \<open>map_to\<close>, over a view \<open>mappings\<close> of the page tables and the
  frames \<open>left a\<close> of an allocator satisfying \<open>ok\<close>: it returns; it takes at most three frames
  for intermediate tables, from the front of the supply; on success exactly the given page is
  mapped, on an error nothing is; with three frames left, a page that is not yet mapped is
  mapped. Flushing does not change the tables.
\<close>

definition mapper_documented :: "('m, 'a) mapper_ops \<Rightarrow> ('m \<Rightarrow> u64 \<Rightarrow> (u64 \<times> page_table_flag set) option) \<Rightarrow>
    ('a \<Rightarrow> u64 list) \<Rightarrow> ('a \<Rightarrow> bool) \<Rightarrow> bool" where
  "mapper_documented ops mappings left ok \<longleftrightarrow>
     (\<forall>page frame flags m a. ok a \<longrightarrow>
        (\<exists>r m' a' k. map_to ops page frame flags (m, a) = Ret r (m', a') \<and> k \<le> 3 \<and> ok a' \<and>
           left a' = drop k (left a) \<and>
           (case r of Inr _ \<Rightarrow> mappings m' = (mappings m)(page \<mapsto> (frame, flags))
            | Inl _ \<Rightarrow> mappings m' = mappings m) \<and>
           (mappings m page = None \<longrightarrow> 3 \<le> length (left a) \<longrightarrow> r = Inr ()))) \<and>
     (\<forall>page m. mappings (flush ops page m) = mappings m)"

definition heap_pages :: "u64 list" where
  "heap_pages = map (\<lambda>i. HEAP_START + word_of_nat (4096 * i)) [0..<2048]"

section \<open>Mapping a run of pages\<close>

context frame_source
begin

text \<open>
  One page: either it fails, which it cannot when the page is free and four frames are left (one
  for the page, three for tables), or the page is mapped to a frame that is then gone.
\<close>

lemma map_page_cases:
  assumes doc: "mapper_documented ops mappings frames inv" and inv: "inv (falloc s)"
  obtains (failed) e s1 where "map_pages ops alloc (p # ps) s = Ret (Inl e) s1" "inv (falloc s1)"
      "set (frames (falloc s1)) \<subseteq> set (frames (falloc s))" "heap_region s1 = heap_region s"
      "mappings (mapper s) p = None \<Longrightarrow> length (frames (falloc s)) < 4"
    | (mapped) f s1 where "map_pages ops alloc (p # ps) s = map_pages ops alloc ps s1" "inv (falloc s1)"
      "f \<in> set (frames (falloc s)) - set (frames (falloc s1))"
      "set (frames (falloc s1)) \<subseteq> set (frames (falloc s))" "heap_region s1 = heap_region s"
      "mappings (mapper s1) = (mappings (mapper s))(p \<mapsto> (f, {PRESENT, WRITABLE}))"
      "length (frames (falloc s)) \<le> length (frames (falloc s1)) + 4"
proof -
  obtain a1 where a1: "alloc (falloc s) = Ret (case frames (falloc s) of [] \<Rightarrow> None | f # _ \<Rightarrow> Some f) a1"
      "inv a1" "frames a1 = tl (frames (falloc s))"
    using alloc_any [OF inv] by blast
  show thesis
  proof (cases "frames (falloc s)")
    case Nil
    with a1 failed [of FrameAllocationFailed "s\<lparr>falloc := a1\<rparr>"] show ?thesis by (simp add: run_simps run_alloc_def)
  next
    case (Cons f fl)
    obtain r m' a2 k where map: "map_to ops p f {PRESENT, WRITABLE} (mapper s, a1) = Ret r (m', a2)" "k \<le> 3" "inv a2"
        "frames a2 = drop k fl"
        "case r of Inr _ \<Rightarrow> mappings m' = (mappings (mapper s))(p \<mapsto> (f, {PRESENT, WRITABLE}))
         | Inl _ \<Rightarrow> mappings m' = mappings (mapper s)"
        "mappings (mapper s) p = None \<Longrightarrow> 3 \<le> length fl \<Longrightarrow> r = Inr ()"
      using doc a1 Cons unfolding mapper_documented_def by (metis list.sel(3))
    have fd: "f \<notin> set fl" using frames_distinct [OF inv] Cons by simp
    have sub: "set (drop k fl) \<subseteq> set fl" by (rule set_drop_subset)
    show ?thesis
    proof (cases r)
      case (Inl e)
      with map a1 Cons sub show ?thesis
        by (intro failed [of e "s\<lparr>mapper := m', falloc := a2\<rparr>"])
          (auto simp: run_simps run_alloc_def run_mapper_def not_less intro!: leI)
    next
      case (Inr u)
      with doc map a1 Cons sub fd show ?thesis
        by (intro mapped [of "s\<lparr>falloc := a2, mapper := flush ops p m'\<rparr>" f])
          (auto simp: run_simps run_alloc_def run_mapper_def mapper_documented_def)
    qed
  qed
qed

lemma map_pages_correct:
  assumes doc: "mapper_documented ops mappings frames inv"
  shows "inv (falloc s) \<Longrightarrow> distinct pages \<Longrightarrow>
    \<exists>r s' fs. map_pages ops alloc pages s = Ret r s' \<and> inv (falloc s') \<and>
      set fs \<subseteq> set (frames (falloc s)) - set (frames (falloc s')) \<and> distinct fs \<and>
      set (frames (falloc s')) \<subseteq> set (frames (falloc s)) \<and> heap_region s' = heap_region s \<and>
      (r = Inr () \<longrightarrow> length fs = length pages \<and>
         mappings (mapper s') = (mappings (mapper s))(pages [\<mapsto>] map (\<lambda>f. (f, {PRESENT, WRITABLE})) fs)) \<and>
      ((\<forall>p\<in>set pages. mappings (mapper s) p = None) \<longrightarrow>
         4 * length pages \<le> length (frames (falloc s)) \<longrightarrow> r = Inr ())"
proof (induction pages arbitrary: s)
  case Nil
  then show ?case
    by (intro exI [of _ "Inr ()"] exI [of _ s] exI [of _ "[]"]) (simp add: run_simps)
next
  case (Cons p ps)
  from doc Cons.prems(1) show ?case
  proof (cases rule: map_page_cases [of _ _ _ p ps])
    case (failed e s1)
    then show ?thesis by (intro exI [of _ "Inl e"] exI [of _ s1] exI [of _ "[]"]) auto
  next
    case (mapped f s1)
    obtain r s' fs where IH: "map_pages ops alloc ps s1 = Ret r s'" "inv (falloc s')"
      "set fs \<subseteq> set (frames (falloc s1)) - set (frames (falloc s'))" "distinct fs"
      "set (frames (falloc s')) \<subseteq> set (frames (falloc s1))" "heap_region s' = heap_region s1"
      "r = Inr () \<longrightarrow> length fs = length ps \<and>
         mappings (mapper s') = (mappings (mapper s1))(ps [\<mapsto>] map (\<lambda>f. (f, {PRESENT, WRITABLE})) fs)"
      "(\<forall>q\<in>set ps. mappings (mapper s1) q = None) \<longrightarrow> 4 * length ps \<le> length (frames (falloc s1)) \<longrightarrow> r = Inr ()"
      using Cons.IH [of s1] mapped(2) Cons.prems(2) by auto
    have "r = Inr ()"
      if "\<forall>q\<in>set (p # ps). mappings (mapper s) q = None" "4 * length (p # ps) \<le> length (frames (falloc s))"
      using that IH(8) Cons.prems(2) mapped(6,7) by auto
    moreover have "f \<notin> set fs" "f \<notin> set (frames (falloc s'))" using IH(3,5) mapped(3) by auto
    ultimately show ?thesis
      using IH mapped by (intro exI [of _ r] exI [of _ s'] exI [of _ "f # fs"]) auto
  qed
qed

end

section \<open>The heap\<close>

lemma heap_page_range:
  "pages_between HEAP_START (HEAP_START + word_of_nat HEAP_SIZE - 1) = heap_pages"
proof -
  have ends: "unat HEAP_START div 4096 = 0x444444440" "unat (HEAP_START + word_of_nat HEAP_SIZE - 1) div 4096 = 0x444444C3F"
    by (simp_all add: HEAP_START_def HEAP_SIZE_def)
  have shift: "[0x444444440 ..< 0x444444C3F + 1] = map (\<lambda>i. i + 0x444444440) [0..<2048 :: nat]"
    by (simp only: map_add_upt) simp
  have page: "word_of_nat (4096 * (i + 0x444444440)) = HEAP_START + word_of_nat (4096 * i)" for i
    by (simp add: HEAP_START_def algebra_simps)
  show ?thesis
    unfolding pages_between_def ends shift heap_pages_def map_map by (simp only: comp_def page)
qed

lemma heap_pages_distinct: "distinct heap_pages"
proof -
  have "unat (HEAP_START + word_of_nat (4096 * i)) = 0x444444440000 + 4096 * i" if "i < 2048" for i
    using that by (simp add: HEAP_START_def unat_word_ariths unsigned_of_nat take_bit_nat_eq_self)
  then have "map unat heap_pages = map (\<lambda>i. 0x444444440000 + 4096 * i) [0..<2048]"
    by (simp add: heap_pages_def)
  then have "distinct (map unat heap_pages)" by (simp add: distinct_map inj_on_def)
  then show ?thesis by (simp add: distinct_map)
qed

lemma length_heap_pages: "length heap_pages = 2048"
  by (simp add: heap_pages_def)

lemma init_heap_run:
  assumes "x86_documented X"
  shows "init_heap X ops alloc s = bind (map_pages ops alloc heap_pages) (\<lambda>r. case r of
       Inl e \<Rightarrow> return (Inl e)
     | Inr _ \<Rightarrow> seq (\<lambda>s. Ret () (s\<lparr>heap_region := Some (HEAP_START, HEAP_SIZE)\<rparr>)) (return (Inr ()))) s"
proof -
  let ?e = "HEAP_START + word_of_nat HEAP_SIZE"
  have c: "canonical HEAP_START" "canonical ?e" "canonical (?e - 1)"
    "unat HEAP_START + unat (word_of_nat HEAP_SIZE :: u64) < 2 ^ 64" "unat (1 :: u64) \<le> unat ?e"
    by (simp_all add: canonical_def HEAP_START_def HEAP_SIZE_def)
  have "virt_new X HEAP_START = Some HEAP_START" "virt_add X HEAP_START (word_of_nat HEAP_SIZE) = Some ?e"
    "virt_sub X ?e 1 = Some (?e - 1)" "pages_inclusive X HEAP_START (?e - 1) = heap_pages"
    using assms c unfolding x86_documented_def heap_page_range [symmetric] by blast+
  then show ?thesis by (simp add: init_heap_def run_simps)
qed

lemma init_heap_total:
  fixes s :: "('m, frame_allocator) paging"
  assumes "x86_documented X" and "map_ok (memory_regions (falloc s))"
    and "mapper_documented ops mappings frame_supply (allocator_ok X)"
  shows "\<exists>r s'. init_heap X ops (allocate_frame X) s = Ret r s' \<and>
    (r = Inr () \<longrightarrow> heap_region s' = Some (HEAP_START, HEAP_SIZE) \<and>
       (\<exists>fs. length fs = 2048 \<and> distinct fs \<and> set fs \<subseteq> set (frame_supply (falloc s)) \<and>
          set fs \<inter> set (frame_supply (falloc s')) = {} \<and>
          mappings (mapper s') = (mappings (mapper s))(heap_pages [\<mapsto>] map (\<lambda>f. (f, {PRESENT, WRITABLE})) fs))) \<and>
    (r \<noteq> Inr () \<longrightarrow> heap_region s' = heap_region s) \<and>
    ((\<forall>p\<in>set heap_pages. mappings (mapper s) p = None) \<longrightarrow>
       8192 \<le> length (frame_supply (falloc s)) \<longrightarrow> r = Inr ())"
proof -
  have ok: "allocator_ok X (falloc s)" using assms by (simp add: allocator_ok_def)
  obtain r s1 fs where m: "map_pages ops (allocate_frame X) heap_pages s = Ret r s1"
      "set fs \<subseteq> set (frame_supply (falloc s)) - set (frame_supply (falloc s1))" "distinct fs"
      "heap_region s1 = heap_region s"
      "r = Inr () \<longrightarrow> length fs = length heap_pages \<and>
         mappings (mapper s1) = (mappings (mapper s))(heap_pages [\<mapsto>] map (\<lambda>f. (f, {PRESENT, WRITABLE})) fs)"
      "(\<forall>p\<in>set heap_pages. mappings (mapper s) p = None) \<longrightarrow>
         4 * length heap_pages \<le> length (frame_supply (falloc s)) \<longrightarrow> r = Inr ()"
    using boot_frames.map_pages_correct [OF assms(3) ok heap_pages_distinct] by blast
  show ?thesis
  proof (cases r)
    case (Inl e)
    then have "init_heap X ops (allocate_frame X) s = Ret (Inl e) s1"
      by (simp add: init_heap_run [OF assms(1)] run_simps m(1))
    with Inl m show ?thesis by (auto simp: length_heap_pages)
  next
    case (Inr u)
    then have "init_heap X ops (allocate_frame X) s =
        Ret (Inr ()) (s1\<lparr>heap_region := Some (HEAP_START, HEAP_SIZE)\<rparr>)"
      by (simp add: init_heap_run [OF assms(1)] run_simps m(1))
    with Inr m show ?thesis by (auto simp: length_heap_pages)
  qed
qed

text \<open>
  C8. The heap. With the boot frame allocator over a well-formed memory map, \<open>init_heap\<close>
  returns; if it succeeds, exactly the 2048 pages of the 8 MiB from \<open>HEAP_START\<close> are newly
  mapped, present and writable, to pairwise distinct usable frames that the allocator will
  not hand out again, and the heap allocator is given that region; if it fails, the heap
  allocator is not initialised. It succeeds when the pages are unmapped and four frames per
  page are left (one for the page, at most three for tables).
\<close>

theorem init_heap_correct:
  fixes s :: "('m, frame_allocator) paging"
  assumes "x86_documented X" and "map_ok (memory_regions (falloc s))"
    and "mapper_documented ops mappings frame_supply (allocator_ok X)"
  shows "\<exists>r s'. init_heap X ops (allocate_frame X) s = Ret r s' \<and>
    (r = Inr () \<longrightarrow> heap_region s' = Some (HEAP_START, HEAP_SIZE) \<and>
       (\<exists>fs. length fs = 2048 \<and> distinct fs \<and> set fs \<subseteq> set (frame_supply (falloc s)) \<and>
          set fs \<inter> set (frame_supply (falloc s')) = {} \<and>
          mappings (mapper s') = (mappings (mapper s))(heap_pages [\<mapsto>] map (\<lambda>f. (f, {PRESENT, WRITABLE})) fs))) \<and>
    (r \<noteq> Inr () \<longrightarrow> heap_region s' = heap_region s) \<and>
    ((\<forall>p\<in>set heap_pages. mappings (mapper s) p = None) \<longrightarrow>
       8192 \<le> length (frame_supply (falloc s)) \<longrightarrow> r = Inr ())"
  using assms by (rule init_heap_total)

text \<open>A mapper that keeps its mappings in a map and needs no tables.\<close>

definition flat_mapper :: "(u64 \<Rightarrow> (u64 \<times> page_table_flag set) option, frame_allocator) mapper_ops" where
  "flat_mapper = \<lparr>map_to = (\<lambda>page frame flags (m, a).
       if m page = None then Ret (Inr ()) (m(page \<mapsto> (frame, flags)), a)
       else Ret (Inl (PageAlreadyMapped page)) (m, a)),
     flush = (\<lambda>page m. m)\<rparr>"

definition big_region :: "memory_region list" where
  "big_region = [\<lparr>region_start = 0x200000, region_end = 0x4200000, region_kind = Usable\<rparr>]"

theorem init_heap_correct_witness:
  "\<exists>s'. init_heap x86_reference flat_mapper (allocate_frame x86_reference)
      \<lparr>mapper = Map.empty, falloc = frame_allocator_init big_region, heap_region = None\<rparr> = Ret (Inr ()) s' \<and>
    heap_region s' = Some (HEAP_START, HEAP_SIZE)"
proof -
  let ?s = "\<lparr>mapper = Map.empty, falloc = frame_allocator_init big_region, heap_region = None\<rparr>"
  have map: "map_ok (memory_regions (falloc ?s))"
    by (simp add: map_ok_def big_region_def region_ok_def page_aligned_def frame_allocator_init_def)
  have doc: "mapper_documented flat_mapper (\<lambda>m. m) frame_supply (allocator_ok x86_reference)"
    by (auto simp: mapper_documented_def flat_mapper_def intro!: exI [of _ "0 :: nat"])
  have len: "8192 \<le> length (frame_supply (falloc ?s))"
    by (simp add: frame_supply_def frame_allocator_init_def usable_addrs_def big_region_def step_range_def)
  show ?thesis
    using init_heap_correct [OF x86_reference_documented map doc] len by force
qed

end
