(* ===== verification/Framebuffer.thy ===== *)
theory Framebuffer
  imports Prelude
begin

text \<open>
  \<^verbatim>\<open>kernel/src/framebuffer.rs\<close>: pixels. The framebuffer itself (its geometry and its byte
  buffer) is handed over by the bootloader; operations on a \<open>&mut [u8]\<close> are programs whose
  state is the list of bytes.
\<close>

section \<open>Colours and pixels\<close>

type_synonym rgb = "u8 \<times> u8 \<times> u8"

definition HARDCORE_BLACK :: rgb where
  "HARDCORE_BLACK = (0x0E, 0x0E, 0x10)"

definition NOVA_WHITE :: rgb where
  "NOVA_WHITE = (0xF5, 0xF1, 0xEA)"

definition BUILD_ACID :: rgb where
  "BUILD_ACID = (0xD6, 0xFF, 0x3F)"

definition HALIFAX_COBALT :: rgb where
  "HALIFAX_COBALT = (0x3A, 0x6B, 0xFF)"

text \<open>\<open>PixelFormat\<close> is not exhaustive: \<open>OtherFormat\<close> stands for the formats the code does not name.\<close>

datatype pixel_format = Rgb | Bgr | U8 | OtherFormat

record framebuffer_info =
  byte_len :: usize
  width :: usize
  height :: usize
  pixel_format :: pixel_format
  bytes_per_pixel :: usize
  stride :: usize

record framebuffer =
  info :: framebuffer_info
  buffer :: "u8 list"

definition set_byte :: "usize \<Rightarrow> u8 \<Rightarrow> (unit, u8 list) prog" where
  "set_byte i v = (\<lambda>px. if i < length px then Ret () (px[i := v]) else Panic IndexOutOfBounds px)"

definition luma :: "rgb \<Rightarrow> u8" where
  "luma = (\<lambda>(r, g, b). ucast (drop_bit 8 (ucast r * 54 + ucast g * 183 + ucast b * 19 :: u16)))"

definition write_pixel :: "pixel_format \<Rightarrow> rgb \<Rightarrow> (unit, u8 list) prog" where
  "write_pixel fmt = (\<lambda>(r, g, b). case fmt of
     Rgb \<Rightarrow> run_all [set_byte 0 r, set_byte 1 g, set_byte 2 b]
   | Bgr \<Rightarrow> run_all [set_byte 0 b, set_byte 1 g, set_byte 2 r]
   | U8 \<Rightarrow> set_byte 0 (luma (r, g, b))
   | OtherFormat \<Rightarrow> run_all [set_byte 0 b, set_byte 1 g, set_byte 2 r])"

text \<open>A program on the sub-slice \<open>buf[off..off + len]\<close>.\<close>

definition on_slice :: "usize \<Rightarrow> usize \<Rightarrow> (unit, u8 list) prog \<Rightarrow> (unit, u8 list) prog" where
  "on_slice off len m = (\<lambda>buf.
     if off + len \<le> length buf then
       (let put = (\<lambda>px. take off buf @ px @ drop (off + len) buf) in
        case m (take len (drop off buf)) of
          Ret x px \<Rightarrow> Ret () (put px)
        | Panic p px \<Rightarrow> Panic p (put px)
        | Hang px \<Rightarrow> Hang (put px))
     else Panic IndexOutOfBounds buf)"

text \<open>\<open>for px in buf.chunks_exact_mut(bpp) { ... }\<close>: the whole pixels, in order.\<close>

definition for_chunks_exact :: "usize \<Rightarrow> (unit, u8 list) prog \<Rightarrow> (unit, u8 list) prog" where
  "for_chunks_exact bpp m = (\<lambda>buf.
     if bpp = 0 then Panic (AssertFailed ''chunk size must be non-zero'') buf
     else for_each [0..<length buf div bpp] (\<lambda>i. on_slice (i * bpp) bpp m) buf)"

definition clear_framebuffer :: "rgb \<Rightarrow> (unit, framebuffer) prog" where
  "clear_framebuffer rgb = (\<lambda>fb.
     case for_chunks_exact (bytes_per_pixel (info fb)) (write_pixel (pixel_format (info fb)) rgb) (buffer fb) of
       Ret x b \<Rightarrow> Ret () (fb\<lparr>buffer := b\<rparr>)
     | Panic p b \<Rightarrow> Panic p (fb\<lparr>buffer := b\<rparr>)
     | Hang b \<Rightarrow> Hang (fb\<lparr>buffer := b\<rparr>))"

section \<open>What a pixel write does\<close>

text \<open>The number of bytes a format needs, and a pixel with a colour put in.\<close>

fun pixel_need :: "pixel_format \<Rightarrow> nat" where
  "pixel_need U8 = 1"
| "pixel_need _ = 3"

fun paint :: "pixel_format \<Rightarrow> rgb \<Rightarrow> u8 list \<Rightarrow> u8 list" where
  "paint Rgb (r, g, b) px = px[0 := r, 1 := g, 2 := b]"
| "paint Bgr (r, g, b) px = px[0 := b, 1 := g, 2 := r]"
| "paint OtherFormat (r, g, b) px = px[0 := b, 1 := g, 2 := r]"
| "paint U8 rgb px = px[0 := luma rgb]"

definition pixel :: "usize \<Rightarrow> u8 list \<Rightarrow> nat \<Rightarrow> u8 list" where
  "pixel bpp buf p = take bpp (drop (p * bpp) buf)"

lemma length_paint [simp]: "length (paint fmt rgb px) = length px"
  by (cases "(fmt, rgb, px)" rule: paint.cases) simp_all

lemma paint_idem: "paint fmt rgb (paint fmt rgb px) = paint fmt rgb px"
  by (cases "(fmt, rgb, px)" rule: paint.cases) (simp_all add: list_update_swap)

lemma paint_overwrite: "paint fmt c (paint fmt d px) = paint fmt c px"
  by (cases "(fmt, c, px)" rule: paint.cases; cases d) (simp_all add: list_update_swap)

lemma write_pixel_run:
  "pixel_need fmt \<le> length px \<Longrightarrow> write_pixel fmt rgb px = Ret () (paint fmt rgb px)"
  by (cases rgb; cases fmt; cases px) (auto simp: write_pixel_def set_byte_def run_simps)

lemma write_pixel_short: "length px < pixel_need fmt \<Longrightarrow> \<exists>px'. write_pixel fmt rgb px = Panic IndexOutOfBounds px'"
  by (cases rgb; cases fmt) (auto simp: write_pixel_def set_byte_def run_simps)

lemma u8_le_255: "unat w \<le> 255" for w :: u8
  using unsigned_less [of w, where ?'a = nat] by simp

text \<open>
  The 8-bit grey value is \<open>(54 r + 183 g + 19 b) / 256\<close>: the 16-bit sum cannot overflow and
  the result fits a byte, so black stays 0, white stays 254 or more and the cast loses nothing.
\<close>

theorem luma_exact:
  "unat (luma (r, g, b)) = (54 * unat r + 183 * unat g + 19 * unat b) div 256 \<and>
   54 * unat r + 183 * unat g + 19 * unat b < 2 ^ 16"
proof -
  have lt: "unat r < 2 ^ 8" "unat g < 2 ^ 8" "unat b < 2 ^ 8"
    using unsigned_less [of r] unsigned_less [of g] unsigned_less [of b] by simp_all
  let ?w = "ucast r * 54 + ucast g * 183 + ucast b * 19 :: u16"
  have sum: "unat ?w = 54 * unat r + 183 * unat g + 19 * unat b"
    using lt by (simp add: unat_word_ariths unat_ucast)
  then show ?thesis
    using lt by (simp add: luma_def unat_ucast unat_drop_bit sum)
qed

section \<open>Pixels of a buffer\<close>

abbreviation bpp_of :: "framebuffer \<Rightarrow> usize" where
  "bpp_of fb \<equiv> bytes_per_pixel (info fb)"

text \<open>Pixel \<open>p\<close> of a buffer painted, and a list of pixels painted one after the other.\<close>

definition plot :: "usize \<Rightarrow> pixel_format \<Rightarrow> rgb \<Rightarrow> nat \<Rightarrow> u8 list \<Rightarrow> u8 list" where
  "plot bpp fmt rgb p buf = take (p * bpp) buf @ paint fmt rgb (pixel bpp buf p) @ drop (p * bpp + bpp) buf"

definition holds_pixel :: "usize \<Rightarrow> u8 list \<Rightarrow> nat \<Rightarrow> bool" where
  "holds_pixel bpp buf p \<longleftrightarrow> p * bpp + bpp \<le> length buf"

lemma length_pixel: "length (pixel bpp buf p) = min bpp (length buf - p * bpp)"
  by (simp add: pixel_def min.commute)

lemma nth_pixel: "j < length (pixel bpp buf p) \<Longrightarrow> pixel bpp buf p ! j = buf ! (p * bpp + j)"
  by (auto simp: pixel_def)

lemma pixel_cong:
  assumes "length b = length d" and "\<And>j. j < bpp \<Longrightarrow> p * bpp + j < length b \<Longrightarrow> b ! (p * bpp + j) = d ! (p * bpp + j)"
  shows "pixel bpp b p = pixel bpp d p"
  by (rule nth_equalityI) (use assms in \<open>auto simp: length_pixel nth_pixel\<close>)

lemma length_plot [simp]: "holds_pixel bpp buf p \<Longrightarrow> length (plot bpp fmt rgb p buf) = length buf"
  by (simp add: plot_def holds_pixel_def length_pixel)

lemma holds_pixel_plot [simp]:
  "holds_pixel bpp buf p \<Longrightarrow> holds_pixel bpp (plot bpp fmt rgb p buf) q = holds_pixel bpp buf q"
  by (simp add: holds_pixel_def [of _ _ q])

lemma nth_plot:
  assumes "holds_pixel bpp buf p" and "i < length buf"
  shows "plot bpp fmt rgb p buf ! i =
    (if p * bpp \<le> i \<and> i < p * bpp + bpp then paint fmt rgb (pixel bpp buf p) ! (i - p * bpp) else buf ! i)"
  using assms by (auto simp: plot_def nth_append holds_pixel_def length_pixel min_def)

lemma in_pixel_iff:
  fixes p q bpp :: nat
  assumes "j < bpp"
  shows "p * bpp \<le> q * bpp + j \<and> q * bpp + j < p * bpp + bpp \<longleftrightarrow> q = p"
proof -
  have "Suc q * bpp \<le> p * bpp" if "q < p" using that by (intro mult_le_mono1) simp
  moreover have "Suc p * bpp \<le> q * bpp" if "p < q" using that by (intro mult_le_mono1) simp
  ultimately show ?thesis using assms by (cases q p rule: linorder_cases) auto
qed

lemma pixel_plot:
  assumes "holds_pixel bpp buf p"
  shows "pixel bpp (plot bpp fmt rgb p buf) q =
    (if q = p then paint fmt rgb (pixel bpp buf p) else pixel bpp buf q)"
proof (rule nth_equalityI)
  show len: "length (pixel bpp (plot bpp fmt rgb p buf) q) =
      length (if q = p then paint fmt rgb (pixel bpp buf p) else pixel bpp buf q)"
    using assms by (simp add: length_pixel)
  fix j assume j: "j < length (pixel bpp (plot bpp fmt rgb p buf) q)"
  then have "j < bpp" "q * bpp + j < length buf"
    using assms by (auto simp: length_pixel)
  then show "pixel bpp (plot bpp fmt rgb p buf) q ! j =
      (if q = p then paint fmt rgb (pixel bpp buf p) else pixel bpp buf q) ! j"
    using assms j in_pixel_iff [of j bpp p q] by (auto simp: nth_pixel nth_plot length_pixel)
qed

lemma drop_plot:
  assumes "holds_pixel bpp buf p" and "p * bpp + bpp \<le> k"
  shows "drop k (plot bpp fmt rgb p buf) = drop k buf"
  using assms by (simp add: plot_def length_pixel holds_pixel_def)

lemma write_pixel_at:
  assumes "pixel_need fmt \<le> bpp" and "holds_pixel bpp buf p"
  shows "on_slice (p * bpp) bpp (write_pixel fmt rgb) buf = Ret () (plot bpp fmt rgb p buf)"
proof -
  have "pixel_need fmt \<le> length (take bpp (drop (p * bpp) buf))"
    using assms by (simp add: holds_pixel_def)
  then show ?thesis
    using assms(2) by (simp add: on_slice_def holds_pixel_def write_pixel_run plot_def pixel_def)
qed

text \<open>Painting a list of pixels changes exactly those pixels.\<close>

lemma for_each_write_pixel:
  assumes "pixel_need fmt \<le> bpp" and "list_all (holds_pixel bpp buf) ps"
  shows "\<exists>buf'. for_each ps (\<lambda>p. on_slice (p * bpp) bpp (write_pixel fmt rgb)) buf = Ret () buf' \<and>
    length buf' = length buf \<and>
    (\<forall>q. pixel bpp buf' q = (if q \<in> set ps then paint fmt rgb (pixel bpp buf q) else pixel bpp buf q)) \<and>
    (\<forall>k. (\<forall>p\<in>set ps. p * bpp + bpp \<le> k) \<longrightarrow> drop k buf' = drop k buf)"
  using assms(2)
proof (induction ps arbitrary: buf)
  case Nil
  show ?case by (simp add: run_simps)
next
  case (Cons p ps)
  let ?b = "plot bpp fmt rgb p buf"
  have p: "holds_pixel bpp buf p" using Cons.prems by simp
  have "list_all (holds_pixel bpp ?b) ps"
    using Cons.prems by (simp add: list_all_iff)
  from Cons.IH [OF this] obtain buf' where
    b: "for_each ps (\<lambda>p. on_slice (p * bpp) bpp (write_pixel fmt rgb)) ?b = Ret () buf'"
      "length buf' = length ?b"
      "\<And>q. pixel bpp buf' q = (if q \<in> set ps then paint fmt rgb (pixel bpp ?b q) else pixel bpp ?b q)"
      "\<And>k. \<forall>p\<in>set ps. p * bpp + bpp \<le> k \<Longrightarrow> drop k buf' = drop k ?b" by blast
  have "pixel bpp buf' q = (if q \<in> set (p # ps) then paint fmt rgb (pixel bpp buf q) else pixel bpp buf q)" for q
    using b(3) [of q] p by (simp add: pixel_plot paint_idem)
  then show ?case
    using b(1,2,4) p by (intro exI [of _ buf']) (simp add: run_simps write_pixel_at [OF assms(1)] drop_plot)
qed

lemma for_chunks_paint:
  assumes "pixel_need fmt \<le> bpp"
  shows "\<exists>b. for_chunks_exact bpp (write_pixel fmt rgb) buf = Ret () b \<and> length b = length buf \<and>
    (\<forall>p < length buf div bpp. pixel bpp b p = paint fmt rgb (pixel bpp buf p)) \<and>
    (let k = length buf div bpp * bpp in drop k b = drop k buf)"
proof -
  let ?ps = "[0..<length buf div bpp]"
  have pos: "0 < bpp" using assms by (cases fmt) simp_all
  have fits: "p * bpp + bpp \<le> length buf div bpp * bpp" if "p < length buf div bpp" for p
    using mult_le_mono1 [of "Suc p" "length buf div bpp" bpp] that by simp
  then have "list_all (holds_pixel bpp buf) ?ps"
    unfolding list_all_iff holds_pixel_def
    by (metis atLeastLessThan_iff div_times_less_eq_dividend le_trans set_upt)
  from for_each_write_pixel [OF assms this, of rgb] obtain b where
    b: "for_each ?ps (\<lambda>p. on_slice (p * bpp) bpp (write_pixel fmt rgb)) buf = Ret () b" "length b = length buf"
      "\<And>q. pixel bpp b q = (if q \<in> set ?ps then paint fmt rgb (pixel bpp buf q) else pixel bpp buf q)"
      "\<And>k. \<forall>p\<in>set ?ps. p * bpp + bpp \<le> k \<Longrightarrow> drop k b = drop k buf"
    by blast
  have "for_chunks_exact bpp (write_pixel fmt rgb) buf = Ret () b"
    using pos b(1) by (simp add: for_chunks_exact_def)
  moreover have "drop k b = drop k buf" if "k = length buf div bpp * bpp" for k
    by (rule b(4)) (use that fits in simp)
  ultimately show ?thesis using b(2,3) by (intro exI [of _ b]) (simp add: Let_def)
qed

text \<open>
  C24. Clearing the framebuffer to a colour, with pixels large enough for the format, returns;
  every whole pixel then holds the colour in the framebuffer's byte order (bytes of the pixel
  beyond the colour untouched), the bytes after the last whole pixel and the geometry are
  unchanged. With pixels that are too small for the format, or empty ones, it panics.
\<close>

theorem clear_framebuffer_correct:
  "(pixel_need (pixel_format (info fb)) \<le> bpp_of fb \<longrightarrow>
      (\<exists>buf. clear_framebuffer rgb fb = Ret () (fb\<lparr>buffer := buf\<rparr>) \<and> length buf = length (buffer fb) \<and>
         (\<forall>p < length (buffer fb) div bpp_of fb.
            pixel (bpp_of fb) buf p = paint (pixel_format (info fb)) rgb (pixel (bpp_of fb) (buffer fb) p)) \<and>
         (let k = length (buffer fb) div bpp_of fb * bpp_of fb in drop k buf = drop k (buffer fb)))) \<and>
    (bpp_of fb < pixel_need (pixel_format (info fb)) \<and> bpp_of fb \<le> length (buffer fb) \<longrightarrow>
      (\<exists>r fb'. clear_framebuffer rgb fb = Panic r fb'))"
proof (intro conjI impI)
  let ?buf = "buffer fb" and ?fmt = "pixel_format (info fb)"
  assume need: "pixel_need ?fmt \<le> bpp_of fb"
  from for_chunks_paint [OF need, of rgb ?buf] obtain b where
    "for_chunks_exact (bpp_of fb) (write_pixel ?fmt rgb) ?buf = Ret () b" "length b = length ?buf"
    "\<forall>p < length ?buf div bpp_of fb. pixel (bpp_of fb) b p = paint ?fmt rgb (pixel (bpp_of fb) ?buf p)"
    "let k = length ?buf div bpp_of fb * bpp_of fb in drop k b = drop k ?buf"
    by blast
  then show "\<exists>buf. clear_framebuffer rgb fb = Ret () (fb\<lparr>buffer := buf\<rparr>) \<and> length buf = length ?buf \<and>
         (\<forall>p < length ?buf div bpp_of fb. pixel (bpp_of fb) buf p = paint ?fmt rgb (pixel (bpp_of fb) ?buf p)) \<and>
         (let k = length ?buf div bpp_of fb * bpp_of fb in drop k buf = drop k ?buf)"
    by (intro exI [of _ b]) (simp add: clear_framebuffer_def)
next
  let ?buf = "buffer fb" and ?fmt = "pixel_format (info fb)"
  assume small: "bpp_of fb < pixel_need ?fmt \<and> bpp_of fb \<le> length ?buf"
  show "\<exists>r fb'. clear_framebuffer rgb fb = Panic r fb'"
  proof (cases "bpp_of fb = 0")
    case True
    then show ?thesis by (simp add: clear_framebuffer_def for_chunks_exact_def)
  next
    case False
    then obtain n where n: "length ?buf div bpp_of fb = Suc n"
      using small by (metis Suc_pred div_greater_zero_iff not_gr_zero)
    have "length (take (bpp_of fb) ?buf) < pixel_need ?fmt" using small by simp
    from write_pixel_short [OF this, of rgb] obtain px where
      "write_pixel ?fmt rgb (take (bpp_of fb) ?buf) = Panic IndexOutOfBounds px" by blast
    then have "on_slice 0 (bpp_of fb) (write_pixel ?fmt rgb) ?buf = Panic IndexOutOfBounds (px @ drop (bpp_of fb) ?buf)"
      using small by (simp add: on_slice_def)
    then show ?thesis
      using False n
      by (simp add: clear_framebuffer_def for_chunks_exact_def upt_rec run_simps)
  qed
qed

definition demo_framebuffer :: framebuffer where
  "demo_framebuffer = \<lparr>info = \<lparr>byte_len = 9, width = 2, height = 1, pixel_format = Bgr,
     bytes_per_pixel = 4, stride = 2\<rparr>, buffer = [1, 2, 3, 4, 5, 6, 7, 8, 9]\<rparr>"

theorem clear_framebuffer_correct_witness:
  "\<exists>buf. clear_framebuffer HARDCORE_BLACK demo_framebuffer = Ret () (demo_framebuffer\<lparr>buffer := buf\<rparr>) \<and>
     pixel 4 buf 1 = [0x10, 0x0E, 0x0E, 8] \<and> length buf = 9"
proof -
  have "pixel 4 [1, 2, 3, 4, 5, 6, 7, 8, 9] 1 = [5, 6, 7, 8 :: u8]" by (simp add: pixel_def)
  then show ?thesis
    using clear_framebuffer_correct [of demo_framebuffer HARDCORE_BLACK]
    by (auto simp: demo_framebuffer_def HARDCORE_BLACK_def)
qed

end
