(* ===== verification/Render.thy ===== *)
theory Render
  imports Framebuffer Console "HOL-Library.Signed_Division"
begin

text \<open>
  \<^verbatim>\<open>kernel/src/render.rs\<close>: the software renderer of the three bubbles. Screen geometry is
  computed in \<open>isize\<close> and \<open>usize\<close> arithmetic that panics on overflow, so every such operation
  goes through a range check here, and that the checks never fail on real screens is proved.
\<close>

section \<open>Checked arithmetic\<close>

definition isize_val :: "int \<Rightarrow> (int, 's) prog" where
  "isize_val x = (if - (2 ^ 63) \<le> x \<and> x < 2 ^ 63 then return x else fail ArithOverflow)"

definition usize_sub :: "nat \<Rightarrow> nat \<Rightarrow> (nat, 's) prog" where
  "usize_sub x y = (if y \<le> x then return (x - y) else fail ArithOverflow)"

text \<open>\<open>x as isize\<close> of a \<open>usize\<close>, and the cast back.\<close>

definition as_isize :: "nat \<Rightarrow> int" where
  "as_isize x = (if x < 2 ^ 63 then int x else int x - 2 ^ 64)"

definition as_usize :: "int \<Rightarrow> nat" where
  "as_usize x = nat (x mod 2 ^ 64)"

section \<open>Colours\<close>

definition STAGGER :: "u16 list" where
  "STAGGER = [255, 153, 76]"

definition mix :: "u16 \<Rightarrow> u8 \<Rightarrow> u8 \<Rightarrow> (u8, 's) prog" where
  "mix opacity a b =
     bind (if unat (ucast a :: u16) * unat opacity < 2 ^ 16 then return (ucast a * opacity) else fail ArithOverflow) (\<lambda>x.
     bind (if opacity \<le> 255 then return (255 - opacity) else fail ArithOverflow) (\<lambda>rest.
     bind (if unat (ucast b :: u16) * unat rest < 2 ^ 16 then return (ucast b * rest) else fail ArithOverflow) (\<lambda>y.
     bind (if unat x + unat y < 2 ^ 16 then return (x + y) else fail ArithOverflow) (\<lambda>sum.
     return (ucast (sum div 255))))))"

definition blend :: "rgb \<Rightarrow> rgb \<Rightarrow> u16 \<Rightarrow> (rgb, 's) prog" where
  "blend fg bg opacity = (case (fg, bg) of ((fr, fgr, fb), (br, bgr, bb)) \<Rightarrow>
     bind (mix opacity fr br) (\<lambda>r.
     bind (mix opacity fgr bgr) (\<lambda>g.
     bind (mix opacity fb bb) (\<lambda>b.
     return (r, g, b)))))"

section \<open>The canvas\<close>

record canvas =
  c_buf :: "u8 list"
  c_w :: usize
  c_h :: usize
  c_stride :: usize
  c_bpp :: usize
  c_fmt :: pixel_format

definition canvas_new :: "framebuffer_info \<Rightarrow> canvas" where
  "canvas_new i = \<lparr>c_buf = replicate (byte_len i) 0, c_w = width i, c_h = height i, c_stride = stride i,
     c_bpp = bytes_per_pixel i, c_fmt = pixel_format i\<rparr>"

definition on_buf :: "(unit, u8 list) prog \<Rightarrow> (unit, canvas) prog" where
  "on_buf m = (\<lambda>c. case m (c_buf c) of
     Ret x b \<Rightarrow> Ret x (c\<lparr>c_buf := b\<rparr>)
   | Panic p b \<Rightarrow> Panic p (c\<lparr>c_buf := b\<rparr>)
   | Hang b \<Rightarrow> Hang (c\<lparr>c_buf := b\<rparr>))"

definition canvas_clear :: "rgb \<Rightarrow> (unit, canvas) prog" where
  "canvas_clear rgb = (\<lambda>c. on_buf (for_chunks_exact (c_bpp c) (write_pixel (c_fmt c) rgb)) c)"

text \<open>The body of the inner loop, the inner loop, and the function of \<open>fill_circle\<close>.\<close>

definition circle_point :: "usize \<Rightarrow> usize \<Rightarrow> pixel_format \<Rightarrow> rgb \<Rightarrow> int \<Rightarrow> int \<Rightarrow> int \<Rightarrow> int \<Rightarrow> int \<Rightarrow>
    (unit, canvas) prog" where
  "circle_point strd bpp fmt rgb cx r2 dy y x =
     bind (isize_val (x - cx)) (\<lambda>dx.
     bind (isize_val (dx * dx)) (\<lambda>dx2.
     bind (isize_val (dy * dy)) (\<lambda>dy2.
     bind (isize_val (dx2 + dy2)) (\<lambda>d2.
     if d2 \<le> r2 then
       bind (usize_val (as_usize y * strd)) (\<lambda>row.
       bind (usize_val (row + as_usize x)) (\<lambda>index.
       bind (usize_val (index * bpp)) (\<lambda>off.
       seq (usize_val (off + bpp))
       (on_buf (on_slice off bpp (write_pixel fmt rgb))))))
     else return ()))))"

definition circle_row :: "usize \<Rightarrow> usize \<Rightarrow> pixel_format \<Rightarrow> rgb \<Rightarrow> int \<Rightarrow> int \<Rightarrow> int \<Rightarrow> int \<Rightarrow> int \<Rightarrow> int \<Rightarrow>
    (unit, canvas) prog" where
  "circle_row strd bpp fmt rgb w cx cy r r2 y =
     bind (isize_val (y - cy)) (\<lambda>dy.
     bind (isize_val (cx - r)) (\<lambda>xa.
     bind (isize_val (cx + r)) (\<lambda>xb.
     bind (isize_val (w - 1)) (\<lambda>xmax.
     for_each [max xa 0..min xb xmax] (circle_point strd bpp fmt rgb cx r2 dy y)))))"

definition fill_circle :: "int \<Rightarrow> int \<Rightarrow> int \<Rightarrow> rgb \<Rightarrow> (unit, canvas) prog" where
  "fill_circle cx cy r rgb = (\<lambda>c.
     (let w = as_isize (c_w c); h = as_isize (c_h c);
          strd = c_stride c; bpp = c_bpp c; fmt = c_fmt c in
      bind (isize_val (r * r)) (\<lambda>r2.
      bind (isize_val (cy - r)) (\<lambda>ya.
      bind (isize_val (cy + r)) (\<lambda>yb.
      bind (isize_val (h - 1)) (\<lambda>ymax.
      for_each [max ya 0..min yb ymax] (circle_row strd bpp fmt rgb w cx cy r r2)))))) c)"

definition present_rows :: "canvas \<Rightarrow> usize \<Rightarrow> usize \<Rightarrow> (unit, framebuffer) prog" where
  "present_rows c y0 y1 =
     bind (usize_val (c_stride c * c_bpp c)) (\<lambda>row_bytes.
     bind (usize_val (y0 * row_bytes)) (\<lambda>from.
     bind (usize_val (y1 + 1)) (\<lambda>rows.
     bind (usize_val (rows * row_bytes)) (\<lambda>upto fb.
       if from \<le> upto \<and> upto \<le> length (buffer fb) \<and> upto \<le> length (c_buf c)
       then Ret () (fb\<lparr>buffer := take from (buffer fb) @ take (upto - from) (drop from (c_buf c)) @
         drop upto (buffer fb)\<rparr>)
       else Panic IndexOutOfBounds fb))))"

section \<open>Layout and drawing\<close>

record bubble_layout =
  centers :: "int list"
  l_cy :: int
  l_r :: int

definition layout :: "framebuffer_info \<Rightarrow> (bubble_layout, 's) prog" where
  "layout i =
     (let w = as_isize (width i); h = as_isize (height i); r = h sdiv 12 in
      bind (isize_val (r * 13)) (\<lambda>r13.
      let gap = r13 sdiv 5; cx = w sdiv 2; cy = h sdiv 2 in
      bind (isize_val (cx - gap)) (\<lambda>left.
      bind (isize_val (cx + gap)) (\<lambda>right.
      return \<lparr>centers = [left, cx, right], l_cy = cy, l_r = r\<rparr>))))"

definition draw :: "bubble_layout \<Rightarrow> usize \<Rightarrow> (unit, canvas) prog" where
  "draw l lead = for_each (enumerate 0 (centers l)) (\<lambda>(i, bx).
     bind (usize_sub (3 + i) lead) (\<lambda>d.
     bind (blend BUILD_ACID HARDCORE_BLACK (STAGGER ! (d mod 3))) (\<lambda>rgb.
     fill_circle bx (l_cy l) (l_r l) rgb)))"

section \<open>The animation loop\<close>

record screen = kernel +
  fb :: framebuffer
  surface :: canvas
  last_frame :: u64

definition on_back :: "('a, canvas) prog \<Rightarrow> ('a, screen) prog" where
  "on_back m = (\<lambda>s. case m (surface s) of
     Ret x c \<Rightarrow> Ret x (s\<lparr>surface := c\<rparr>)
   | Panic p c \<Rightarrow> Panic p (s\<lparr>surface := c\<rparr>)
   | Hang c \<Rightarrow> Hang (s\<lparr>surface := c\<rparr>))"

definition on_fb :: "('a, framebuffer) prog \<Rightarrow> ('a, screen) prog" where
  "on_fb m = (\<lambda>s. case m (fb s) of
     Ret x f \<Rightarrow> Ret x (s\<lparr>fb := f\<rparr>)
   | Panic p f \<Rightarrow> Panic p (s\<lparr>fb := f\<rparr>)
   | Hang f \<Rightarrow> Hang (s\<lparr>fb := f\<rparr>))"

primrec echo_keys :: "nat \<Rightarrow> env \<Rightarrow> (unit, 'z kernel_scheme) prog" where
  "echo_keys 0 E = (\<lambda>s. Hang s)"
| "echo_keys (Suc n) E = bind read_char (\<lambda>r. case r of
     Some c \<Rightarrow> seq (serial_print E [c]) (echo_keys n E)
   | None \<Rightarrow> return ())"

text \<open>One pass of the loop up to the \<open>hlt\<close>: a frame is drawn when the frame number has changed.\<close>

definition draw_next_frame :: "bubble_layout \<Rightarrow> usize \<Rightarrow> usize \<Rightarrow> (unit, screen) prog" where
  "draw_next_frame l band0 band1 =
     bind ticks (\<lambda>t s. let frame = t div 12 in
       if frame \<noteq> last_frame s then
         run_all [
           (\<lambda>s. Ret () (s\<lparr>last_frame := frame\<rparr>)),
           on_back (draw l (unat (frame mod 3))),
           (\<lambda>s. on_fb (present_rows (surface s) band0 band1) s)] s
       else Ret () s)"

definition render_pass :: "env \<Rightarrow> bubble_layout \<Rightarrow> usize \<Rightarrow> usize \<Rightarrow> (unit, screen) prog" where
  "render_pass E l band0 band1 = run_all [echo_keys (fuel E) E, draw_next_frame l band0 band1, hlt E]"

primrec render_loop :: "nat \<Rightarrow> env \<Rightarrow> bubble_layout \<Rightarrow> usize \<Rightarrow> usize \<Rightarrow> ('a, screen) prog" where
  "render_loop 0 E l band0 band1 = (\<lambda>s. Hang s)"
| "render_loop (Suc n) E l band0 band1 = seq (render_pass E l band0 band1) (render_loop n E l band0 band1)"

text \<open>\<open>render::run\<close> never returns: \<open>n\<close> passes of its loop are observed.\<close>

definition render_prepare :: "(bubble_layout \<times> usize \<times> usize, screen) prog" where
  "render_prepare = (\<lambda>s. (let i = info (fb s) in
     bind (\<lambda>s. Ret () (s\<lparr>surface := canvas_new i\<rparr>)) (\<lambda>_.
     bind (on_back (canvas_clear HARDCORE_BLACK)) (\<lambda>_.
     bind (layout i) (\<lambda>l.
     bind (isize_val (l_cy l - l_r l)) (\<lambda>a.
     bind (isize_val (l_cy l + l_r l)) (\<lambda>b.
     bind (isize_val (as_isize (height i) - 1)) (\<lambda>ymax.
     bind (\<lambda>s. Ret () (s\<lparr>last_frame := - 1\<rparr>)) (\<lambda>_.
     return (l, as_usize (max a 0), as_usize (min b ymax)))))))))) s)"

definition render_run :: "env \<Rightarrow> nat \<Rightarrow> ('a, screen) prog" where
  "render_run E n = bind render_prepare (\<lambda>(l, band0, band1). render_loop n E l band0 band1)"

section \<open>Blending\<close>

lemma checked_run [run_simps]:
  "isize_val x s = (if - (2 ^ 63) \<le> x \<and> x < 2 ^ 63 then Ret x s else Panic ArithOverflow s)"
  "usize_sub n m s = (if m \<le> n then Ret (n - m) s else Panic ArithOverflow s)"
  by (simp_all add: isize_val_def usize_sub_def run_simps)

definition mixed :: "nat \<Rightarrow> nat \<Rightarrow> nat \<Rightarrow> nat" where
  "mixed opacity a b = (a * opacity + b * (255 - opacity)) div 255"

lemma mixed_between:
  assumes "op \<le> 255"
  shows "min a b \<le> mixed op a b" "mixed op a b \<le> max a b"
proof -
  have "min a b * 255 = min a b * op + min a b * (255 - op)"
    using assms by (simp add: add_mult_distrib2 [symmetric])
  also have "\<dots> \<le> a * op + b * (255 - op)" by (intro add_mono mult_le_mono1) simp_all
  finally show "min a b \<le> mixed op a b" by (simp add: mixed_def less_eq_div_iff_mult_less_eq)
  have "a * op + b * (255 - op) \<le> max a b * op + max a b * (255 - op)"
    by (intro add_mono mult_le_mono1) simp_all
  also have "\<dots> = max a b * 255"
    using assms by (simp add: add_mult_distrib2 [symmetric])
  finally have "a * op + b * (255 - op) \<le> max a b * 255" .
  then have "(a * op + b * (255 - op)) div 255 \<le> max a b * 255 div 255" by (rule div_le_mono)
  then show "mixed op a b \<le> max a b" by (simp add: mixed_def)
qed

lemma mixed_ends: "mixed 255 a b = a" "mixed 0 a b = b"
  by (simp_all add: mixed_def)

lemma mix_run:
  assumes "unat opacity \<le> 255"
  shows "mix opacity a b s = Ret (word_of_nat (mixed (unat opacity) (unat a) (unat b))) s"
    and "mixed (unat opacity) (unat a) (unat b) < 256"
proof -
  let ?o = "unat opacity"
  have lt: "unat a \<le> 255" "unat b \<le> 255"
    by (rule u8_le_255)+
  have le: "opacity \<le> 255" using assms by (simp add: word_le_nat_alt)
  have rest: "unat (255 - opacity) = 255 - ?o" using le by (simp add: unat_sub)
  have sum: "unat a * ?o + unat b * (255 - ?o) \<le> 255 * 255"
  proof -
    have "unat a * ?o + unat b * (255 - ?o) \<le> 255 * ?o + 255 * (255 - ?o)"
      using lt by (intro add_mono mult_le_mono1) simp_all
    then show ?thesis using assms by (simp add: diff_mult_distrib2)
  qed
  have ca: "unat (ucast a :: u16) = unat a" "unat (ucast b :: u16) = unat b"
    using lt by (simp_all add: unat_ucast)
  have m: "unat (ucast a * opacity :: u16) = unat a * ?o"
      "unat (ucast b * (255 - opacity) :: u16) = unat b * (255 - ?o)"
    using sum by (simp_all add: unat_word_ariths ca rest)
  have s: "unat (ucast a * opacity + ucast b * (255 - opacity) :: u16) = unat a * ?o + unat b * (255 - ?o)"
    using sum by (subst unat_word_ariths) (simp add: m)
  show lt256: "mixed ?o (unat a) (unat b) < 256"
    using mixed_between(2) [OF assms, of "unat a" "unat b"] lt by simp
  have "(ucast ((ucast a * opacity + ucast b * (255 - opacity)) div (255 :: u16)) :: u8) =
      word_of_nat (mixed ?o (unat a) (unat b))"
    using lt256 by (intro word_unat_eq_iff [THEN iffD2])
      (simp add: unat_ucast unat_div_distrib s unat_of_nat mixed_def)
  then show "mix opacity a b s = Ret (word_of_nat (mixed ?o (unat a) (unat b))) s"
    using sum by (simp add: mix_def run_simps ca m rest le)
qed

definition blended :: "rgb \<Rightarrow> rgb \<Rightarrow> nat \<Rightarrow> rgb" where
  "blended fg bg op = (case (fg, bg) of ((a, b, c), (x, y, z)) \<Rightarrow>
     (word_of_nat (mixed op (unat a) (unat x)), word_of_nat (mixed op (unat b) (unat y)),
      word_of_nat (mixed op (unat c) (unat z))))"

lemma blend_run: "unat op \<le> 255 \<Longrightarrow> blend fg bg op s = Ret (blended fg bg (unat op)) s"
  by (cases fg; cases bg) (simp add: blend_def blended_def run_simps mix_run)

text \<open>
  C23. Blending at an opacity of at most 255 returns, with no intermediate 16-bit overflow, the
  channel-wise value \<open>(fg * op + bg * (255 - op)) / 255\<close>, which fits a byte and lies between the
  background and the foreground; opacity 255 gives the foreground, opacity 0 the background. A
  larger opacity panics.
\<close>

theorem blend_exact:
  "(if unat op \<le> 255
    then (\<exists>r g b. blend (f1, f2, f3) (b1, b2, b3) op s = Ret (r, g, b) s \<and>
      (\<forall>(v, x, y) \<in> {(r, f1, b1), (g, f2, b2), (b, f3, b3)}.
         unat v = (unat x * unat op + unat y * (255 - unat op)) div 255 \<and>
         min (unat x) (unat y) \<le> unat v \<and> unat v \<le> max (unat x) (unat y)))
    else blend (f1, f2, f3) (b1, b2, b3) op s = Panic ArithOverflow s) \<and>
   blend c d 255 s = Ret c s \<and> blend c d 0 s = Ret d s"
proof (intro conjI)
  have v: "unat (word_of_nat (mixed (unat op) (unat x) (unat y)) :: u8) = mixed (unat op) (unat x) (unat y)"
    if "unat op \<le> 255" for x y :: u8
    using mix_run(2) [OF that, of x y] by (simp add: unat_of_nat)
  have big: "mix op x y t = Panic ArithOverflow t" if "\<not> unat op \<le> 255" for x y :: u8 and t :: 'a
    using that by (simp add: mix_def run_simps word_le_nat_alt)
  show "if unat op \<le> 255
    then (\<exists>r g b. blend (f1, f2, f3) (b1, b2, b3) op s = Ret (r, g, b) s \<and>
      (\<forall>(v, x, y) \<in> {(r, f1, b1), (g, f2, b2), (b, f3, b3)}.
         unat v = (unat x * unat op + unat y * (255 - unat op)) div 255 \<and>
         min (unat x) (unat y) \<le> unat v \<and> unat v \<le> max (unat x) (unat y)))
    else blend (f1, f2, f3) (b1, b2, b3) op s = Panic ArithOverflow s"
  proof (cases "unat op \<le> 255")
    case True
    show ?thesis
      unfolding if_P [OF True] blend_run [OF True] blended_def prod.case
      by (intro exI conjI, rule refl)
        (use v [OF True] mixed_between [OF True] in \<open>auto simp: mixed_def simp del: min_less_iff_conj\<close>)
  next
    case False
    then show ?thesis by (simp add: blend_def run_simps big)
  qed
  show "blend c d 255 s = Ret c s" "blend c d 0 s = Ret d s"
    by (cases c; cases d; simp add: blend_run blended_def mixed_ends)+
qed

theorem blend_exact_witness:
  "\<exists>r g b. blend BUILD_ACID HARDCORE_BLACK 153 () = Ret (r, g, b) () \<and>
     unat r = 134 \<and> unat g = 158 \<and> unat b = 44"
  using blend_exact [of 153 "0xD6" "0xFF" "0x3F" "0x0E" "0x0E" "0x10" "()" "(0, 0, 0)" "(0, 0, 0)"]
  by (auto simp: BUILD_ACID_def HARDCORE_BLACK_def)

section \<open>Discs\<close>

definition in_disc :: "int \<Rightarrow> int \<Rightarrow> int \<Rightarrow> int \<Rightarrow> int \<Rightarrow> bool" where
  "in_disc cx cy r x y \<longleftrightarrow> (x - cx) * (x - cx) + (y - cy) * (y - cy) \<le> r * r"

text \<open>
  A canvas whose rows fit its buffer and whose sides are at most \<open>2 ^ 29\<close>, far beyond any
  display: within these bounds no \<open>isize\<close> or \<open>usize\<close> operation overflows.
\<close>

definition canvas_ok :: "canvas \<Rightarrow> bool" where
  "canvas_ok c \<longleftrightarrow> pixel_need (c_fmt c) \<le> c_bpp c \<and> c_w c \<le> c_stride c \<and>
     c_stride c * c_h c * c_bpp c \<le> length (c_buf c) \<and> length (c_buf c) < 2 ^ 63 \<and>
     c_w c \<le> 2 ^ 29 \<and> c_h c \<le> 2 ^ 29"

lemma in_disc_box:
  assumes "in_disc cx cy r x y" and "0 \<le> r"
  shows "cx - r \<le> x" "x \<le> cx + r" "cy - r \<le> y" "y \<le> cy + r"
proof -
  have "(x - cx)\<^sup>2 \<le> r\<^sup>2" "(y - cy)\<^sup>2 \<le> r\<^sup>2"
    using assms(1) zero_le_square [of "x - cx"] zero_le_square [of "y - cy"]
    unfolding in_disc_def power2_eq_square by linarith+
  then have "\<bar>x - cx\<bar> \<le> r" "\<bar>y - cy\<bar> \<le> r"
    using assms(2) by (simp_all add: abs_le_square_iff [symmetric])
  then show "cx - r \<le> x" "x \<le> cx + r" "cy - r \<le> y" "y \<le> cy + r" by linarith+
qed

lemma square_bound:
  fixes a :: int
  assumes "\<bar>a\<bar> \<le> 2 ^ 30"
  shows "0 \<le> a * a" "a * a \<le> 2 ^ 60"
proof -
  show "0 \<le> a * a" by simp
  have "\<bar>a\<bar> * \<bar>a\<bar> \<le> 2 ^ 30 * 2 ^ 30" using assms by (intro mult_mono) simp_all
  then show "a * a \<le> 2 ^ 60" by simp
qed

lemma isize_return: "\<bar>x\<bar> < 2 ^ 63 \<Longrightarrow> isize_val x = return x"
  by (auto simp: isize_val_def)

lemma as_isize_small: "n \<le> 2 ^ 29 \<Longrightarrow> as_isize n = int n"
  by (simp add: as_isize_def)

lemma as_usize_int: "n < 2 ^ 63 \<Longrightarrow> as_usize (int n) = n"
  by (simp add: as_usize_def)

lemma canvas_pixel_fits:
  assumes "canvas_ok c" and "x < c_w c" and "y < c_h c"
  shows "holds_pixel (c_bpp c) (c_buf c) (y * c_stride c + x)"
    and "(y * c_stride c + x) * c_bpp c + c_bpp c < 2 ^ 63"
proof -
  have "Suc y * c_stride c \<le> c_h c * c_stride c" using assms(3) by (intro mult_le_mono1) simp
  then have "y * c_stride c + x + 1 \<le> c_stride c * c_h c"
    using assms by (simp add: canvas_ok_def mult.commute)
  then have "(y * c_stride c + x + 1) * c_bpp c \<le> c_stride c * c_h c * c_bpp c" by (rule mult_le_mono1)
  then show "holds_pixel (c_bpp c) (c_buf c) (y * c_stride c + x)"
    using assms by (simp add: holds_pixel_def canvas_ok_def add_mult_distrib)
  then show "(y * c_stride c + x) * c_bpp c + c_bpp c < 2 ^ 63"
    using assms by (simp add: holds_pixel_def canvas_ok_def)
qed

abbreviation plot_at :: "canvas \<Rightarrow> rgb \<Rightarrow> nat \<Rightarrow> (unit, canvas) prog" where
  "plot_at c rgb p \<equiv> on_buf (on_slice (p * c_bpp c) (c_bpp c) (write_pixel (c_fmt c) rgb))"

lemma circle_point_eq:
  assumes "canvas_ok c" and "x < c_w c" and "y < c_h c" and "\<bar>cx\<bar> \<le> 2 ^ 29" and "\<bar>cy\<bar> \<le> 2 ^ 29"
  shows "circle_point (c_stride c) (c_bpp c) (c_fmt c) rgb cx (r * r) (int y - cy) (int y) (int x) =
    (if in_disc cx cy r (int x) (int y) then plot_at c rgb (y * c_stride c + x) else return ())"
proof -
  have wh: "c_w c \<le> 2 ^ 29" "c_h c \<le> 2 ^ 29" "0 < c_bpp c"
    using assms(1) by (cases "c_fmt c"; simp add: canvas_ok_def)+
  have d: "\<bar>int x - cx\<bar> \<le> 2 ^ 30" "\<bar>int y - cy\<bar> \<le> 2 ^ 30"
    using assms(2-5) wh by auto
  note sq = square_bound [OF d(1)] square_bound [OF d(2)]
  have i: "isize_val (int x - cx) = return (int x - cx)"
      "isize_val ((int x - cx) * (int x - cx)) = return ((int x - cx) * (int x - cx))"
      "isize_val ((int y - cy) * (int y - cy)) = return ((int y - cy) * (int y - cy))"
      "isize_val ((int x - cx) * (int x - cx) + (int y - cy) * (int y - cy)) =
         return ((int x - cx) * (int x - cx) + (int y - cy) * (int y - cy))"
    using d sq by (auto intro!: isize_return)
  let ?p = "y * c_stride c + x"
  have off: "?p * c_bpp c + c_bpp c < 2 ^ 63" by (rule canvas_pixel_fits [OF assms(1-3)])
  have "?p * 1 \<le> ?p * c_bpp c" using wh(3) by (intro mult_le_mono2) simp
  then have p: "?p < 2 ^ 63" using off unfolding mult_1_right by linarith
  have u: "as_usize (int y) = y" "as_usize (int x) = x"
    by (rule as_usize_int; use wh assms(2,3) in simp)+
  have v: "usize_val (y * c_stride c) = return (y * c_stride c)" "usize_val ?p = return ?p"
      "usize_val (?p * c_bpp c) = return (?p * c_bpp c)"
      "usize_val (?p * c_bpp c + c_bpp c) = return (?p * c_bpp c + c_bpp c)"
    using p off by (simp_all add: usize_val_def)
  show ?thesis
    unfolding circle_point_def by (simp only: i u v return_bind seq_return in_disc_def)
qed

lemma for_each_on_buf: "for_each ps (\<lambda>p. on_buf (m p)) c = on_buf (for_each ps m) c"
proof (induction ps arbitrary: c)
  case Nil
  show ?case by (simp add: on_buf_def run_simps)
next
  case (Cons p ps)
  then show ?case by (simp add: run_simps) (simp add: on_buf_def run_simps split: outcome.splits)
qed

text \<open>The pixels of a disc, in the order they are written.\<close>

definition disc_row :: "canvas \<Rightarrow> int \<Rightarrow> int \<Rightarrow> int \<Rightarrow> int \<Rightarrow> nat list" where
  "disc_row c cx cy r y = map (\<lambda>x. nat y * c_stride c + nat x)
     (filter (\<lambda>x. in_disc cx cy r x y) [max (cx - r) 0..min (cx + r) (int (c_w c) - 1)])"

definition disc_pixels :: "canvas \<Rightarrow> int \<Rightarrow> int \<Rightarrow> int \<Rightarrow> nat list" where
  "disc_pixels c cx cy r =
     concat (map (disc_row c cx cy r) [max (cy - r) 0..min (cy + r) (int (c_h c) - 1)])"

lemma circle_row_eq:
  assumes "canvas_ok c" and "0 \<le> y" and "y < int (c_h c)" and "\<bar>cx\<bar> \<le> 2 ^ 29" and "\<bar>cy\<bar> \<le> 2 ^ 29"
    and "0 \<le> r" "r \<le> 2 ^ 29"
  shows "circle_row (c_stride c) (c_bpp c) (c_fmt c) rgb (int (c_w c)) cx cy r (r * r) y =
    for_each (disc_row c cx cy r y) (plot_at c rgb)"
proof -
  have wh: "c_w c \<le> 2 ^ 29" "c_h c \<le> 2 ^ 29" using assms(1) by (simp_all add: canvas_ok_def)
  have i: "isize_val (y - cy) = return (y - cy)" "isize_val (cx - r) = return (cx - r)"
      "isize_val (cx + r) = return (cx + r)" "isize_val (int (c_w c) - 1) = return (int (c_w c) - 1)"
    using assms wh by (auto intro!: isize_return)
  have point: "circle_point (c_stride c) (c_bpp c) (c_fmt c) rgb cx (r * r) (y - cy) y x =
      (if in_disc cx cy r x y then plot_at c rgb (nat y * c_stride c + nat x) else return ())"
    if "x \<in> set [max (cx - r) 0..min (cx + r) (int (c_w c) - 1)]" for x
    using that circle_point_eq [OF assms(1) _ _ assms(4,5), of "nat x" "nat y" rgb r] assms(2,3)
    by (simp add: nat_less_iff)
  show ?thesis
    unfolding circle_row_def disc_row_def
    by (simp only: i return_bind for_each_cong [OF point] for_each_filter for_each_map)
qed

lemma fill_circle_eq:
  assumes "canvas_ok c" and "\<bar>cx\<bar> \<le> 2 ^ 29" and "\<bar>cy\<bar> \<le> 2 ^ 29" and "0 \<le> r" "r \<le> 2 ^ 29"
  shows "fill_circle cx cy r rgb c = for_each (disc_pixels c cx cy r) (plot_at c rgb) c"
proof -
  have wh: "c_w c \<le> 2 ^ 29" "c_h c \<le> 2 ^ 29" using assms(1) by (simp_all add: canvas_ok_def)
  have sq: "r * r \<le> 2 ^ 60" "0 \<le> r * r" using square_bound [of r] assms(4,5) by simp_all
  have i: "isize_val (r * r) = return (r * r)" "isize_val (cy - r) = return (cy - r)"
      "isize_val (cy + r) = return (cy + r)" "isize_val (int (c_h c) - 1) = return (int (c_h c) - 1)"
    using assms wh sq by (auto intro!: isize_return)
  have row: "circle_row (c_stride c) (c_bpp c) (c_fmt c) rgb (int (c_w c)) cx cy r (r * r) y =
      for_each (disc_row c cx cy r y) (plot_at c rgb)"
    if "y \<in> set [max (cy - r) 0..min (cy + r) (int (c_h c) - 1)]" for y
    by (rule circle_row_eq) (use that assms in auto)
  have cat: "for_each ys (\<lambda>y. for_each (f y) g) = for_each (concat (map f ys)) g"
    for ys :: "int list" and f :: "int \<Rightarrow> nat list" and g :: "nat \<Rightarrow> (unit, canvas) prog"
    by (induction ys) (simp_all add: for_each_append)
  show ?thesis
    unfolding fill_circle_def disc_pixels_def Let_def
    by (simp only: as_isize_small [OF wh(1)] as_isize_small [OF wh(2)] i return_bind
        for_each_cong [OF row] cat)
qed

lemma set_disc_pixels:
  assumes "0 \<le> r"
  shows "set (disc_pixels c cx cy r) =
    {y * c_stride c + x | x y. x < c_w c \<and> y < c_h c \<and> in_disc cx cy r (int x) (int y)}" (is "?L = ?R")
proof
  show "?L \<subseteq> ?R"
  proof
    fix p assume "p \<in> ?L"
    then obtain x y where "0 \<le> x" "x < int (c_w c)" "0 \<le> y" "y < int (c_h c)"
      "in_disc cx cy r x y" "p = nat y * c_stride c + nat x"
      by (auto simp: disc_pixels_def disc_row_def)
    then show "p \<in> ?R"
      unfolding mem_Collect_eq by - (rule exI [of _ "nat x"], rule exI [of _ "nat y"], simp add: nat_less_iff)
  qed
  show "?R \<subseteq> ?L"
  proof
    fix p assume "p \<in> ?R"
    then obtain x y where xy: "x < c_w c" "y < c_h c" "in_disc cx cy r (int x) (int y)"
      "p = y * c_stride c + x" by blast
    have "int x \<in> set (filter (\<lambda>x. in_disc cx cy r x (int y)) [max (cx - r) 0..min (cx + r) (int (c_w c) - 1)])"
      using in_disc_box [OF xy(3) assms] xy by simp
    then have "p \<in> set (disc_row c cx cy r (int y))"
      unfolding disc_row_def set_map by (rule rev_image_eqI) (simp add: xy(4))
    moreover have "int y \<in> set [max (cy - r) 0..min (cy + r) (int (c_h c) - 1)]"
      using in_disc_box [OF xy(3) assms] xy by simp
    ultimately show "p \<in> ?L" unfolding disc_pixels_def set_concat set_map by blast
  qed
qed

lemma fill_circle_pixels:
  assumes "canvas_ok c" and "\<bar>cx\<bar> \<le> 2 ^ 29" and "\<bar>cy\<bar> \<le> 2 ^ 29" and "0 \<le> r" and "r \<le> 2 ^ 29"
  shows "\<exists>b. fill_circle cx cy r rgb c = Ret () (c\<lparr>c_buf := b\<rparr>) \<and> length b = length (c_buf c) \<and>
    (\<forall>p. pixel (c_bpp c) b p =
      (if \<exists>x y. x < c_w c \<and> y < c_h c \<and> p = y * c_stride c + x \<and> in_disc cx cy r (int x) (int y)
       then paint (c_fmt c) rgb (pixel (c_bpp c) (c_buf c) p) else pixel (c_bpp c) (c_buf c) p))"
proof -
  note set = set_disc_pixels [OF assms(4), of c cx cy]
  have "list_all (holds_pixel (c_bpp c) (c_buf c)) (disc_pixels c cx cy r)"
    using canvas_pixel_fits(1) [OF assms(1)] by (auto simp: list_all_iff set)
  moreover have "pixel_need (c_fmt c) \<le> c_bpp c" using assms(1) by (simp add: canvas_ok_def)
  ultimately obtain b where
    b: "for_each (disc_pixels c cx cy r)
         (\<lambda>p. on_slice (p * c_bpp c) (c_bpp c) (write_pixel (c_fmt c) rgb)) (c_buf c) = Ret () b"
      "length b = length (c_buf c)"
      "\<And>q. pixel (c_bpp c) b q = (if q \<in> set (disc_pixels c cx cy r)
         then paint (c_fmt c) rgb (pixel (c_bpp c) (c_buf c) q) else pixel (c_bpp c) (c_buf c) q)"
    using for_each_write_pixel [of "c_fmt c" "c_bpp c" "c_buf c" "disc_pixels c cx cy r" rgb] by blast
  have "fill_circle cx cy r rgb c = Ret () (c\<lparr>c_buf := b\<rparr>)"
    unfolding fill_circle_eq [OF assms] for_each_on_buf by (simp add: on_buf_def b(1))
  moreover have "p \<in> set (disc_pixels c cx cy r) \<longleftrightarrow>
      (\<exists>x y. x < c_w c \<and> y < c_h c \<and> p = y * c_stride c + x \<and> in_disc cx cy r (int x) (int y))" for p
    unfolding set by blast
  ultimately show ?thesis using b(2,3) by (intro exI [of _ b]) simp
qed

text \<open>
  C22. Drawing a disc on a canvas whose rows fit its buffer returns: no index is out of bounds
  and no address computation overflows. Exactly the pixels \<open>(x, y)\<close> of the visible area whose
  distance from the centre is at most the radius are painted; every other pixel, the invisible
  ends of the rows included, and the rest of the canvas are unchanged. The centre may lie
  outside the screen.
\<close>

theorem fill_circle_correct:
  assumes "canvas_ok c" and "\<bar>cx\<bar> \<le> 2 ^ 29" and "\<bar>cy\<bar> \<le> 2 ^ 29" and "0 \<le> r" and "r \<le> 2 ^ 29"
  shows "\<exists>b. fill_circle cx cy r rgb c = Ret () (c\<lparr>c_buf := b\<rparr>) \<and> length b = length (c_buf c) \<and>
    (\<forall>p. pixel (c_bpp c) b p =
      (if \<exists>x y. x < c_w c \<and> y < c_h c \<and> p = y * c_stride c + x \<and>
          (int x - cx)\<^sup>2 + (int y - cy)\<^sup>2 \<le> r\<^sup>2
       then paint (c_fmt c) rgb (pixel (c_bpp c) (c_buf c) p) else pixel (c_bpp c) (c_buf c) p))"
  by (rule fill_circle_pixels [OF assms, unfolded in_disc_def, folded power2_eq_square])

definition demo_canvas :: canvas where
  "demo_canvas = \<lparr>c_buf = replicate 36 0, c_w = 3, c_h = 3, c_stride = 4, c_bpp = 3, c_fmt = Rgb\<rparr>"

lemma demo_canvas_simps [simp]:
  "c_buf demo_canvas = replicate 36 0" "c_w demo_canvas = 3" "c_h demo_canvas = 3"
  "c_stride demo_canvas = 4" "c_bpp demo_canvas = 3" "c_fmt demo_canvas = Rgb"
  by (simp_all add: demo_canvas_def)

theorem fill_circle_correct_witness:
  "\<exists>b. fill_circle 2 2 1 NOVA_WHITE demo_canvas = Ret () (demo_canvas\<lparr>c_buf := b\<rparr>) \<and>
     pixel 3 b 6 = [0xF5, 0xF1, 0xEA] \<and> pixel 3 b 5 = [0, 0, 0] \<and> pixel 3 b 11 = [0, 0, 0]"
proof -
  have ok: "canvas_ok demo_canvas" by (simp add: canvas_ok_def)
  let ?in = "\<lambda>p. \<exists>x y. x < 3 \<and> y < 3 \<and> p = y * 4 + x \<and> (int x - 2)\<^sup>2 + (int y - 2)\<^sup>2 \<le> 1"
  have "\<exists>b. fill_circle 2 2 1 NOVA_WHITE demo_canvas = Ret () (demo_canvas\<lparr>c_buf := b\<rparr>) \<and>
      length b = length (replicate 36 (0 :: u8)) \<and>
      (\<forall>p. pixel 3 b p = (if ?in p then paint Rgb NOVA_WHITE (pixel 3 (replicate 36 0) p)
         else pixel 3 (replicate 36 0) p))"
    using fill_circle_correct [OF ok, of 2 2 1 NOVA_WHITE] by (simp only: demo_canvas_simps) simp
  then obtain b where b: "fill_circle 2 2 1 NOVA_WHITE demo_canvas = Ret () (demo_canvas\<lparr>c_buf := b\<rparr>)"
    "\<And>p. pixel 3 b p = (if ?in p then paint Rgb NOVA_WHITE (pixel 3 (replicate 36 0) p)
         else pixel 3 (replicate 36 0) p)" by blast
  have px: "pixel 3 (replicate 36 0) p = [0, 0, 0 :: u8]" if "p < 12" for p
    using that by (simp add: pixel_def min_def numeral_3_eq_3)
  have 6: "?in 6"
    by (rule exI [of _ 2], rule exI [of _ 1]) simp
  have 5: "\<not> ?in 5"
  proof clarify
    fix x y :: nat
    assume a: "x < 3" "5 = y * 4 + x" "(int x - 2)\<^sup>2 + (int y - 2)\<^sup>2 \<le> 1"
    then have "x = 1" "y = 1" by presburger+
    with a show False by simp
  qed
  have 11: "\<not> ?in 11" by presburger
  have "pixel 3 b 6 = [0xF5, 0xF1, 0xEA]" "pixel 3 b 5 = [0, 0, 0]" "pixel 3 b 11 = [0, 0, 0]"
    unfolding b(2) if_P [OF 6] if_not_P [OF 5] if_not_P [OF 11] by (simp_all add: px NOVA_WHITE_def)
  with b(1) show ?thesis by blast
qed

section \<open>Layout\<close>

definition layout_of :: "framebuffer_info \<Rightarrow> bubble_layout" where
  "layout_of i = (let r = int (height i) div 12; gap = r * 13 div 5; cx = int (width i) div 2 in
     \<lparr>centers = [cx - gap, cx, cx + gap], l_cy = int (height i) div 2, l_r = r\<rparr>)"

lemma sdiv_nonneg: "0 \<le> x \<Longrightarrow> 0 < y \<Longrightarrow> x sdiv y = x div y" for x y :: int
  by (cases "x = 0") (simp_all add: signed_divide_int_def sgn_if)

lemma layout_bounds:
  assumes "width i \<le> 2 ^ 29" and "height i \<le> 2 ^ 29"
  shows "0 \<le> int (height i) div 12" "int (height i) div 12 \<le> 2 ^ 26"
    "0 \<le> int (height i) div 12 * 13 div 5" "int (height i) div 12 * 13 div 5 \<le> 2 ^ 28"
    "0 \<le> int (width i) div 2" "int (width i) div 2 \<le> 2 ^ 28"
proof -
  have h: "int (height i) \<le> 2 ^ 29" and w: "int (width i) \<le> 2 ^ 29" using assms by simp_all
  show r0: "0 \<le> int (height i) div 12" and "0 \<le> int (width i) div 2"
    by (simp_all add: pos_imp_zdiv_nonneg_iff)
  from zdiv_mono1 [OF h, of 12] show r: "int (height i) div 12 \<le> 2 ^ 26" by simp
  from zdiv_mono1 [OF w, of 2] show "int (width i) div 2 \<le> 2 ^ 28" by simp
  from r0 show "0 \<le> int (height i) div 12 * 13 div 5"
    by (simp only: pos_imp_zdiv_nonneg_iff) simp
  have "int (height i) div 12 * 13 \<le> 2 ^ 26 * 13" using r by (intro mult_right_mono) simp_all
  from zdiv_mono1 [OF this, of 5] show "int (height i) div 12 * 13 div 5 \<le> 2 ^ 28" by simp
qed

lemma layout_run:
  assumes "width i \<le> 2 ^ 29" and "height i \<le> 2 ^ 29"
  shows "layout i s = Ret (layout_of i) s"
proof -
  define r where "r = int (height i) div 12"
  define g where "g = r * 13 div 5"
  define cx where "cx = int (width i) div 2"
  note b = layout_bounds [OF assms, folded r_def, folded g_def cx_def]
  have i: "isize_val (r * 13) = return (r * 13)" "isize_val (cx - g) = return (cx - g)"
      "isize_val (cx + g) = return (cx + g)"
    using b by (simp_all add: isize_return)
  have s: "as_isize (width i) sdiv 2 = cx" "as_isize (height i) sdiv 12 = r" "r * 13 sdiv 5 = g"
    unfolding as_isize_small [OF assms(1)] as_isize_small [OF assms(2)] r_def g_def cx_def
    using b(1) unfolding r_def by (intro sdiv_nonneg; simp)+
  have "as_isize (height i) sdiv 2 = int (height i) div 2"
    unfolding as_isize_small [OF assms(2)] by (intro sdiv_nonneg) simp_all
  then show ?thesis
    unfolding layout_def layout_of_def Let_def s i return_bind r_def [symmetric] g_def [symmetric] cx_def [symmetric]
    by (simp only: return_run)
qed

text \<open>Which bubble covers a point, and the colour the picture has there.\<close>

abbreviation in_bubble :: "bubble_layout \<Rightarrow> nat \<Rightarrow> int \<Rightarrow> int \<Rightarrow> bool" where
  "in_bubble l i x y \<equiv> in_disc (centers l ! i) (l_cy l) (l_r l) x y"

definition bubble_rgb :: "nat \<Rightarrow> nat \<Rightarrow> rgb" where
  "bubble_rgb lead i = blended BUILD_ACID HARDCORE_BLACK (unat (STAGGER ! ((3 + i - lead) mod 3)))"

definition picture :: "bubble_layout \<Rightarrow> nat \<Rightarrow> int \<Rightarrow> int \<Rightarrow> rgb" where
  "picture l lead x y =
     (if in_bubble l 0 x y then bubble_rgb lead 0
      else if in_bubble l 1 x y then bubble_rgb lead 1
      else if in_bubble l 2 x y then bubble_rgb lead 2
      else HARDCORE_BLACK)"

lemma bubbles_disjoint:
  assumes "24 \<le> height i" and "in_bubble (layout_of i) j x y" and "in_bubble (layout_of i) k x y"
    and "j < 3" and "k < 3"
  shows "j = k"
proof -
  define r where "r = int (height i) div 12"
  define g where "g = r * 13 div 5"
  define cx where "cx = int (width i) div 2"
  have l: "l_r (layout_of i) = r" "centers (layout_of i) = [cx - g, cx, cx + g]"
    by (simp_all only: layout_of_def Let_def r_def g_def cx_def bubble_layout.simps)
  have "24 \<le> int (height i)" using assms(1) by simp
  from zdiv_mono1 [OF this, of 12] have r: "2 \<le> r" by (simp add: r_def)
  have "(2 * r + 1) * 5 div 5 \<le> g" unfolding g_def by (rule zdiv_mono1) (use r in simp_all)
  then have gap: "2 * r + 1 \<le> g" by (simp only: nonzero_mult_div_cancel_right)
  have box: "[cx - g, cx, cx + g] ! j - r \<le> x" "x \<le> [cx - g, cx, cx + g] ! j + r"
      "[cx - g, cx, cx + g] ! k - r \<le> x" "x \<le> [cx - g, cx, cx + g] ! k + r"
    using in_disc_box [OF assms(2)] in_disc_box [OF assms(3)] r by (simp_all add: l)
  have "j = 0 \<or> j = 1 \<or> j = 2" "k = 0 \<or> k = 1 \<or> k = 2" using assms(4,5) by linarith+
  then show ?thesis
    using box gap r by (elim disjE) simp_all
qed

section \<open>The picture on a canvas\<close>

text \<open>A pixel shows a colour; the visible pixels of a buffer show a picture.\<close>

definition shows_color :: "pixel_format \<Rightarrow> rgb \<Rightarrow> u8 list \<Rightarrow> bool" where
  "shows_color fmt rgb px \<longleftrightarrow> paint fmt rgb px = px"

definition shows_picture :: "canvas \<Rightarrow> u8 list \<Rightarrow> (int \<Rightarrow> int \<Rightarrow> rgb) \<Rightarrow> bool" where
  "shows_picture c b f \<longleftrightarrow> (\<forall>x y. x < c_w c \<longrightarrow> y < c_h c \<longrightarrow>
     shows_color (c_fmt c) (f (int x) (int y)) (pixel (c_bpp c) b (y * c_stride c + x)))"

definition background :: "canvas \<Rightarrow> bubble_layout \<Rightarrow> u8 list \<Rightarrow> bool" where
  "background c l b \<longleftrightarrow> (\<forall>x y. x < c_w c \<longrightarrow> y < c_h c \<longrightarrow>
     \<not> in_bubble l 0 (int x) (int y) \<longrightarrow> \<not> in_bubble l 1 (int x) (int y) \<longrightarrow> \<not> in_bubble l 2 (int x) (int y) \<longrightarrow>
     shows_color (c_fmt c) HARDCORE_BLACK (pixel (c_bpp c) b (y * c_stride c + x)))"

lemma shows_paint [simp]: "shows_color fmt rgb (paint fmt rgb px)"
  by (simp add: shows_color_def paint_idem)

lemma picture_background: "shows_picture c b (picture l lead) \<Longrightarrow> background c l b"
  unfolding background_def
proof (intro allI impI)
  fix x y
  assume "shows_picture c b (picture l lead)" "x < c_w c" "y < c_h c"
    and n: "\<not> in_bubble l 0 (int x) (int y)" "\<not> in_bubble l 1 (int x) (int y)" "\<not> in_bubble l 2 (int x) (int y)"
  then have "shows_color (c_fmt c) (picture l lead (int x) (int y)) (pixel (c_bpp c) b (y * c_stride c + x))"
    unfolding shows_picture_def by blast
  moreover have "picture l lead (int x) (int y) = HARDCORE_BLACK"
    unfolding picture_def using n by (simp only: if_False)
  ultimately show "shows_color (c_fmt c) HARDCORE_BLACK (pixel (c_bpp c) b (y * c_stride c + x))" by simp
qed

lemma fill_circle_at:
  assumes "canvas_ok c" and "\<bar>cx\<bar> \<le> 2 ^ 29" and "\<bar>cy\<bar> \<le> 2 ^ 29" and "0 \<le> r" and "r \<le> 2 ^ 29"
  shows "\<exists>b. fill_circle cx cy r rgb c = Ret () (c\<lparr>c_buf := b\<rparr>) \<and> canvas_ok (c\<lparr>c_buf := b\<rparr>) \<and>
    length b = length (c_buf c) \<and>
    (\<forall>x y. x < c_w c \<longrightarrow> y < c_h c \<longrightarrow> pixel (c_bpp c) b (y * c_stride c + x) =
      (if in_disc cx cy r (int x) (int y) then paint (c_fmt c) rgb (pixel (c_bpp c) (c_buf c) (y * c_stride c + x))
       else pixel (c_bpp c) (c_buf c) (y * c_stride c + x)))"
proof -
  obtain b where b: "fill_circle cx cy r rgb c = Ret () (c\<lparr>c_buf := b\<rparr>)" "length b = length (c_buf c)"
    "\<And>p. pixel (c_bpp c) b p =
      (if \<exists>x y. x < c_w c \<and> y < c_h c \<and> p = y * c_stride c + x \<and> in_disc cx cy r (int x) (int y)
       then paint (c_fmt c) rgb (pixel (c_bpp c) (c_buf c) p) else pixel (c_bpp c) (c_buf c) p)"
    using fill_circle_pixels [OF assms, of rgb] by blast
  have st: "c_w c \<le> c_stride c" using assms(1) by (simp add: canvas_ok_def)
  have "(\<exists>x' y'. x' < c_w c \<and> y' < c_h c \<and> y * c_stride c + x = y' * c_stride c + x' \<and>
      in_disc cx cy r (int x') (int y')) \<longleftrightarrow> in_disc cx cy r (int x) (int y)"
    if "x < c_w c" "y < c_h c" for x y
    using that st radix_unique [of y "c_stride c" x] by (metis order_less_le_trans)
  moreover have "canvas_ok (c\<lparr>c_buf := b\<rparr>)" using assms(1) b(2) by (simp add: canvas_ok_def)
  ultimately show ?thesis using b by (intro exI [of _ b]) simp
qed

text \<open>A layout whose bubbles are small and do not meet.\<close>

definition layout_ok :: "bubble_layout \<Rightarrow> bool" where
  "layout_ok l \<longleftrightarrow> (\<exists>a b c. centers l = [a, b, c] \<and> \<bar>a\<bar> \<le> 2 ^ 29 \<and> \<bar>b\<bar> \<le> 2 ^ 29 \<and> \<bar>c\<bar> \<le> 2 ^ 29) \<and>
     \<bar>l_cy l\<bar> \<le> 2 ^ 29 \<and> 0 \<le> l_r l \<and> l_r l \<le> 2 ^ 29 \<and>
     (\<forall>j k x y. j < 3 \<longrightarrow> k < 3 \<longrightarrow> in_bubble l j x y \<longrightarrow> in_bubble l k x y \<longrightarrow> j = k)"

lemma layout_of_ok:
  assumes "width i \<le> 2 ^ 29" and "height i \<le> 2 ^ 29" and "24 \<le> height i"
  shows "layout_ok (layout_of i)"
proof -
  define r where "r = int (height i) div 12"
  define g where "g = r * 13 div 5"
  define cx where "cx = int (width i) div 2"
  note b = layout_bounds [OF assms(1,2), folded r_def, folded g_def cx_def]
  have l: "layout_of i = \<lparr>centers = [cx - g, cx, cx + g], l_cy = int (height i) div 2, l_r = r\<rparr>"
    by (simp only: layout_of_def Let_def r_def g_def cx_def)
  have "int (height i) \<le> 2 ^ 29" using assms(2) by simp
  from zdiv_mono1 [OF this, of 2] have "0 \<le> int (height i) div 2" "int (height i) div 2 \<le> 2 ^ 28"
    by (simp_all add: pos_imp_zdiv_nonneg_iff)
  then have cy: "\<bar>l_cy (layout_of i)\<bar> \<le> 2 ^ 29" by (simp add: l)
  show ?thesis
    unfolding layout_ok_def
    using bubbles_disjoint [OF assms(3)] cy b by (auto simp: l)
qed

lemma bubble_rgb_run:
  assumes "i < 3" and "lead < 3"
  shows "bind (usize_sub (3 + i) lead) (\<lambda>d. bind (blend BUILD_ACID HARDCORE_BLACK (STAGGER ! (d mod 3))) k) =
    k (bubble_rgb lead i)"
proof (rule ext)
  fix s
  have "unat (STAGGER ! ((3 + i - lead) mod 3)) \<le> 255"
  proof -
    have "(3 + i - lead) mod 3 < 3" by simp
    then have "(3 + i - lead) mod 3 = 0 \<or> (3 + i - lead) mod 3 = 1 \<or> (3 + i - lead) mod 3 = 2" by linarith
    then show ?thesis by (elim disjE) (simp_all only: STAGGER_def, simp_all)
  qed
  then show "bind (usize_sub (3 + i) lead) (\<lambda>d. bind (blend BUILD_ACID HARDCORE_BLACK (STAGGER ! (d mod 3))) k) s =
      k (bubble_rgb lead i) s"
    using assms by (simp add: run_simps blend_run bubble_rgb_def)
qed

lemma draw_eq:
  assumes "centers l = [a, b, c]" and "lead < 3"
  shows "draw l lead = run_all [fill_circle a (l_cy l) (l_r l) (bubble_rgb lead 0),
     fill_circle b (l_cy l) (l_r l) (bubble_rgb lead 1), fill_circle c (l_cy l) (l_r l) (bubble_rgb lead 2)]"
proof -
  have e: "enumerate 0 [a, b, c] = [(0, a), (1, b), (2, c)]" by (simp add: numeral_2_eq_2)
  have k: "(0 :: nat) < 3" "(1 :: nat) < 3" "(2 :: nat) < 3" by simp_all
  show ?thesis
    unfolding draw_def assms(1) e
    by (simp only: for_each.simps run_all.simps prod.case bubble_rgb_run [OF k(1) assms(2)]
        bubble_rgb_run [OF k(2) assms(2)] bubble_rgb_run [OF k(3) assms(2)])
qed

text \<open>The discs of a layout do not overlap, so painting them one after the other gives the picture.\<close>

lemma three_discs:
  fixes lead :: nat
  assumes "layout_ok l" and "(\<And>k. k < 3 \<Longrightarrow> \<not> in_bubble l k u v) \<Longrightarrow> shows_color f HARDCORE_BLACK px"
  defines "disc \<equiv> \<lambda>k p. if in_bubble l k u v then paint f (bubble_rgb lead k) p else p"
  shows "shows_color f (picture l lead u v) (disc 2 (disc 1 (disc 0 px)))"
proof -
  have d: "j < 3 \<Longrightarrow> k < 3 \<Longrightarrow> in_bubble l j u v \<Longrightarrow> in_bubble l k u v \<Longrightarrow> j = k" for j k
    using assms(1) unfolding layout_ok_def by blast
  have disj: "\<not> (in_bubble l 0 u v \<and> in_bubble l 1 u v)" "\<not> (in_bubble l 0 u v \<and> in_bubble l 2 u v)"
      "\<not> (in_bubble l 1 u v \<and> in_bubble l 2 u v)"
    using d [of 0 1] d [of 0 2] d [of 1 2] by auto
  have "k = 0 \<or> k = 1 \<or> k = 2" if "k < 3" for k :: nat using that by linarith
  then have bg: "\<not> in_bubble l 0 u v \<Longrightarrow> \<not> in_bubble l 1 u v \<Longrightarrow> \<not> in_bubble l 2 u v \<Longrightarrow> shows_color f HARDCORE_BLACK px"
    using assms(2) by metis
  consider (0) "in_bubble l 0 u v" | (1) "in_bubble l 1 u v" "\<not> in_bubble l 0 u v"
    | (2) "in_bubble l 2 u v" "\<not> in_bubble l 1 u v" "\<not> in_bubble l 0 u v"
    | (none) "\<not> in_bubble l 2 u v" "\<not> in_bubble l 1 u v" "\<not> in_bubble l 0 u v" by blast
  then show ?thesis
    unfolding picture_def disc_def using disj bg by cases (simp_all only: if_True if_False simp_thms shows_paint)
qed

lemma draw_picture:
  assumes "canvas_ok c" and "layout_ok l" and "lead < 3" and "background c l (c_buf c)"
  shows "\<exists>b. draw l lead c = Ret () (c\<lparr>c_buf := b\<rparr>) \<and> length b = length (c_buf c) \<and>
    shows_picture c b (picture l lead)"
proof -
  obtain p q r where ctr: "centers l = [p, q, r]" and
    lb: "\<bar>p\<bar> \<le> 2 ^ 29" "\<bar>q\<bar> \<le> 2 ^ 29" "\<bar>r\<bar> \<le> 2 ^ 29" "\<bar>l_cy l\<bar> \<le> 2 ^ 29" "0 \<le> l_r l" "l_r l \<le> 2 ^ 29"
    using assms(2) unfolding layout_ok_def by blast
  let ?at = "\<lambda>b x y. pixel (c_bpp c) b (y * c_stride c + x)"
  let ?in = "\<lambda>i x y. in_bubble l i (int x) (int y)"
  have in_simps: "in_disc p (l_cy l) (l_r l) (int x) (int y) = ?in 0 x y"
    "in_disc q (l_cy l) (l_r l) (int x) (int y) = ?in 1 x y"
    "in_disc r (l_cy l) (l_r l) (int x) (int y) = ?in 2 x y" for x y by (simp_all add: ctr)
  from fill_circle_at [OF assms(1) lb(1) lb(4-6), of "bubble_rgb lead 0"] obtain b0 where
    b0: "fill_circle p (l_cy l) (l_r l) (bubble_rgb lead 0) c = Ret () (c\<lparr>c_buf := b0\<rparr>)"
      "canvas_ok (c\<lparr>c_buf := b0\<rparr>)" "length b0 = length (c_buf c)"
      "\<And>x y. x < c_w c \<Longrightarrow> y < c_h c \<Longrightarrow> ?at b0 x y =
        (if ?in 0 x y then paint (c_fmt c) (bubble_rgb lead 0) (?at (c_buf c) x y) else ?at (c_buf c) x y)"
    unfolding in_simps by auto
  from fill_circle_at [OF b0(2) lb(2) lb(4-6), of "bubble_rgb lead 1"] obtain b1 where
    b1: "fill_circle q (l_cy l) (l_r l) (bubble_rgb lead 1) (c\<lparr>c_buf := b0\<rparr>) = Ret () (c\<lparr>c_buf := b1\<rparr>)"
      "canvas_ok (c\<lparr>c_buf := b1\<rparr>)" "length b1 = length b0"
      "\<And>x y. x < c_w c \<Longrightarrow> y < c_h c \<Longrightarrow> ?at b1 x y =
        (if ?in 1 x y then paint (c_fmt c) (bubble_rgb lead 1) (?at b0 x y) else ?at b0 x y)"
    unfolding in_simps by auto
  from fill_circle_at [OF b1(2) lb(3) lb(4-6), of "bubble_rgb lead 2"] obtain b2 where
    b2: "fill_circle r (l_cy l) (l_r l) (bubble_rgb lead 2) (c\<lparr>c_buf := b1\<rparr>) = Ret () (c\<lparr>c_buf := b2\<rparr>)"
      "length b2 = length b1"
      "\<And>x y. x < c_w c \<Longrightarrow> y < c_h c \<Longrightarrow> ?at b2 x y =
        (if ?in 2 x y then paint (c_fmt c) (bubble_rgb lead 2) (?at b1 x y) else ?at b1 x y)"
    unfolding in_simps by auto
  have "shows_color (c_fmt c) (picture l lead (int x) (int y)) (?at b2 x y)" if "x < c_w c" "y < c_h c" for x y
  proof -
    have "shows_color (c_fmt c) HARDCORE_BLACK (?at (c_buf c) x y)" if "\<And>k. k < 3 \<Longrightarrow> \<not> ?in k x y"
      using assms(4) \<open>x < c_w c\<close> \<open>y < c_h c\<close> that [of 0] that [of 1] that [of 2] unfolding background_def by auto
    from three_discs [OF assms(2) this] show ?thesis unfolding b2(3) [OF that] b1(4) [OF that] b0(4) [OF that] .
  qed
  then have "shows_picture c b2 (picture l lead)" unfolding shows_picture_def by blast
  moreover have "draw l lead c = Ret () (c\<lparr>c_buf := b2\<rparr>)"
    unfolding draw_eq [OF ctr assms(3)] by (simp only: run_all.simps run_simps b0(1) b1(1) b2(1) outcome.case)
  ultimately show ?thesis using b0(3) b1(3) b2(2) by auto
qed

section \<open>Presenting\<close>

lemma pixel_byte_row:
  fixes x y st bpp j :: nat
  assumes "x < st" and "j < bpp"
  shows "y * (st * bpp) \<le> (y * st + x) * bpp + j" "(y * st + x) * bpp + j < Suc y * (st * bpp)"
proof -
  show "y * (st * bpp) \<le> (y * st + x) * bpp + j" by (simp add: algebra_simps)
  have "Suc x * bpp \<le> st * bpp" using assms(1) by (intro mult_le_mono1) simp
  then show "(y * st + x) * bpp + j < Suc y * (st * bpp)"
    using assms(2) by (simp add: algebra_simps)
qed

lemma present_rows_pixels:
  assumes ok: "canvas_ok c" and len: "length (buffer f) = length (c_buf c)" and y: "y0 \<le> y1" "y1 < c_h c"
  shows "\<exists>b. present_rows c y0 y1 f = Ret () (f\<lparr>buffer := b\<rparr>) \<and> length b = length (buffer f) \<and>
    (\<forall>x y. x < c_w c \<longrightarrow> y < c_h c \<longrightarrow> pixel (c_bpp c) b (y * c_stride c + x) =
      (if y0 \<le> y \<and> y \<le> y1 then pixel (c_bpp c) (c_buf c) (y * c_stride c + x)
       else pixel (c_bpp c) (buffer f) (y * c_stride c + x)))"
proof -
  let ?row = "c_stride c * c_bpp c"
  define lo hi where "lo = y0 * ?row" and "hi = Suc y1 * ?row"
  have "Suc y1 * ?row \<le> c_h c * ?row" using y(2) by (intro mult_le_mono1) simp
  then have hi: "hi \<le> length (c_buf c)" "length (c_buf c) < 2 ^ 63"
    using ok by (simp_all add: hi_def canvas_ok_def mult.commute mult.left_commute)
  have lohi: "lo \<le> hi" unfolding lo_def hi_def using y(1) by (intro mult_le_mono1) simp
  have "1 * ?row \<le> hi" unfolding hi_def by (intro mult_le_mono1) simp
  then have small: "?row < 2 ^ 64" "lo < 2 ^ 64" "hi < 2 ^ 64" "y1 + 1 < 2 ^ 64"
    using hi lohi y(2) ok by (simp_all add: canvas_ok_def)
  define b where "b = take lo (buffer f) @ take (hi - lo) (drop lo (c_buf c)) @ drop hi (buffer f)"
  have run: "present_rows c y0 y1 f = Ret () (f\<lparr>buffer := b\<rparr>)"
    using small hi lohi len by (simp add: present_rows_def run_simps b_def lo_def [symmetric] hi_def [symmetric]
        hi_def [unfolded mult_Suc, symmetric])
  have lenb: "length b = length (buffer f)" using hi lohi len by (simp add: b_def)
  have nth: "b ! k = (if lo \<le> k \<and> k < hi then c_buf c ! k else buffer f ! k)" if "k < length b" for k
    using that hi lohi len by (auto simp: b_def nth_append)
  have "pixel (c_bpp c) b (y * c_stride c + x) =
      pixel (c_bpp c) (if y0 \<le> y \<and> y \<le> y1 then c_buf c else buffer f) (y * c_stride c + x)"
    if "x < c_w c" "y < c_h c" for x y
  proof (rule pixel_cong)
    fix j assume j: "j < c_bpp c" "(y * c_stride c + x) * c_bpp c + j < length b"
    let ?k = "(y * c_stride c + x) * c_bpp c + j"
    have "x < c_stride c" using that(1) ok by (simp add: canvas_ok_def)
    note k = pixel_byte_row [OF this j(1), of y]
    have "y0 \<le> y \<Longrightarrow> lo \<le> y * ?row" "y \<le> y1 \<Longrightarrow> Suc y * ?row \<le> hi"
      "\<not> y0 \<le> y \<Longrightarrow> Suc y * ?row \<le> lo" "\<not> y \<le> y1 \<Longrightarrow> hi \<le> y * ?row"
      unfolding lo_def hi_def by (intro mult_le_mono1; simp)+
    with k have "lo \<le> ?k \<and> ?k < hi \<longleftrightarrow> y0 \<le> y \<and> y \<le> y1" by linarith
    then show "b ! ?k = (if y0 \<le> y \<and> y \<le> y1 then c_buf c else buffer f) ! ?k"
      using nth [OF j(2)] by simp
  qed (simp add: lenb len)
  then have "pixel (c_bpp c) b (y * c_stride c + x) =
      (if y0 \<le> y \<and> y \<le> y1 then pixel (c_bpp c) (c_buf c) (y * c_stride c + x)
       else pixel (c_bpp c) (buffer f) (y * c_stride c + x))" if "x < c_w c" "y < c_h c" for x y
    using that by simp
  then show ?thesis using run lenb by blast
qed

section \<open>Frames\<close>

text \<open>
  The display: the canvas has the geometry of the framebuffer, which is at least 24 rows high
  (so that the bubbles do not meet), and everything outside the bubbles is black in both.
\<close>

definition screen_ok :: "screen \<Rightarrow> bool" where
  "screen_ok s \<longleftrightarrow> (let c = surface s; i = info (fb s); l = layout_of i in
     canvas_ok c \<and> c_w c = width i \<and> c_h c = height i \<and> 24 \<le> height i \<and>
     c_stride c = stride i \<and> c_bpp c = bytes_per_pixel i \<and> c_fmt c = pixel_format i \<and>
     length (buffer (fb s)) = length (c_buf c) \<and>
     background c l (c_buf c) \<and> background c l (buffer (fb s)))"

definition band_top :: "framebuffer_info \<Rightarrow> nat" where
  "band_top i = nat (max (l_cy (layout_of i) - l_r (layout_of i)) 0)"

definition band_bottom :: "framebuffer_info \<Rightarrow> nat" where
  "band_bottom i = nat (min (l_cy (layout_of i) + l_r (layout_of i)) (int (height i) - 1))"

text \<open>The visible screen shows the bubbles with the leader of frame number \<open>n\<close>.\<close>

definition displays :: "screen \<Rightarrow> u64 \<Rightarrow> bool" where
  "displays s n \<longleftrightarrow> shows_picture (surface s) (buffer (fb s)) (picture (layout_of (info (fb s))) (unat (n mod 3)))"

lemma band_rows:
  assumes "24 \<le> height i"
  shows "band_top i \<le> band_bottom i" "band_bottom i < height i"
    "in_bubble (layout_of i) k x (int y) \<Longrightarrow> y < height i \<Longrightarrow> band_top i \<le> y \<and> y \<le> band_bottom i"
proof -
  define r where "r = int (height i) div 12"
  define cy where "cy = int (height i) div 2"
  have l: "l_r (layout_of i) = r" "l_cy (layout_of i) = cy"
    by (simp_all only: layout_of_def Let_def r_def cy_def bubble_layout.simps)
  have h: "0 \<le> r" "0 \<le> cy" "cy < int (height i)"
    using assms unfolding r_def cy_def by (simp_all add: pos_imp_zdiv_nonneg_iff int_div_less_self)
  show "band_top i \<le> band_bottom i" "band_bottom i < height i"
    unfolding band_top_def band_bottom_def l using h by (simp_all add: nat_le_iff nat_less_iff)
  assume a: "in_bubble (layout_of i) k x (int y)" "y < height i"
  have "0 \<le> l_r (layout_of i)" using h(1) by (simp only: l)
  note box = in_disc_box(3,4) [OF a(1) this]
  then show "band_top i \<le> y \<and> y \<le> band_bottom i"
    unfolding band_top_def band_bottom_def using a(2) box by (simp add: nat_le_iff le_nat_iff)
qed

lemma background_update [simp]: "background (c\<lparr>c_buf := x\<rparr>) l b = background c l b"
  by (simp add: background_def)

lemma shows_picture_update [simp]: "shows_picture (c\<lparr>c_buf := x\<rparr>) b f = shows_picture c b f"
  by (simp add: shows_picture_def)

text \<open>Presenting the rows of the band is enough: outside of them both buffers are black.\<close>

lemma present_picture:
  assumes "canvas_ok (c\<lparr>c_buf := b\<rparr>)" and "length (buffer F) = length b" and "24 \<le> height i" and "c_h c = height i"
    and "shows_picture c b (picture (layout_of i) lead)" and "background c (layout_of i) (buffer F)"
  shows "\<exists>d. present_rows (c\<lparr>c_buf := b\<rparr>) (band_top i) (band_bottom i) F = Ret () (F\<lparr>buffer := d\<rparr>) \<and>
    length d = length (buffer F) \<and> shows_picture c d (picture (layout_of i) lead)"
proof -
  have "length (buffer F) = length (c_buf (c\<lparr>c_buf := b\<rparr>))" "band_bottom i < c_h (c\<lparr>c_buf := b\<rparr>)"
    using assms(2,4) band_rows(2) [OF assms(3)] by simp_all
  from present_rows_pixels [OF assms(1) this(1) band_rows(1) [OF assms(3)] this(2)] obtain d where
    d: "present_rows (c\<lparr>c_buf := b\<rparr>) (band_top i) (band_bottom i) F = Ret () (F\<lparr>buffer := d\<rparr>)"
      "length d = length (buffer F)"
      "\<And>x y. x < c_w c \<Longrightarrow> y < c_h c \<Longrightarrow> pixel (c_bpp c) d (y * c_stride c + x) =
        (if band_top i \<le> y \<and> y \<le> band_bottom i then pixel (c_bpp c) b (y * c_stride c + x)
         else pixel (c_bpp c) (buffer F) (y * c_stride c + x))"
    by auto
  have "shows_color (c_fmt c) (picture (layout_of i) lead (int x) (int y)) (pixel (c_bpp c) d (y * c_stride c + x))"
    if xy: "x < c_w c" "y < c_h c" for x y
  proof (cases "band_top i \<le> y \<and> y \<le> band_bottom i")
    case True
    then show ?thesis using assms(5) xy unfolding d(3) [OF xy] shows_picture_def by simp
  next
    case False
    then have out: "\<not> in_bubble (layout_of i) k (int x) (int y)" for k
      using band_rows(3) [OF assms(3), of k "int x" y] xy assms(4) by auto
    then have "picture (layout_of i) lead (int x) (int y) = HARDCORE_BLACK"
      unfolding picture_def by (simp only: if_False)
    with False out show ?thesis using assms(6) xy unfolding d(3) [OF xy] background_def by (simp only: if_False) blast
  qed
  then show ?thesis using d unfolding shows_picture_def by blast
qed

lemma draw_next_frame_run:
  assumes "screen_ok s" and "TICKS s div 12 \<noteq> last_frame s"
  shows "\<exists>b c. let s' = s\<lparr>last_frame := TICKS s div 12, surface := c, fb := (fb s)\<lparr>buffer := b\<rparr>\<rparr> in
    draw_next_frame (layout_of (info (fb s))) (band_top (info (fb s))) (band_bottom (info (fb s))) s = Ret () s' \<and>
    screen_ok s' \<and> displays s' (TICKS s div 12)"
proof -
  define i l c n where "i = info (fb s)" and "l = layout_of i" and "c = surface s" and "n = TICKS s div 12"
  from assms(1) have ok: "canvas_ok c" "c_w c = width i" "c_h c = height i" "24 \<le> height i"
      "length (buffer (fb s)) = length (c_buf c)" "background c l (c_buf c)" "background c l (buffer (fb s))"
      "c_stride c = stride i" "c_bpp c = bytes_per_pixel i" "c_fmt c = pixel_format i"
    by (simp_all add: screen_ok_def Let_def i_def l_def c_def)
  have sz: "width i \<le> 2 ^ 29" "height i \<le> 2 ^ 29" using ok(1-3) by (simp_all add: canvas_ok_def)
  have lead: "unat (n mod 3) < 3" by (simp add: unat_mod_distrib)
  obtain b where b: "draw l (unat (n mod 3)) c = Ret () (c\<lparr>c_buf := b\<rparr>)" "length b = length (c_buf c)"
      "shows_picture c b (picture l (unat (n mod 3)))"
    using draw_picture [OF ok(1) layout_of_ok [OF sz ok(4)] lead] ok(6) unfolding l_def by blast
  let ?c = "c\<lparr>c_buf := b\<rparr>"
  have okc: "canvas_ok ?c" using ok(1) b(2) by (simp add: canvas_ok_def)
  obtain d where d: "present_rows ?c (band_top i) (band_bottom i) (fb s) = Ret () ((fb s)\<lparr>buffer := d\<rparr>)"
      "length d = length (buffer (fb s))" and pic: "shows_picture c d (picture l (unat (n mod 3)))"
    using present_picture [OF okc _ ok(4) _ b(3) [unfolded l_def]] ok(3,5,7) b(2) unfolding l_def by auto
  let ?s = "s\<lparr>last_frame := n, surface := ?c, fb := (fb s)\<lparr>buffer := d\<rparr>\<rparr>"
  have run: "draw_next_frame l (band_top i) (band_bottom i) s = Ret () ?s"
    using assms(2) b(1) d(1)
    by (simp add: draw_next_frame_def ticks_def run_simps on_back_def on_fb_def Let_def c_def [symmetric] n_def [symmetric])
  have "background c l b" "background c l d"
    using picture_background [OF b(3)] picture_background [OF pic] by simp_all
  then have "screen_ok ?s"
    using okc ok b(2) d(2) by (simp add: screen_ok_def Let_def i_def [symmetric] l_def [symmetric])
  moreover have "displays ?s n"
    using pic by (simp add: displays_def i_def [symmetric] l_def [symmetric])
  ultimately show ?thesis
    using run unfolding Let_def i_def [symmetric] l_def [symmetric] n_def [symmetric] by blast
qed

section \<open>The loop\<close>

lemma hlts_uart: "uart_only t \<Longrightarrow> hlts t = 0"
  by (induction t) (auto simp: hlts_def)

lemma kernel_more_update [simp]: "kernel.more (s\<lparr>BUF := b, BUF_locked := l\<rparr>) = kernel.more s"
  by simp

lemma read_char_some:
  assumes "kernel_ok s" and "ring_items (BUF s) = c # cs"
  shows "\<exists>s'. read_char s = Ret (Some c) s' \<and> kernel_ok s' \<and> ring_items (BUF s') = cs \<and> trace s' = trace s \<and>
    ring_cap (BUF s') = ring_cap (BUF s) \<and> TICKS s' = TICKS s \<and> kernel.more s' = kernel.more s"
proof -
  from assms(1) have s: "ring_inv (BUF s)" "\<not> BUF_locked s" "\<not> PICS_locked s"
    by (simp_all add: kernel_ok_def kbd_ok_def)
  obtain b where b: "ring_pop (BUF s) = Ret (Some c) b" "ring_inv b" "ring_cap b = ring_cap (BUF s)"
      "ring_items b = cs"
    using kq.pop_cons [OF s(1) assms(2)] by blast
  have "read_char s = Ret (Some c) (s\<lparr>BUF := b, BUF_locked := False\<rparr>)"
    unfolding read_char_def by (rule with_BUF_run [of s ring_pop, OF s(2) b(1)])
  then show ?thesis using b s by (simp add: kernel_ok_def kbd_ok_def)
qed

lemma echo_keys_run:
  assumes "kernel_ok s" and "uart_drains E n" and "n < fuel E" and "length (ring_items (BUF s)) < k"
  shows "\<exists>s' t. echo_keys k E s = Ret () s' \<and> kernel_ok s' \<and> ring_items (BUF s') = [] \<and>
    trace s' = trace s @ t \<and> uart_only t \<and> uart_out t = bytes (ring_items (BUF s)) \<and>
    ring_cap (BUF s') = ring_cap (BUF s) \<and> TICKS s' = TICKS s \<and> kernel.more s' = kernel.more s"
  using assms(1,4)
proof (induction k arbitrary: s)
  case 0
  then show ?case by simp
next
  case (Suc k)
  show ?case
  proof (cases "ring_items (BUF s)")
    case Nil
    with read_char_run(1) [OF Suc.prems(1) Nil] Suc.prems(1) show ?thesis
      by (simp add: run_simps bytes_def)
  next
    case (Cons c cs)
    obtain s1 where s1: "read_char s = Ret (Some c) s1" "kernel_ok s1" "ring_items (BUF s1) = cs"
        "trace s1 = trace s" "ring_cap (BUF s1) = ring_cap (BUF s)" "TICKS s1 = TICKS s"
        "kernel.more s1 = kernel.more s"
      using read_char_some [OF Suc.prems(1) Cons] by blast
    obtain t where t: "serial_print E [c] s1 = Ret () (s1\<lparr>trace := trace s1 @ t\<rparr>)" "uart_only t"
        "uart_out t = bytes [c]"
      using serial_print_run [OF assms(2,3), of "[c]" s1] by blast
    let ?s = "s1\<lparr>trace := trace s1 @ t\<rparr>"
    have pre: "kernel_ok ?s" "length (ring_items (BUF ?s)) < k" using s1 Cons Suc.prems(2) by simp_all
    from Suc.IH [OF pre] obtain s' u where "echo_keys k E ?s = Ret () s'" "kernel_ok s'"
        "ring_items (BUF s') = []" "trace s' = trace ?s @ u" "uart_only u" "uart_out u = bytes (ring_items (BUF ?s))"
        "ring_cap (BUF s') = ring_cap (BUF ?s)" "TICKS s' = TICKS ?s" "kernel.more s' = kernel.more ?s" by blast
    with s1 t Cons show ?thesis
      by (intro exI [of _ s'] exI [of _ "t @ u"]) (simp add: run_simps bytes_def)
  qed
qed

lemma screen_fields:
  fixes s s' :: screen
  assumes "kernel.more s' = kernel.more s"
  shows "fb s' = fb s" "surface s' = surface s" "last_frame s' = last_frame s"
  using assms by (cases s; cases s'; simp)+

lemma hlt_ring_cap:
  assumes "kernel_ok s" and "interrupts_on s" and "list_all irq_vector (irqs E (trace s @ [Cpu Hlt]))"
    and "hlt E s = Ret () s'"
  shows "ring_cap (BUF s') = ring_cap (BUF s)"
  using serve_irqs [of "s\<lparr>trace := trace s @ [Cpu Hlt]\<rparr>" "irqs E (trace s @ [Cpu Hlt])" E] assms
  unfolding hlt_on [OF assms(2)] by auto

text \<open>The state between two passes: what was last drawn is on the screen.\<close>

definition pass_ok :: "env \<Rightarrow> screen \<Rightarrow> bool" where
  "pass_ok E s \<longleftrightarrow> kernel_ok s \<and> interrupts_on s \<and> screen_ok s \<and> ring_cap (BUF s) < fuel E"

definition env_live :: "env \<Rightarrow> bool" where
  "env_live E \<longleftrightarrow> (\<exists>n < fuel E. uart_drains E n) \<and> (\<forall>t. list_all irq_vector (irqs E t))"

lemma screen_ok_fields:
  "fb s' = fb s \<Longrightarrow> surface s' = surface s \<Longrightarrow> screen_ok s' = screen_ok s"
  "fb s' = fb s \<Longrightarrow> surface s' = surface s \<Longrightarrow> displays s' n = displays s n"
  by (simp_all add: screen_ok_def displays_def)

text \<open>The drawing step of a pass, whether a new frame is due or not.\<close>

lemma draw_if_due:
  assumes "screen_ok s" and "kernel_ok s" and "displays s (last_frame s) \<or> TICKS s div 12 \<noteq> last_frame s"
  shows "\<exists>s'. draw_next_frame (layout_of (info (fb s))) (band_top (info (fb s))) (band_bottom (info (fb s))) s = Ret () s' \<and>
    screen_ok s' \<and> displays s' (TICKS s div 12) \<and> last_frame s' = TICKS s div 12 \<and> kernel_ok s' \<and> BUF s' = BUF s \<and>
    trace s' = trace s \<and> info (fb s') = info (fb s)"
proof (cases "TICKS s div 12 = last_frame s")
  case True
  with assms show ?thesis
    by (intro exI [of _ s]) (simp add: draw_next_frame_def ticks_def run_simps Let_def)
next
  case False
  let ?s = "\<lambda>b c. s\<lparr>last_frame := TICKS s div 12, surface := c, fb := (fb s)\<lparr>buffer := b\<rparr>\<rparr>"
  from draw_next_frame_run [OF assms(1) False] obtain b c where
    "draw_next_frame (layout_of (info (fb s))) (band_top (info (fb s))) (band_bottom (info (fb s))) s = Ret () (?s b c)"
    "screen_ok (?s b c)" "displays (?s b c) (TICKS s div 12)"
    unfolding Let_def by blast
  moreover have "kernel_ok (?s b c)" using assms(2) by (simp add: kernel_ok_def kbd_ok_def)
  ultimately show ?thesis by (intro exI [of _ "?s b c"]) simp
qed

lemma render_pass_run:
  fixes s :: screen
  assumes "pass_ok E s" and "env_live E" and "displays s (last_frame s) \<or> TICKS s div 12 \<noteq> last_frame s"
  defines "i \<equiv> info (fb s)"
  shows "\<exists>s'. render_pass E (layout_of i) (band_top i) (band_bottom i) s = Ret () s' \<and> pass_ok E s' \<and>
    last_frame s' = TICKS s div 12 \<and> displays s' (last_frame s') \<and> info (fb s') = i \<and>
    hlts (trace s') = Suc (hlts (trace s))"
proof -
  obtain n where uart: "uart_drains E n" "n < fuel E" using assms(2) by (auto simp: env_live_def)
  have ok: "kernel_ok s" "screen_ok s" "ring_cap (BUF s) < fuel E" "interrupts_on s" using assms(1) by (simp_all add: pass_ok_def)
  have "length (ring_items (BUF s)) < fuel E"
    using kq.bounded [of "BUF s"] ok by (simp add: kernel_ok_def kbd_ok_def)
  from echo_keys_run [OF ok(1) uart this] obtain s1 t where
    s1: "echo_keys (fuel E) E s = Ret () s1" "kernel_ok s1" "trace s1 = trace s @ t" "uart_only t"
      "ring_cap (BUF s1) = ring_cap (BUF s)" "TICKS s1 = TICKS s" "kernel.more s1 = kernel.more s" by blast
  note f1 = screen_fields [OF s1(7)]
  have "screen_ok s1" "displays s1 (last_frame s1) \<or> TICKS s1 div 12 \<noteq> last_frame s1"
    using assms(3) ok(2) s1 f1 screen_ok_fields [of s1 s] by auto
  from draw_if_due [OF this(1) s1(2) this(2)] obtain s2 where
    s2: "draw_next_frame (layout_of i) (band_top i) (band_bottom i) s1 = Ret () s2" "screen_ok s2"
      "displays s2 (TICKS s div 12)" "last_frame s2 = TICKS s div 12" "kernel_ok s2" "BUF s2 = BUF s1"
      "trace s2 = trace s1" "info (fb s2) = i"
    unfolding f1 s1(6) i_def by blast
  have irq: "list_all irq_vector (irqs E (trace s2 @ [Cpu Hlt]))" using assms(2) by (simp add: env_live_def)
  have on: "interrupts_on s2" using ok(4) s1(3) s2(7) by simp
  obtain s3 where s3: "hlt E s2 = Ret () s3" "kernel_ok s3" "kernel.more s3 = kernel.more s2"
      "hlts (trace s3) = Suc (hlts (trace s2))" "interrupts_on s3"
    using hlt_keeps [OF s2(5) on irq] by blast
  note f3 = screen_fields [OF s3(3)]
  have "ring_cap (BUF s3) = ring_cap (BUF s)"
    using hlt_ring_cap [OF s2(5) on irq s3(1)] s2(6) s1(5) by simp
  then have "pass_ok E s3" "displays s3 (last_frame s3)"
    using s2 s3(2,5) f3 ok(3) screen_ok_fields [OF f3(1,2)] by (simp_all add: pass_ok_def)
  moreover have "render_pass E (layout_of i) (band_top i) (band_bottom i) s = Ret () s3"
    by (simp add: render_pass_def run_simps s1(1) s2(1) s3(1))
  moreover have "hlts (trace s3) = Suc (hlts (trace s))"
    using s3(4) s2(7) s1(3) hlts_uart [OF s1(4)] by simp
  ultimately show ?thesis using f3 s2 by auto
qed

lemma render_loop_run:
  fixes s :: screen
  assumes "pass_ok E s" and "env_live E" and "displays s (last_frame s) \<or> TICKS s div 12 \<noteq> last_frame s"
  defines "i \<equiv> info (fb s)"
  shows "\<exists>s'. render_loop n E (layout_of i) (band_top i) (band_bottom i) s = Hang s' \<and> pass_ok E s' \<and>
    (0 < n \<longrightarrow> displays s' (last_frame s')) \<and> hlts (trace s') = hlts (trace s) + n \<and> info (fb s') = i"
  using assms(1,3) unfolding i_def
proof (induction n arbitrary: s)
  case 0
  then show ?case by simp
next
  case (Suc n)
  let ?i = "info (fb s)"
  obtain s1 where s1: "render_pass E (layout_of ?i) (band_top ?i) (band_bottom ?i) s = Ret () s1" "pass_ok E s1"
      "displays s1 (last_frame s1)" "info (fb s1) = ?i" "hlts (trace s1) = Suc (hlts (trace s))"
    using render_pass_run [OF Suc.prems(1) assms(2) Suc.prems(2)] by blast
  from Suc.IH [OF s1(2) disjI1 [OF s1(3)]] s1 show ?case
    by (cases n) (auto simp: run_simps)
qed

section \<open>From a cleared framebuffer to the animation\<close>

text \<open>
  A framebuffer as the bootloader describes it: the geometry fits the buffer, whose length is
  the stated one; and it shows black everywhere.
\<close>

definition framebuffer_ok :: "framebuffer \<Rightarrow> bool" where
  "framebuffer_ok f \<longleftrightarrow> canvas_ok (canvas_new (info f)) \<and> length (buffer f) = byte_len (info f) \<and>
     24 \<le> height (info f)"

definition all_black :: "framebuffer \<Rightarrow> bool" where
  "all_black f \<longleftrightarrow> shows_picture (canvas_new (info f)) (buffer f) (\<lambda>_ _. HARDCORE_BLACK)"

lemma shows_black_background: "shows_picture c b (\<lambda>_ _. HARDCORE_BLACK) \<Longrightarrow> background c l b"
  by (simp add: shows_picture_def background_def)

lemma canvas_clear_run:
  assumes "canvas_ok c"
  shows "\<exists>b. canvas_clear rgb c = Ret () (c\<lparr>c_buf := b\<rparr>) \<and> length b = length (c_buf c) \<and>
    shows_picture c b (\<lambda>_ _. rgb)"
proof -
  have need: "pixel_need (c_fmt c) \<le> c_bpp c" using assms by (simp add: canvas_ok_def)
  then have pos: "0 < c_bpp c" by (cases "c_fmt c") simp_all
  obtain b where b: "for_chunks_exact (c_bpp c) (write_pixel (c_fmt c) rgb) (c_buf c) = Ret () b"
      "length b = length (c_buf c)"
      "\<forall>p < length (c_buf c) div c_bpp c. pixel (c_bpp c) b p = paint (c_fmt c) rgb (pixel (c_bpp c) (c_buf c) p)"
    using for_chunks_paint [OF need, of rgb "c_buf c"] by blast
  have "y * c_stride c + x < length (c_buf c) div c_bpp c" if "x < c_w c" "y < c_h c" for x y
    using canvas_pixel_fits(1) [OF assms that] pos
    by (simp add: holds_pixel_def less_eq_div_iff_mult_less_eq Suc_le_eq [symmetric])
  with b(3) have "shows_picture c b (\<lambda>_ _. rgb)" by (simp add: shows_picture_def)
  with b show ?thesis by (intro exI [of _ b]) (simp add: canvas_clear_def on_buf_def)
qed

lemma canvas_new_simps:
  "length (c_buf (canvas_new i)) = byte_len i" "c_w (canvas_new i) = width i" "c_h (canvas_new i) = height i"
  "c_stride (canvas_new i) = stride i" "c_bpp (canvas_new i) = bytes_per_pixel i"
  "c_fmt (canvas_new i) = pixel_format i"
  by (simp_all add: canvas_new_def)

lemma as_usize_nat: "0 \<le> x \<Longrightarrow> x < 2 ^ 64 \<Longrightarrow> as_usize x = nat x"
  by (simp add: as_usize_def)

lemma render_prepare_run:
  assumes "framebuffer_ok (fb s)" and "all_black (fb s)"
  defines "i \<equiv> info (fb s)"
  shows "\<exists>c. render_prepare s = Ret (layout_of i, band_top i, band_bottom i) (s\<lparr>surface := c, last_frame := - 1\<rparr>) \<and>
    screen_ok (s\<lparr>surface := c, last_frame := - 1\<rparr>)"
proof -
  have ok: "canvas_ok (canvas_new i)" "length (buffer (fb s)) = byte_len i" "24 \<le> height i"
    using assms by (simp_all add: framebuffer_ok_def)
  then have sz: "width i \<le> 2 ^ 29" "height i \<le> 2 ^ 29" by (simp_all add: canvas_ok_def canvas_new_def)
  obtain b where b: "canvas_clear HARDCORE_BLACK (canvas_new i) = Ret () ((canvas_new i)\<lparr>c_buf := b\<rparr>)"
      "length b = length (c_buf (canvas_new i))" "shows_picture (canvas_new i) b (\<lambda>_ _. HARDCORE_BLACK)"
    using canvas_clear_run [OF ok(1)] by blast
  define l where "l = layout_of i"
  have lo: "\<bar>l_cy l\<bar> \<le> 2 ^ 29" "0 \<le> l_r l" "l_r l \<le> 2 ^ 29"
    using layout_of_ok [OF sz ok(3)] unfolding l_def layout_ok_def by blast+
  have cy: "0 \<le> l_cy l" unfolding l_def layout_of_def Let_def by (simp add: pos_imp_zdiv_nonneg_iff)
  have h: "as_isize (height i) - 1 = int (height i) - 1" "24 \<le> int (height i)" "int (height i) \<le> 2 ^ 29"
    using sz ok(3) by (simp_all add: as_isize_small)
  have bands: "as_usize (max (l_cy l - l_r l) 0) = band_top i"
      "as_usize (min (l_cy l + l_r l) (int (height i) - 1)) = band_bottom i"
    unfolding band_top_def band_bottom_def l_def [symmetric] using lo cy h by (intro as_usize_nat; simp)+
  let ?c = "(canvas_new i)\<lparr>c_buf := b\<rparr>"
  have "render_prepare s = Ret (l, band_top i, band_bottom i) (s\<lparr>surface := ?c, last_frame := - 1\<rparr>)"
    unfolding render_prepare_def i_def [symmetric] Let_def
    using lo cy h by (simp add: run_simps on_back_def b(1) layout_run [OF sz] l_def [symmetric] bands)
  moreover have "canvas_ok ?c" using ok(1) b(2) by (simp add: canvas_ok_def)
  moreover have "shows_picture (canvas_new i) (buffer (fb s)) (\<lambda>_ _. HARDCORE_BLACK)"
    using assms(2) by (simp add: all_black_def i_def)
  then have "background ?c l b" "background ?c l (buffer (fb s))"
    using b(3) by (simp_all add: shows_black_background)
  ultimately show ?thesis
    using ok(2,3) b(2)
    by (intro exI [of _ ?c]) (simp add: screen_ok_def Let_def i_def [symmetric] l_def canvas_new_simps)
qed

lemma render_run_total:
  fixes s :: screen
  assumes "framebuffer_ok (fb s)" and "all_black (fb s)" and "kernel_ok s" and "interrupts_on s"
    and "ring_cap (BUF s) < fuel E" and "env_live E" and "0 < n"
  shows "\<exists>s'. render_run E n s = Hang s' \<and> displays s' (last_frame s') \<and> kernel_ok s' \<and>
    hlts (trace s') = hlts (trace s) + n \<and> screen_ok s' \<and> info (fb s') = info (fb s)"
proof -
  let ?i = "info (fb s)"
  obtain c where c: "render_prepare s =
        Ret (layout_of ?i, band_top ?i, band_bottom ?i) (s\<lparr>surface := c, last_frame := - 1\<rparr>)"
      "screen_ok (s\<lparr>surface := c, last_frame := - 1\<rparr>)"
    using render_prepare_run [OF assms(1,2)] by blast
  let ?s = "s\<lparr>surface := c, last_frame := - 1\<rparr>"
  have ok: "pass_ok E ?s" using c(2) assms(3-5) by (simp add: pass_ok_def kernel_ok_def kbd_ok_def)
  have "unat (TICKS s) \<le> 2 ^ 64 - 1" using unsigned_less [of "TICKS s", where ?'a = nat] by simp
  from div_le_mono [OF this, of 12] have "unat (TICKS s div 12) \<noteq> unat (- 1 :: u64)"
    by (simp add: unat_div_distrib unsigned_minus_1_eq_mask mask_eq_exp_minus_1)
  then have "TICKS ?s div 12 \<noteq> last_frame ?s" by auto
  from render_loop_run [OF ok assms(6) disjI2 [OF this], of n] c(1) assms(7) show ?thesis
    by (auto simp: render_run_def run_simps pass_ok_def)
qed

text \<open>
  C4. Rendering on a cleared framebuffer with interrupts enabled: for any number of passes, \<open>render::run\<close> neither panics
  nor gets stuck in a pass (every pass ends in its halt), and after each pass every visible
  pixel of the framebuffer shows the picture of the frame number last drawn: inside the three
  bubbles, which do not overlap, the acid green blended at 255, 153 and 76 rotated so that the
  bubble \<open>frame mod 3\<close> is the brightest, black everywhere else. The geometry of the picture is that
  of the framebuffer, which is unchanged.
\<close>

theorem render_run_shows_bubbles:
  fixes s :: screen
  assumes "framebuffer_ok (fb s)" and "all_black (fb s)" and "kernel_ok s" and "interrupts_on s"
    and "ring_cap (BUF s) < fuel E" and "env_live E" and "0 < n"
  shows "\<exists>s'. render_run E n s = Hang s' \<and> displays s' (last_frame s') \<and> kernel_ok s' \<and>
    hlts (trace s') = hlts (trace s) + n \<and> screen_ok s' \<and> info (fb s') = info (fb s)"
  using assms by (rule render_run_total)

definition demo_screen :: screen where
  "demo_screen = \<lparr>trace = [], BUF = ring_new BUF_SIZE, BUF_locked = False, SHIFT = False,
     TICKS = 0, PICS_locked = False,
     fb = \<lparr>info = \<lparr>byte_len = 24, width = 1, height = 24, pixel_format = U8, bytes_per_pixel = 1, stride = 1\<rparr>,
       buffer = replicate 24 (luma HARDCORE_BLACK)\<rparr>,
     surface = demo_canvas, last_frame = 0\<rparr>"

theorem render_run_shows_bubbles_witness:
  "\<exists>s'. render_run (ready_env\<lparr>fuel := 300\<rparr>) 3 (demo_screen\<lparr>trace := [Cpu Sti]\<rparr>) = Hang s' \<and>
     displays s' (last_frame s') \<and> hlts (trace s') = 3"
proof -
  let ?s = "demo_screen\<lparr>trace := [Cpu Sti]\<rparr>"
  have ok: "framebuffer_ok (fb ?s)"
    by (simp add: framebuffer_ok_def canvas_ok_def canvas_new_def demo_screen_def)
  have black: "all_black (fb ?s)"
    by (simp add: all_black_def shows_picture_def shows_color_def canvas_new_def demo_screen_def pixel_def)
  have k: "kernel_ok ?s" "interrupts_on ?s" "ring_cap (BUF ?s) < fuel (ready_env\<lparr>fuel := 300\<rparr>)"
    by (simp_all add: kernel_ok_def kbd_ok_def demo_screen_def ring_new_def BUF_SIZE_def ring_inv_def ring_cap_def)
  have live: "env_live (ready_env\<lparr>fuel := 300\<rparr>)"
    by (auto simp: env_live_def uart_drains_def thr_empty_def ready_env_def intro!: exI [of _ 0])
  have "hlts (trace ?s) = 0" by (simp add: demo_screen_def hlts_def)
  then show ?thesis
    using render_run_shows_bubbles [OF ok black k live, of 3] by auto
qed

end
