(* ===== verification/Pci.thy ===== *)
theory Pci
  imports Hardware
begin

text \<open>
  \<^verbatim>\<open>kernel/src/pci.rs\<close>: configuration space access through the ports 0xCF8 and 0xCFC, the
  decoding of base address registers, and the enumeration of the bus. The host bridge behind
  the two ports is part of the environment.
\<close>

section \<open>Configuration space access\<close>

definition CONFIG_ADDRESS :: u16 where
  "CONFIG_ADDRESS = 0xCF8"

definition CONFIG_DATA :: u16 where
  "CONFIG_DATA = 0xCFC"

datatype pci_config = PciConfig (cfg_bus: u8) (cfg_device: u8) (cfg_function: u8)

definition pci_config_new :: "u8 \<Rightarrow> u8 \<Rightarrow> u8 \<Rightarrow> pci_config" where
  "pci_config_new bus device function = PciConfig bus device function"

definition config_address :: "u8 \<Rightarrow> u8 \<Rightarrow> u8 \<Rightarrow> u8 \<Rightarrow> u32" where
  "config_address bus device function offset =
     0x80000000
     OR push_bit 16 (ucast bus)
     OR push_bit 11 (ucast (device AND 0x1F))
     OR push_bit 8 (ucast (function AND 0x7))
     OR (ucast offset AND 0xFC)"

definition cfg_read32 :: "env \<Rightarrow> pci_config \<Rightarrow> u8 \<Rightarrow> (u32, 'z machine_scheme) prog" where
  "cfg_read32 E c offset =
     seq (assert_that (offset AND 0x3 = 0) ''PCI config offset must be aligned to 4 bytes'')
     (let addr = config_address (cfg_bus c) (cfg_device c) (cfg_function c) offset in
      seq (out32 CONFIG_ADDRESS addr) (in32 E CONFIG_DATA))"

definition cfg_write32 :: "pci_config \<Rightarrow> u8 \<Rightarrow> u32 \<Rightarrow> (unit, 'z machine_scheme) prog" where
  "cfg_write32 c offset v =
     seq (assert_that (offset AND 0x3 = 0) ''PCI config offset must be aligned to 4 bytes'')
     (let addr = config_address (cfg_bus c) (cfg_device c) (cfg_function c) offset in
      seq (out32 CONFIG_ADDRESS addr) (out32 CONFIG_DATA v))"

definition vendor_id :: "env \<Rightarrow> pci_config \<Rightarrow> (u16, 'z machine_scheme) prog" where
  "vendor_id E c = bind (cfg_read32 E c 0x00) (\<lambda>v. return (ucast (v AND 0xFFFF)))"

definition device_id :: "env \<Rightarrow> pci_config \<Rightarrow> (u16, 'z machine_scheme) prog" where
  "device_id E c = bind (cfg_read32 E c 0x00) (\<lambda>v. return (ucast (drop_bit 16 v AND 0xFFFF)))"

definition header_type :: "env \<Rightarrow> pci_config \<Rightarrow> (u8, 'z machine_scheme) prog" where
  "header_type E c = bind (cfg_read32 E c 0x0C) (\<lambda>v. return (ucast (drop_bit 16 v AND 0xFF)))"

definition class_info :: "env \<Rightarrow> pci_config \<Rightarrow> (u8 \<times> u8 \<times> u8, 'z machine_scheme) prog" where
  "class_info E c = bind (cfg_read32 E c 0x08) (\<lambda>dword.
     return (ucast (drop_bit 24 dword AND 0xFF), ucast (drop_bit 16 dword AND 0xFF),
       ucast (drop_bit 8 dword AND 0xFF)))"

section \<open>Base address registers\<close>

datatype bar =
    Io (port: u16)
  | Memory32 (base32: u32) (prefetchable: bool)
  | Memory64 (base64: u64) (prefetchable: bool)
  | Unknown (raw: u32)

definition read_bar :: "env \<Rightarrow> pci_config \<Rightarrow> u8 \<Rightarrow> (bar, 'z machine_scheme) prog" where
  "read_bar E c bar_index =
     bind (u8_val (unat bar_index * 4)) (\<lambda>scaled.
     bind (u8_val (0x10 + unat scaled)) (\<lambda>offset.
     bind (cfg_read32 E c offset) (\<lambda>raw.
     if raw AND 0x1 = 1 then return (Io (ucast (raw AND 0xFFFFFFFC)))
     else let ty = drop_bit 1 raw AND 0x3; pre = (drop_bit 3 raw AND 0x1 = 1); addr32 = raw AND 0xFFFFFFF0 in
       if ty = 0x0 then return (Memory32 addr32 pre)
       else if ty = 0x2 then
         bind (u8_val (unat offset + 4)) (\<lambda>offset_high.
         bind (cfg_read32 E c offset_high) (\<lambda>high.
         return (Memory64 (ucast addr32 OR push_bit 32 (ucast high)) pre)))
       else return (Unknown raw))))"

fun memory_base :: "bar \<Rightarrow> u64 option" where
  "memory_base (Memory32 base pre) = Some (ucast base)"
| "memory_base (Memory64 base pre) = Some base"
| "memory_base (Io p) = None"
| "memory_base (Unknown r) = None"

fun is_64bit :: "bar \<Rightarrow> bool" where
  "is_64bit (Memory64 base pre) = True"
| "is_64bit _ = False"

section \<open>Enumeration\<close>

record pci_device =
  dev_config :: pci_config
  dev_vendor :: u16
  dev_device :: u16
  dev_class :: u8
  dev_subclass :: u8
  dev_prog_if :: u8
  dev_header :: u8
  dev_bars :: "bar option list"

text \<open>
  The loop that reads the base address registers, skipping the upper half of a 64-bit one. The
  index grows by at least one, so six iterations and the final test are enough.
\<close>

primrec bar_loop :: "nat \<Rightarrow> env \<Rightarrow> pci_config \<Rightarrow> u8 \<Rightarrow> bar option list \<Rightarrow> (bar option list, 'z machine_scheme) prog" where
  "bar_loop 0 E c bar_idx bars = (\<lambda>s. Hang s)"
| "bar_loop (Suc n) E c bar_idx bars =
     (if bar_idx < 6 then
        bind (read_bar E c bar_idx) (\<lambda>b.
          bar_loop n E c (if is_64bit b then bar_idx + 1 + 1 else bar_idx + 1) (bars[unat bar_idx := Some b]))
      else return bars)"

definition read_bars :: "env \<Rightarrow> pci_config \<Rightarrow> (bar option list, 'z machine_scheme) prog" where
  "read_bars E c = bar_loop 7 E c 0 (replicate 6 None)"

text \<open>The body of the loop over the functions 1 to 7 of a multi-function device.\<close>

definition scan_function :: "env \<Rightarrow> u8 \<Rightarrow> u8 \<Rightarrow> u8 \<Rightarrow> pci_device list \<Rightarrow> (pci_device list, 'z machine_scheme) prog" where
  "scan_function E bus device function devices =
     (let cfg = pci_config_new bus device function in
      bind (vendor_id E cfg) (\<lambda>vid.
      if vid = 0xFFFF then return devices
      else
        bind (class_info E cfg) (\<lambda>(cls, subclass, prog_if).
        bind (device_id E cfg) (\<lambda>did.
        bind (header_type E cfg) (\<lambda>hdr.
        bind (read_bars E cfg) (\<lambda>bars.
        return (devices @ [\<lparr>dev_config = cfg, dev_vendor = vid, dev_device = did, dev_class = cls,
          dev_subclass = subclass, dev_prog_if = prog_if, dev_header = hdr, dev_bars = bars\<rparr>])))))))"

text \<open>The body of the loop over the devices of a bus.\<close>

definition scan_device :: "env \<Rightarrow> u8 \<Rightarrow> u8 \<Rightarrow> pci_device list \<Rightarrow> (pci_device list, 'z machine_scheme) prog" where
  "scan_device E bus device devices =
     (let cfg = pci_config_new bus device 0 in
      bind (vendor_id E cfg) (\<lambda>vid.
      if vid = 0xFFFF then return devices
      else
        bind (header_type E cfg) (\<lambda>hdr.
        bind (class_info E cfg) (\<lambda>(cls, subclass, prog_if).
        bind (device_id E cfg) (\<lambda>did.
        bind (read_bars E cfg) (\<lambda>bars.
        let devices = devices @ [\<lparr>dev_config = cfg, dev_vendor = vid, dev_device = did, dev_class = cls,
          dev_subclass = subclass, dev_prog_if = prog_if, dev_header = hdr, dev_bars = bars\<rparr>] in
        if hdr AND 0x80 \<noteq> 0
        then for_fold (map word_of_nat [1..<8]) (scan_function E bus device) devices
        else return devices))))))"

definition enumerate_pci :: "env \<Rightarrow> (pci_device list, 'z machine_scheme) prog" where
  "enumerate_pci E =
     for_fold (map word_of_nat [0..<256]) (\<lambda>bus.
       for_fold (map word_of_nat [0..<32]) (scan_device E bus)) []"

definition find_xhci :: "pci_device list \<Rightarrow> pci_device list" where
  "find_xhci devices = filter (\<lambda>d. dev_class d = 0x0C \<and> dev_subclass d = 0x03 \<and> dev_prog_if d = 0x30) devices"

definition class_name :: "u8 \<Rightarrow> u8 \<Rightarrow> string" where
  "class_name cls subclass =
     (if cls = 0x00 \<and> subclass = 0x00 then ''Non-VGA''
      else if cls = 0x00 \<and> subclass = 0x01 then ''VGA Compatible''
      else if cls = 0x01 \<and> subclass = 0x00 then ''SCSI''
      else if cls = 0x01 \<and> subclass = 0x01 then ''IDE''
      else if cls = 0x01 \<and> subclass = 0x06 then ''SATA''
      else if cls = 0x01 \<and> subclass = 0x07 then ''SAS''
      else if cls = 0x02 \<and> subclass = 0x00 then ''Ethernet''
      else if cls = 0x03 \<and> subclass = 0x00 then ''VGA''
      else if cls = 0x04 then ''Multimedia''
      else if cls = 0x06 \<and> subclass = 0x00 then ''Host Bridge''
      else if cls = 0x06 \<and> subclass = 0x01 then ''ISA Bridge''
      else if cls = 0x06 \<and> subclass = 0x04 then ''PCI-to-PCI Bridge''
      else if cls = 0x06 \<and> subclass = 0x07 then ''CardBus Bridge''
      else if cls = 0x0C \<and> subclass = 0x03 then ''USB Host Controller''
      else if cls = 0x0C \<and> subclass = 0x05 then ''SMBus''
      else if cls = 0x0D \<and> subclass = 0x00 then ''IRQ Controller''
      else ''Unknown'')"

section \<open>Configuration addresses\<close>

lemma unat_and_FC: "unat ((ucast w :: u32) AND 0xFC) = unat w div 4 * 4" for w :: u8
proof -
  have "(ucast w :: u32) AND push_bit 2 (mask 6) = push_bit 2 (drop_bit 2 (ucast w))"
  proof (rule bit_word_eqI)
    fix n
    show "bit ((ucast w :: u32) AND push_bit 2 (mask 6)) n = bit (push_bit 2 (drop_bit 2 (ucast w :: u32))) n"
    proof (cases "2 \<le> n")
      case True
      then obtain m where "n = 2 + m" using le_Suc_ex by blast
      then show ?thesis by (auto simp: bit_simps dest: bit_imp_le_length)
    qed (simp add: bit_simps)
  qed
  moreover have "push_bit 2 (mask 6) = (0xFC :: u32)" by (simp add: mask_eq_exp_minus_1)
  moreover have "unat w < 256" using unsigned_less [of w, where ?'a = nat] by simp
  ultimately show ?thesis by (simp add: unat_push_bit unat_drop_bit unat_ucast)
qed
lemma unat_and_7_1F: "unat (w AND 7) = unat w mod 8" "unat (w AND 0x1F) = unat w mod 32" for w :: u8
  using unat_and_mask [of w 3] unat_and_mask [of w 5] by (simp_all add: mask_eq_exp_minus_1)

lemma config_address_value:
  "unat (config_address bus device function offset) =
     2 ^ 31 + unat bus * 2 ^ 16 + unat device mod 32 * 2 ^ 11 + unat function mod 8 * 2 ^ 8 +
     unat offset div 4 * 4"
proof -
  have lt: "unat bus < 256" "unat device mod 32 < 32" "unat function mod 8 < 8" "unat offset < 256"
    using unsigned_less [of bus, where ?'a = nat] unsigned_less [of offset, where ?'a = nat] by simp_all
  have b: "unat (push_bit 16 (ucast bus :: u32)) = unat bus * 2 ^ 16"
    using lt by (subst unat_push_bit) (simp_all add: unat_ucast)
  have d: "unat (push_bit 11 (ucast (device AND 0x1F) :: u32)) = unat device mod 32 * 2 ^ 11"
    using lt by (subst unat_push_bit) (simp_all add: unat_ucast unat_and_7_1F)
  have f: "unat (push_bit 8 (ucast (function AND 0x7) :: u32)) = unat function mod 8 * 2 ^ 8"
    using lt by (subst unat_push_bit) (simp_all add: unat_ucast unat_and_7_1F)
  define x1 where "x1 = unat function mod 8 * 2 ^ 8 + unat offset div 4 * 4"
  define x2 where "x2 = unat device mod 32 * 2 ^ 11 + x1"
  define x3 where "x3 = unat bus * 2 ^ 16 + x2"
  have x: "unat offset div 4 * 4 < 2 ^ 8" "x1 < 2 ^ 11" "x2 < 2 ^ 16" "x3 < 2 ^ 31"
    using lt unfolding x3_def x2_def x1_def by simp_all
  have "unat function mod 8 * 2 ^ 8 OR unat offset div 4 * 4 = x1"
    "unat device mod 32 * 2 ^ 11 OR x1 = x2" "unat bus * 2 ^ 16 OR x2 = x3"
    unfolding x1_def x2_def x3_def by (rule or_low_field, use x in \<open>simp add: x1_def x2_def\<close>)+
  moreover have "2 ^ 31 OR x3 = 2 ^ 31 + x3" using or_low_field [OF x(4), of 1] by simp
  moreover have "unat (0x80000000 :: u32) = 2 ^ 31" by simp
  ultimately show ?thesis
    unfolding config_address_def unat_or b d f unat_and_FC by (simp only: x3_def x2_def x1_def add.assoc)
qed

text \<open>
  C25. The configuration address of a register has the enable bit set and holds bus, device,
  function and register number in disjoint fields; distinct registers of distinct functions
  (device below 32, function below 8, offsets multiples of 4) have distinct addresses.
\<close>

theorem config_address_injective:
  assumes "unat d < 32" "unat f < 8" "unat r mod 4 = 0" "unat d' < 32" "unat f' < 8" "unat r' mod 4 = 0"
  shows "unat (config_address b d f r) = 2 ^ 31 + unat b * 2 ^ 16 + unat d * 2 ^ 11 + unat f * 2 ^ 8 + unat r \<and>
    (config_address b d f r = config_address b' d' f' r' \<longleftrightarrow> b = b' \<and> d = d' \<and> f = f' \<and> r = r')"
proof (intro conjI)
  have v: "unat (config_address b d f r) = 2 ^ 31 + unat b * 2 ^ 16 + unat d * 2 ^ 11 + unat f * 2 ^ 8 + unat r"
    if "unat d < 32" "unat f < 8" "unat r mod 4 = 0" for b d f r
  proof -
    have "unat r div 4 * 4 = unat r" using that(3) by presburger
    with that show ?thesis by (simp only: config_address_value mod_less)
  qed
  show "unat (config_address b d f r) = 2 ^ 31 + unat b * 2 ^ 16 + unat d * 2 ^ 11 + unat f * 2 ^ 8 + unat r"
    by (rule v) (use assms in simp_all)
  have r: "unat r < 256" "unat r' < 256"
    using unsigned_less [of r, where ?'a = nat] unsigned_less [of r', where ?'a = nat] by simp_all
  show "config_address b d f r = config_address b' d' f' r' \<longleftrightarrow> b = b' \<and> d = d' \<and> f = f' \<and> r = r'"
  proof
    assume "config_address b d f r = config_address b' d' f' r'"
    then have eq: "((unat b * 32 + unat d) * 8 + unat f) * 256 + unat r =
        ((unat b' * 32 + unat d') * 8 + unat f') * 256 + unat r'"
      using v [OF assms(1-3), of b] v [OF assms(4-6), of b'] by simp
    note 1 = radix_unique [OF eq r]
    note 2 = radix_unique [OF 1(2) assms(2,5)]
    note 3 = radix_unique [OF 2(2) assms(1,4)]
    from 1 2 3 have "unat b = unat b' \<and> unat d = unat d' \<and> unat f = unat f' \<and> unat r = unat r'" by simp
    then show "b = b' \<and> d = d' \<and> f = f' \<and> r = r'" by (simp add: word_unat_eq_iff)
  qed simp
qed

theorem config_address_injective_witness:
  "unat (config_address 0 4 0 0x10) = 0x80002010 \<and> config_address 0 4 0 0x10 \<noteq> config_address 0 2 0 0x10"
  using config_address_injective [of 4 0 "0x10" 2 0 "0x10" 0 0] by simp

section \<open>Reading configuration space\<close>

text \<open>
  Configuration mechanism number 1, with the configuration space \<open>cs\<close> as a function of the
  address: a read of the data port directly after a write of the address port returns the
  addressed register. The enumeration only reads, so \<open>cs\<close> does not change.
\<close>

definition config_mechanism :: "env \<Rightarrow> (u32 \<Rightarrow> u32) \<Rightarrow> bool" where
  "config_mechanism E cs \<longleftrightarrow> (\<forall>t a. port32 E (t @ [Out32 CONFIG_ADDRESS a]) CONFIG_DATA = cs a)"

definition reg :: "(u32 \<Rightarrow> u32) \<Rightarrow> pci_config \<Rightarrow> u8 \<Rightarrow> u32" where
  "reg cs c off = cs (config_address (cfg_bus c) (cfg_device c) (cfg_function c) off)"

text \<open>From \<open>s\<close> to \<open>s'\<close> only the trace grew, by address writes and data reads.\<close>

fun config_access :: "bus_event \<Rightarrow> bool" where
  "config_access (Out32 p v) = (p = CONFIG_ADDRESS)"
| "config_access (In32 p v) = (p = CONFIG_DATA)"
| "config_access _ = False"

definition only_reads :: "'z machine_scheme \<Rightarrow> 'z machine_scheme \<Rightarrow> bool" where
  "only_reads s s' \<longleftrightarrow> (\<exists>t. s' = s\<lparr>trace := trace s @ t\<rparr> \<and> list_all config_access t)"

definition reads :: "('a, 'z machine_scheme) prog \<Rightarrow> 'a \<Rightarrow> bool" where
  "reads m v \<longleftrightarrow> returns_within (\<lambda>_. True) only_reads m (\<lambda>x. x = v)"

interpretation cfg: framed "\<lambda>_. True" only_reads
proof unfold_locales
  show "only_reads s s" for s :: "'z machine_scheme" by (auto simp: only_reads_def intro!: exI [of _ "[]"])
qed (auto simp: only_reads_def)

lemma readsD: "reads m v \<Longrightarrow> \<exists>s'. m s = Ret v s' \<and> only_reads s s'"
  unfolding reads_def by (auto elim: returns_withinD)

lemma reads_return: "reads (return v) v"
  unfolding reads_def by (rule cfg.within_return) (rule refl)

lemma reads_bind: "reads m v \<Longrightarrow> reads (f v) w \<Longrightarrow> reads (bind m f) w"
  unfolding reads_def by (erule cfg.within_bind) simp

lemma reads_for_fold:
  "(\<And>x a. x \<in> set xs \<Longrightarrow> reads (f x a) (g x a)) \<Longrightarrow> reads (for_fold xs f a) (fold g xs a)"
  unfolding reads_def by (rule cfg.within_for_fold)

lemma reads_cfg:
  assumes "config_mechanism E cs" and "off AND 0x3 = 0"
  shows "reads (cfg_read32 E c off) (reg cs c off)"
  unfolding reads_def
proof (rule returns_withinI)
  fix s :: "'z machine_scheme"
  let ?a = "config_address (cfg_bus c) (cfg_device c) (cfg_function c) off"
  let ?t = "[Out32 CONFIG_ADDRESS ?a, In32 CONFIG_DATA (reg cs c off)]"
  have "port32 E (trace s @ [Out32 CONFIG_ADDRESS ?a]) CONFIG_DATA = reg cs c off"
    using assms(1) by (simp add: config_mechanism_def reg_def)
  then have "cfg_read32 E c off s = Ret (reg cs c off) (s\<lparr>trace := trace s @ ?t\<rparr>)"
    using assms(2) by (simp add: cfg_read32_def run_simps access_defs Let_def)
  then show "\<exists>x s'. cfg_read32 E c off s = Ret x s' \<and> only_reads s s' \<and> x = reg cs c off"
    by (auto simp: only_reads_def)
qed

definition reg_vendor :: "(u32 \<Rightarrow> u32) \<Rightarrow> pci_config \<Rightarrow> u16" where
  "reg_vendor cs c = ucast (reg cs c 0)"

definition reg_header :: "(u32 \<Rightarrow> u32) \<Rightarrow> pci_config \<Rightarrow> u8" where
  "reg_header cs c = ucast (drop_bit 16 (reg cs c 0x0C))"

definition reg_class :: "(u32 \<Rightarrow> u32) \<Rightarrow> pci_config \<Rightarrow> u8 \<times> u8 \<times> u8" where
  "reg_class cs c = (let v = reg cs c 0x08 in (ucast (drop_bit 24 v), ucast (drop_bit 16 v), ucast (drop_bit 8 v)))"

lemma ucast_low: "ucast (v AND 0xFFFF) = (ucast v :: u16)" "ucast (v AND 0xFF) = (ucast v :: u8)" for v :: u32
proof -
  have m: "(0xFFFF :: u32) = mask 16" "(0xFF :: u32) = mask 8" by (simp_all add: mask_eq_exp_minus_1)
  show "ucast (v AND 0xFFFF) = (ucast v :: u16)" "ucast (v AND 0xFF) = (ucast v :: u8)"
    unfolding m by (rule bit_word_eqI, auto simp: bit_simps)+
qed

lemma reads_fields:
  assumes "config_mechanism E cs"
  shows "reads (vendor_id E c) (reg_vendor cs c)"
    and "reads (device_id E c) (ucast (drop_bit 16 (reg cs c 0)))"
    and "reads (header_type E c) (reg_header cs c)"
    and "reads (class_info E c) (reg_class cs c)"
  unfolding vendor_id_def device_id_def header_type_def class_info_def reg_vendor_def reg_header_def
    reg_class_def Let_def ucast_low
  by (rule reads_bind [OF reads_cfg [OF assms] reads_return], simp)+

section \<open>Base address registers\<close>

definition bar_raw :: "(u32 \<Rightarrow> u32) \<Rightarrow> pci_config \<Rightarrow> nat \<Rightarrow> u32" where
  "bar_raw cs c k = reg cs c (word_of_nat (0x10 + 4 * k))"

text \<open>What the PCI specification says a base address register means, given the next one.\<close>

definition decode_bar :: "u32 \<Rightarrow> u32 \<Rightarrow> bar" where
  "decode_bar r high =
     (if bit r 0 then Io (ucast (r AND NOT 3))
      else if \<not> bit r 2 \<and> \<not> bit r 1 then Memory32 (r AND NOT 0xF) (bit r 3)
      else if bit r 2 \<and> \<not> bit r 1 then Memory64 (ucast (r AND NOT 0xF) OR push_bit 32 (ucast high)) (bit r 3)
      else Unknown r)"

lemma and_3_bits: "x AND 3 = of_bool (bit x 0) + 2 * of_bool (bit x 1)" for x :: u32
proof -
  have "x AND 3 = take_bit (Suc (Suc 0)) x" by (simp add: take_bit_eq_mask mask_eq_exp_minus_1)
  also have "\<dots> = of_bool (bit x 0) + 2 * of_bool (bit x 1)"
    by (simp add: take_bit_Suc mod2_eq_if bit_iff_odd_drop_bit drop_bit_eq_div)
  finally show ?thesis .
qed

lemma bit_tests:
  fixes r :: u32
  shows "r AND 1 = 1 \<longleftrightarrow> bit r 0" "drop_bit 3 r AND 1 = 1 \<longleftrightarrow> bit r 3"
    "drop_bit 1 r AND 3 = 0 \<longleftrightarrow> \<not> bit r 1 \<and> \<not> bit r 2" "drop_bit 1 r AND 3 = 2 \<longleftrightarrow> \<not> bit r 1 \<and> bit r 2"
proof -
  show "r AND 1 = 1 \<longleftrightarrow> bit r 0" "drop_bit 3 r AND 1 = 1 \<longleftrightarrow> bit r 3"
    by (simp_all add: and_one_eq mod2_eq_if bit_iff_odd_drop_bit)
  have b: "bit (drop_bit 1 r) 0 = bit r 1" "bit (drop_bit 1 r) 1 = bit r 2"
    by (simp_all add: bit_simps numeral_2_eq_2)
  show "drop_bit 1 r AND 3 = 0 \<longleftrightarrow> \<not> bit r 1 \<and> \<not> bit r 2" "drop_bit 1 r AND 3 = 2 \<longleftrightarrow> \<not> bit r 1 \<and> bit r 2"
    unfolding and_3_bits b by (cases "bit r 1"; cases "bit r 2"; simp)+
qed

lemma masks32: "(0xFFFFFFFC :: u32) = NOT 3" "(0xFFFFFFF0 :: u32) = NOT 0xF"
  by simp_all

lemma bar_offset:
  assumes "k < 7"
  shows "(word_of_nat (0x10 + 4 * k) :: u8) AND 0x3 = 0" "unat (word_of_nat (0x10 + 4 * k) :: u8) = 0x10 + 4 * k"
proof -
  have "k \<in> {0, 1, 2, 3, 4, 5, 6}" using assms by auto
  then show "(word_of_nat (0x10 + 4 * k) :: u8) AND 0x3 = 0" "unat (word_of_nat (0x10 + 4 * k) :: u8) = 0x10 + 4 * k"
    by auto
qed

lemma reads_bar:
  assumes mech: "config_mechanism E cs" and k: "k < 6"
  shows "reads (read_bar E c (word_of_nat k)) (decode_bar (bar_raw cs c k) (bar_raw cs c (Suc k)))"
proof -
  let ?r = "bar_raw cs c k"
  have idx: "unat (word_of_nat k :: u8) = k" using k by (simp add: unat_of_nat)
  have idx4: "unat (word_of_nat (4 * k) :: u8) = 4 * k" unfolding unat_of_nat using k by simp
  have off: "u8_val (k * 4) = return (word_of_nat (4 * k))"
      "u8_val (0x10 + 4 * k) = return (word_of_nat (0x10 + 4 * k))"
    using k by (simp_all add: u8_val_def mult.commute)
  define o1 o2 where "o1 = (word_of_nat (0x10 + 4 * k) :: u8)" and "o2 = (word_of_nat (0x10 + 4 * Suc k) :: u8)"
  have k7: "k < 7" "Suc k < 7" using k by simp_all
  have high: "u8_val (unat o1 + 4) = return o2"
    unfolding o1_def o2_def bar_offset(2) [OF k7(1)] using k by (simp add: u8_val_def add.commute)
  have low: "reads (cfg_read32 E c o1) ?r"
    unfolding bar_raw_def o1_def by (rule reads_cfg [OF mech bar_offset(1) [OF k7(1)]])
  have up: "reads (cfg_read32 E c o2) (bar_raw cs c (Suc k))"
    unfolding bar_raw_def o2_def by (rule reads_cfg [OF mech bar_offset(1) [OF k7(2)]])
  show ?thesis
    unfolding read_bar_def idx off return_bind idx4 o1_def [symmetric] high bit_tests(2) Let_def masks32
    unfolding bit_tests(1,3,4)
    by (rule reads_bind [OF low]) (auto simp: decode_bar_def intro: reads_return reads_bind [OF up])
qed

lemma unat_and_not_mask: "unat (w AND NOT (mask n)) = unat w div 2 ^ n * 2 ^ n" for w :: "'a::len word"
proof -
  have "w AND NOT (mask n) = push_bit n (drop_bit n w)"
    by (rule bit_word_eqI) (auto simp: bit_simps)
  moreover have "unat w div 2 ^ n * 2 ^ n < 2 ^ LENGTH('a)"
    using unsigned_less [of w, where ?'a = nat] div_times_less_eq_dividend [of "unat w" "2 ^ n"] by linarith
  ultimately show ?thesis by (simp add: unat_push_bit unat_drop_bit)
qed

text \<open>The number a decoded register stands for.\<close>

definition bar_meaning :: "u32 \<Rightarrow> u32 \<Rightarrow> bar \<Rightarrow> bool" where
  "bar_meaning r high b = (case b of
     Io p \<Rightarrow> bit r 0 \<and> unat p = unat r div 4 * 4 mod 2 ^ 16
   | Memory32 base pre \<Rightarrow> \<not> bit r 0 \<and> unat base = unat r div 16 * 16 \<and> pre = bit r 3
   | Memory64 base pre \<Rightarrow> \<not> bit r 0 \<and> unat base = unat high * 2 ^ 32 + unat r div 16 * 16 \<and> pre = bit r 3
   | Unknown x \<Rightarrow> \<not> bit r 0 \<and> bit r 1 \<and> x = r)"

lemma decode_bar_meaning: "bar_meaning r high (decode_bar r high)"
proof -
  have m: "(3 :: u32) = mask 2" "(0xF :: u32) = mask 4" by (simp_all add: mask_eq_exp_minus_1)
  have lo: "unat r div 16 * 16 < 2 ^ 32"
    using unsigned_less [of r, where ?'a = nat] div_times_less_eq_dividend [of "unat r" 16] by simp
  have hi: "unat high < 2 ^ 32" using unsigned_less [of high, where ?'a = nat] by simp
  have low: "unat (ucast (r AND NOT 0xF) :: u64) = unat r div 16 * 16"
    using lo unfolding m by (simp add: unat_ucast unat_and_not_mask)
  have "unat (push_bit 32 (ucast high :: u64)) = unat high * 2 ^ 32"
    using hi by (subst unat_push_bit) (simp_all add: unat_ucast)
  then have "unat (ucast (r AND NOT 0xF) OR push_bit 32 (ucast high) :: u64) = unat high * 2 ^ 32 + unat r div 16 * 16"
    using or_low_field [OF lo, of "unat high"] low by (simp add: unat_or or.commute)
  then show ?thesis
    unfolding bar_meaning_def decode_bar_def
    by (auto simp: m unat_ucast unat_and_not_mask)
qed

text \<open>
  Reading base address register \<open>k\<close> (0 to 5) returns its decoding and only reads
  configuration space: an I/O base is the register without its two flag bits (16 bits of it), a
  32-bit memory base is the register without its four flag bits, and a 64-bit base combines it
  with the following register as the upper half.
\<close>

lemma read_bar_correct:
  assumes "config_mechanism E cs" and "k < 6"
  shows "\<exists>b s'. read_bar E c (word_of_nat k) s = Ret b s' \<and> only_reads s s' \<and>
    bar_meaning (bar_raw cs c k) (bar_raw cs c (Suc k)) b \<and>
    (is_64bit b \<longleftrightarrow> \<not> bit (bar_raw cs c k) 0 \<and> \<not> bit (bar_raw cs c k) 1 \<and> bit (bar_raw cs c k) 2)"
proof -
  obtain s' where "read_bar E c (word_of_nat k) s = Ret (decode_bar (bar_raw cs c k) (bar_raw cs c (Suc k))) s'"
      "only_reads s s'"
    using readsD [OF reads_bar [OF assms, of c]] by blast
  moreover have "is_64bit (decode_bar r h) \<longleftrightarrow> \<not> bit r 0 \<and> \<not> bit r 1 \<and> bit r 2" for r h
    by (simp add: decode_bar_def)
  ultimately show ?thesis using decode_bar_meaning by blast
qed

section \<open>All base address registers of a function\<close>

fun takes_next :: "bar option \<Rightarrow> bool" where
  "takes_next (Some b) = is_64bit b"
| "takes_next None = False"

text \<open>Register after register: the one after a 64-bit register is its upper half, not a register.\<close>

primrec bars_upto :: "(u32 \<Rightarrow> u32) \<Rightarrow> pci_config \<Rightarrow> nat \<Rightarrow> bar option list" where
  "bars_upto cs c 0 = []"
| "bars_upto cs c (Suc k) = bars_upto cs c k @
     [if k \<noteq> 0 \<and> takes_next (last (bars_upto cs c k)) then None
      else Some (decode_bar (bar_raw cs c k) (bar_raw cs c (Suc k)))]"

lemma length_bars_upto [simp]: "length (bars_upto cs c k) = k"
  by (induction k) simp_all

lemma bars_upto_nth:
  "j < k \<Longrightarrow> bars_upto cs c k ! j =
     (if j \<noteq> 0 \<and> takes_next (bars_upto cs c k ! (j - 1)) then None
      else Some (decode_bar (bar_raw cs c j) (bar_raw cs c (Suc j))))"
proof (induction k)
  case (Suc k)
  show ?case
  proof (cases "j < k")
    case True
    then have "j - 1 < k" by simp
    then show ?thesis using Suc.IH True by (simp add: nth_append)
  next
    case False
    then have "j = k" using Suc.prems by simp
    moreover have "last (bars_upto cs c k) = bars_upto cs c k ! (k - 1)" if "k \<noteq> 0"
      using that by (metis last_conv_nth length_bars_upto list.size(3))
    ultimately show ?thesis by (cases "k = 0") (simp_all add: nth_append)
  qed
qed simp

text \<open>The array of the loop: the registers read so far, then \<open>None\<close>.\<close>

definition bars_seen :: "(u32 \<Rightarrow> u32) \<Rightarrow> pci_config \<Rightarrow> nat \<Rightarrow> bar option list" where
  "bars_seen cs c i = bars_upto cs c i @ replicate (6 - i) None"

abbreviation bar_at :: "(u32 \<Rightarrow> u32) \<Rightarrow> pci_config \<Rightarrow> nat \<Rightarrow> bar" where
  "bar_at cs c i \<equiv> decode_bar (bar_raw cs c i) (bar_raw cs c (Suc i))"

abbreviation bar_start :: "(u32 \<Rightarrow> u32) \<Rightarrow> pci_config \<Rightarrow> nat \<Rightarrow> bool" where
  "bar_start cs c i \<equiv> i = 0 \<or> \<not> takes_next (last (bars_upto cs c i))"

lemma bars_seen_store:
  assumes "i < 6" and "bar_start cs c i"
  shows "(bars_seen cs c i)[i := Some (bar_at cs c i)] = bars_seen cs c (Suc i)"
proof -
  have "replicate (6 - i) None = None # replicate (5 - i) (None :: bar option)"
    using assms(1) by (simp add: Suc_diff_le [symmetric] flip: replicate_Suc)
  then show ?thesis using assms(2) by (auto simp: bars_seen_def list_update_append)
qed

lemma bars_seen_skip:
  assumes "i < 5" and "bar_start cs c i" and "is_64bit (bar_at cs c i)"
  shows "bars_seen cs c (Suc (Suc i)) = bars_seen cs c (Suc i)" "bar_start cs c (Suc (Suc i))"
proof -
  have none: "bars_upto cs c (Suc (Suc i)) = bars_upto cs c (Suc i) @ [None]" using assms(2,3) by auto
  moreover have "replicate (6 - Suc i) None = None # replicate (6 - Suc (Suc i)) (None :: bar option)"
    using assms(1) by (simp flip: replicate_Suc)
  ultimately show "bars_seen cs c (Suc (Suc i)) = bars_seen cs c (Suc i)"
    unfolding bars_seen_def by (simp only: append_assoc append_Cons append_Nil)
  show "bar_start cs c (Suc (Suc i))" using none by (auto simp del: bars_upto.simps)
qed

lemma reads_bar_loop:
  assumes "config_mechanism E cs"
  shows "i \<le> 6 \<Longrightarrow> 6 - i < n \<Longrightarrow> bar_start cs c i \<Longrightarrow>
    reads (bar_loop n E c (word_of_nat i) (bars_seen cs c i) :: (bar option list, 'z machine_scheme) prog) (bars_upto cs c 6)"
proof (induction n arbitrary: i)
  case 0
  then show ?case by simp
next
  case (Suc n)
  have idx: "unat (word_of_nat i :: u8) = i" using Suc.prems(1) by (simp add: unat_of_nat)
  have lt: "(word_of_nat i :: u8) < 6 \<longleftrightarrow> i < 6" by (simp add: word_less_nat_alt idx)
  let ?d = "bar_at cs c i"
  show ?case
  proof (cases "i = 6")
    case True
    then show ?thesis by (simp add: lt reads_return bars_seen_def)
  next
    case False
    then have i6: "i < 6" using Suc.prems(1) by simp
    have "reads (bar_loop n E c (if is_64bit ?d then word_of_nat i + 1 + 1 else word_of_nat i + 1)
        (bars_seen cs c (Suc i)) :: (bar option list, 'z machine_scheme) prog) (bars_upto cs c 6)"
    proof -
      consider (narrow) "\<not> is_64bit ?d" | (last) "is_64bit ?d" "i = 5" | (wide) "is_64bit ?d" "i < 5" using i6 by fastforce
      then show ?thesis
      proof cases
        case narrow
        have "bar_start cs c (Suc i)" using Suc.prems(3) narrow by auto
        from Suc.IH [OF _ _ this] Suc.prems i6 narrow show ?thesis by (simp add: add.commute del: bars_upto.simps)
      next
        case last
        obtain m where "n = Suc m" using Suc.prems(2) i6 by (cases n) auto
        moreover have "bars_seen cs c (Suc i) = bars_upto cs c 6" using last(2) by (simp add: bars_seen_def del: bars_upto.simps)
        ultimately show ?thesis using last by (simp add: reads_return del: bars_upto.simps)
      next
        case wide
        note skip = bars_seen_skip [OF wide(2) Suc.prems(3) wide(1)]
        moreover have "(word_of_nat (Suc (Suc i)) :: u8) = word_of_nat i + 1 + 1" by simp
        ultimately show ?thesis using Suc.IH [OF _ _ skip(2)] Suc.prems(2) wide by (simp only: if_True)
      qed
    qed
    then show ?thesis
      using i6 by (simp add: lt) (intro reads_bind [OF reads_bar [OF assms i6]], simp add: idx bars_seen_store [OF i6 Suc.prems(3)])
  qed
qed

lemma reads_bars:
  assumes "config_mechanism E cs"
  shows "reads (read_bars E c) (bars_upto cs c 6)"
  using reads_bar_loop [OF assms, of 0 7 c] by (simp add: read_bars_def bars_seen_def)

section \<open>Ordering of functions\<close>

text \<open>Functions are ordered by bus, then device, then function number.\<close>

definition rank :: "pci_config \<Rightarrow> nat" where
  "rank c = (unat (cfg_bus c) * 256 + unat (cfg_device c)) * 256 + unat (cfg_function c)"

lemma rank_inj: "rank c = rank d \<Longrightarrow> c = d"
proof -
  assume "rank c = rank d"
  then have eq: "(unat (cfg_bus c) * 256 + unat (cfg_device c)) * 256 + unat (cfg_function c) =
      (unat (cfg_bus d) * 256 + unat (cfg_device d)) * 256 + unat (cfg_function d)" by (simp only: rank_def)
  have lt: "unat w < 256" for w :: u8 using unsigned_less [of w, where ?'a = nat] by simp
  note 1 = radix_unique [OF eq lt lt]
  note 2 = radix_unique [OF 1(2) lt lt]
  from 1 2 show "c = d" by (cases c; cases d) (simp add: word_unat_eq_iff)
qed

instantiation pci_config :: linorder
begin

definition less_eq_pci_config :: "pci_config \<Rightarrow> pci_config \<Rightarrow> bool" where
  "less_eq_pci_config c d \<longleftrightarrow> rank c \<le> rank d"

definition less_pci_config :: "pci_config \<Rightarrow> pci_config \<Rightarrow> bool" where
  "less_pci_config c d \<longleftrightarrow> rank c < rank d"

instance
  by standard (auto simp: less_eq_pci_config_def less_pci_config_def intro: rank_inj)

end

section \<open>What enumeration finds\<close>

definition present :: "(u32 \<Rightarrow> u32) \<Rightarrow> pci_config \<Rightarrow> bool" where
  "present cs c \<longleftrightarrow> reg_vendor cs c \<noteq> 0xFFFF"

text \<open>A function is visible if it is present and is function 0, or its function 0 is a
  multi-function device.\<close>

definition visible :: "(u32 \<Rightarrow> u32) \<Rightarrow> pci_config \<Rightarrow> bool" where
  "visible cs c \<longleftrightarrow> present cs c \<and> (cfg_function c = 0 \<or>
     (let c0 = PciConfig (cfg_bus c) (cfg_device c) 0 in present cs c0 \<and> bit (reg_header cs c0) 7))"

definition the_device :: "(u32 \<Rightarrow> u32) \<Rightarrow> pci_config \<Rightarrow> pci_device" where
  "the_device cs c = (case reg_class cs c of (cls, subclass, prog_if) \<Rightarrow>
     \<lparr>dev_config = c, dev_vendor = reg_vendor cs c, dev_device = ucast (drop_bit 16 (reg cs c 0)),
      dev_class = cls, dev_subclass = subclass, dev_prog_if = prog_if, dev_header = reg_header cs c,
      dev_bars = bars_upto cs c 6\<rparr>)"

definition slot_functions :: "u8 \<Rightarrow> u8 \<Rightarrow> pci_config list" where
  "slot_functions b d = map (\<lambda>f. PciConfig b d (word_of_nat f)) [0..<8]"

definition all_functions :: "pci_config list" where
  "all_functions = concat (map (\<lambda>b. concat (map (slot_functions b) (map word_of_nat [0..<32])))
     (map word_of_nat [0..<256]))"

lemma reads_for_appends:
  assumes "\<And>x a. reads (f x a) (a @ h x)"
  shows "reads (for_fold xs f a) (a @ concat (map h xs))"
proof -
  have "fold (\<lambda>x a. a @ h x) xs a = a @ concat (map h xs)"
    by (induction xs arbitrary: a) simp_all
  with reads_for_fold [where f = f and g = "\<lambda>x a. a @ h x" and xs = xs and a = a, OF assms] show ?thesis by simp
qed

lemma reads_scan_function:
  assumes "config_mechanism E cs"
  shows "reads (scan_function E b d f devs)
    (devs @ (if present cs (PciConfig b d f) then [the_device cs (PciConfig b d f)] else []))"
proof -
  note r = reads_fields [OF assms, of "PciConfig b d f"] reads_bars [OF assms, of "PciConfig b d f"]
  show ?thesis
    unfolding scan_function_def pci_config_new_def Let_def present_def the_device_def
    by (rule reads_bind [OF r(1)])
      (auto intro!: reads_return reads_bind [OF r(4)] reads_bind [OF r(2)] reads_bind [OF r(3)]
        reads_bind [OF r(5)] split: prod.splits)
qed

lemma and_0x80: "w AND 0x80 \<noteq> 0 \<longleftrightarrow> bit w 7" for w :: u8
proof -
  have "(0x80 :: u8) = push_bit 7 1" by simp
  then have b: "bit (0x80 :: u8) n \<longleftrightarrow> n = 7" for n
    by (simp only: bit_push_bit_iff bit_1_iff) auto
  show ?thesis
  proof
    assume "w AND 0x80 \<noteq> 0"
    then obtain n where "bit (w AND 0x80) n" using bit_eq_iff [of "w AND 0x80" 0] by auto
    then show "bit w 7" by (simp only: bit_and_iff b) blast
  next
    assume "bit w 7"
    then have "bit (w AND 0x80) 7" by (simp only: bit_and_iff b)
    then show "w AND 0x80 \<noteq> 0" by auto
  qed
qed

lemma reads_scan_rest:
  assumes "config_mechanism E cs"
  shows "reads (for_fold (map word_of_nat fs) (scan_function E b d) devs)
      (devs @ map (the_device cs) (filter (present cs) (map (\<lambda>f. PciConfig b d (word_of_nat f)) fs)))"
proof -
  have "concat (map (\<lambda>f. if present cs (PciConfig b d f) then [the_device cs (PciConfig b d f)] else [])
      (map word_of_nat fs)) = map (the_device cs) (filter (present cs) (map (\<lambda>f. PciConfig b d (word_of_nat f)) fs))"
    by (induction fs) simp_all
  with reads_for_appends [where f = "scan_function E b d", OF reads_scan_function [OF assms],
      where xs = "map word_of_nat fs" and a = devs] show ?thesis by simp
qed

lemma visible_functions:
  defines "c b d \<equiv> PciConfig b d 0"
  shows "\<not> present cs (c b d) \<Longrightarrow> filter (visible cs) (slot_functions b d) = []"
    and "present cs (c b d) \<Longrightarrow> bit (reg_header cs (c b d)) 7 \<Longrightarrow> filter (visible cs) (slot_functions b d) =
      c b d # filter (present cs) (map (\<lambda>f. PciConfig b d (word_of_nat f)) [1..<8])"
    and "present cs (c b d) \<Longrightarrow> \<not> bit (reg_header cs (c b d)) 7 \<Longrightarrow>
      filter (visible cs) (slot_functions b d) = [c b d]"
proof -
  have split: "slot_functions b d = c b d # map (\<lambda>f. PciConfig b d (word_of_nat f)) [1..<8]"
    by (simp add: slot_functions_def upt_conv_Cons c_def)
  have nz: "(word_of_nat f :: u8) \<noteq> 0" if "f \<in> set [1..<8]" for f
    using that by (simp add: word_unat_eq_iff unat_of_nat)
  show "\<not> present cs (c b d) \<Longrightarrow> filter (visible cs) (slot_functions b d) = []"
    by (auto simp: visible_def slot_functions_def filter_empty_conv c_def)
  show "present cs (c b d) \<Longrightarrow> bit (reg_header cs (c b d)) 7 \<Longrightarrow> filter (visible cs) (slot_functions b d) =
      c b d # filter (present cs) (map (\<lambda>f. PciConfig b d (word_of_nat f)) [1..<8])"
    unfolding split by (auto simp: visible_def Let_def c_def intro!: filter_cong)
  show "present cs (c b d) \<Longrightarrow> \<not> bit (reg_header cs (c b d)) 7 \<Longrightarrow> filter (visible cs) (slot_functions b d) = [c b d]"
    unfolding split using nz by (auto simp: visible_def Let_def filter_empty_conv c_def)
qed

lemma reads_scan_device:
  assumes "config_mechanism E cs"
  shows "reads (scan_device E b d devs) (devs @ map (the_device cs) (filter (visible cs) (slot_functions b d)))"
proof -
  let ?c = "PciConfig b d 0"
  note r = reads_fields [OF assms, of ?c] reads_bars [OF assms, of ?c]
  obtain cls sub pif where cl: "reg_class cs ?c = (cls, sub, pif)" by (cases "reg_class cs ?c") auto
  have dev: "the_device cs ?c = \<lparr>dev_config = ?c, dev_vendor = reg_vendor cs ?c,
      dev_device = ucast (drop_bit 16 (reg cs ?c 0)), dev_class = cls, dev_subclass = sub,
      dev_prog_if = pif, dev_header = reg_header cs ?c, dev_bars = bars_upto cs ?c 6\<rparr>"
    by (simp add: the_device_def cl)
  note fns = visible_functions [of cs b d]
  show ?thesis
  proof (cases "present cs ?c")
    case False
    show ?thesis
      unfolding scan_device_def pci_config_new_def Let_def fns(1) [OF False]
      by (rule reads_bind [OF r(1)]) (use False in \<open>simp add: present_def reads_return\<close>)
  next
    case True
    then have v: "reg_vendor cs ?c \<noteq> 0xFFFF" by (simp add: present_def)
    show ?thesis
    proof (cases "bit (reg_header cs ?c) 7")
      case multi: True
      show ?thesis
        unfolding scan_device_def pci_config_new_def Let_def fns(2) [OF True multi]
        apply (rule reads_bind [OF r(1)], subst if_not_P [OF v], rule reads_bind [OF r(3)], rule reads_bind [OF r(4)])
        apply (simp only: cl prod.case and_0x80 multi if_True)
        apply (rule reads_bind [OF r(2)], rule reads_bind [OF r(5)])
        using reads_scan_rest [OF assms, of "[1..<8]" b d "devs @ [the_device cs ?c]"] by (simp add: dev)
    next
      case single: False
      show ?thesis
        unfolding scan_device_def pci_config_new_def Let_def fns(3) [OF True single]
        apply (rule reads_bind [OF r(1)], subst if_not_P [OF v], rule reads_bind [OF r(3)], rule reads_bind [OF r(4)])
        apply (simp only: cl prod.case and_0x80 single if_False)
        apply (rule reads_bind [OF r(2)], rule reads_bind [OF r(5)])
        using reads_return by (simp add: dev)
    qed
  qed
qed

lemma reads_enumerate:
  assumes "config_mechanism E cs"
  shows "reads (enumerate_pci E) (map (the_device cs) (filter (visible cs) all_functions))"
proof -
  note bus = reads_for_appends [where f = "scan_device E b" for b, OF reads_scan_device [OF assms], where xs = "map word_of_nat [0..<32]"]
  show ?thesis
    using reads_for_appends [where f = "\<lambda>b. for_fold (map word_of_nat [0..<32]) (scan_device E b)", OF bus, where xs = "map word_of_nat [0..<256]" and a = "[]"]
    unfolding enumerate_pci_def all_functions_def by (simp add: filter_concat map_concat comp_def)
qed

lemma sorted_concat:
  assumes "\<And>x. x \<in> set xs \<Longrightarrow> sorted_wrt P (f x)"
    and "sorted_wrt (\<lambda>x y. \<forall>a\<in>set (f x). \<forall>b\<in>set (f y). P a b) xs"
  shows "sorted_wrt P (concat (map f xs))"
  using assms by (induction xs) (auto simp: sorted_wrt_append)

lemma word_of_nat_below:
  "n \<le> 256 \<Longrightarrow> set (map word_of_nat [0..<n]) = {w :: u8. unat w < n}"
  "n \<le> 256 \<Longrightarrow> sorted_wrt (\<lambda>v w. unat v < unat (w :: u8)) (map word_of_nat [0..<n])"
proof -
  assume n: "n \<le> 256"
  have u: "unat (word_of_nat m :: u8) = m" if "m < n" for m using that n by (simp add: unat_of_nat)
  show "set (map word_of_nat [0..<n]) = {w :: u8. unat w < n}"
  proof (intro set_eqI iffI)
    fix w :: u8
    assume "w \<in> {w. unat w < n}"
    then show "w \<in> set (map word_of_nat [0..<n])" by (auto intro!: image_eqI [of _ _ "unat w"])
  qed (auto simp: u)
  show "sorted_wrt (\<lambda>v w. unat v < unat (w :: u8)) (map word_of_nat [0..<n])"
    using u by (auto simp: sorted_wrt_map intro!: sorted_wrt_mono_rel [OF _ sorted_wrt_upt])
qed

lemma slot_functions_set: "set (slot_functions b d) = {PciConfig b d f | f. unat f < 8}"
  using word_of_nat_below(1) [of 8] unfolding slot_functions_def by (auto simp: image_iff)

lemma all_functions_set: "set all_functions = {PciConfig b d f | b d f. unat d < 32 \<and> unat f < 8}"
proof -
  define buses devs where "buses = (map word_of_nat [0..<256] :: u8 list)" and "devs = (map word_of_nat [0..<32] :: u8 list)"
  have "unat b < 256" for b :: u8 using unsigned_less [of b, where ?'a = nat] by simp
  then have "set buses = UNIV" "set devs = {w. unat w < 32}"
    using word_of_nat_below(1) [of 256] word_of_nat_below(1) [of 32] unfolding buses_def devs_def by auto
  then show ?thesis
    unfolding all_functions_def buses_def [symmetric] devs_def [symmetric] by (auto simp: slot_functions_set)
qed

lemma rank_less:
  assumes "unat b < unat b' \<or> (b = b' \<and> (unat d < unat d' \<or> (d = d' \<and> unat f < unat f')))"
  shows "PciConfig b d f < PciConfig b' d' f'"
proof -
  have "unat d \<le> 255" "unat f \<le> 255"
    using unsigned_less [of d, where ?'a = nat] unsigned_less [of f, where ?'a = nat] by simp_all
  with assms show ?thesis by (auto simp: less_pci_config_def rank_def)
qed

lemma all_functions_sorted: "sorted_wrt (<) all_functions"
  unfolding all_functions_def
proof (rule sorted_concat)
  fix b :: u8
  show "sorted_wrt (<) (concat (map (slot_functions b) (map word_of_nat [0..<32])))"
  proof (rule sorted_concat)
    fix d :: u8
    have "sorted_wrt (<) (map (PciConfig b d) (map word_of_nat [0..<8]))"
      unfolding sorted_wrt_map [of _ "PciConfig b d"]
      by (rule sorted_wrt_mono_rel [OF _ word_of_nat_below(2)]) (auto intro: rank_less)
    then show "sorted_wrt (<) (slot_functions b d)" by (simp add: slot_functions_def comp_def)
    show "sorted_wrt (\<lambda>x y. \<forall>a\<in>set (slot_functions b x). \<forall>c\<in>set (slot_functions b y). a < c) (map word_of_nat [0..<32])"
      by (rule sorted_wrt_mono_rel [OF _ word_of_nat_below(2)]) (auto simp: slot_functions_set intro: rank_less)
  qed
  show "sorted_wrt (\<lambda>x y. \<forall>a\<in>set (concat (map (slot_functions x) (map word_of_nat [0..<32]))).
      \<forall>c\<in>set (concat (map (slot_functions y) (map word_of_nat [0..<32]))). a < c) (map word_of_nat [0..<256])"
    by (rule sorted_wrt_mono_rel [OF _ word_of_nat_below(2)]) (auto simp: slot_functions_set intro: rank_less)
qed

text \<open>
  C5. Enumeration over a bus with configuration mechanism 1 returns and touches nothing but the
  two configuration ports, which it only reads through. The list holds every function that is
  present and is function 0 or belongs to a device whose function 0 is present and marked
  multi-function, on all 256 buses and 32 devices, each exactly once and in ascending order of
  bus, device and function; every entry carries the identification, class, header type and base
  address registers of its function, and the register after a 64-bit base address register is
  never taken for a register of its own.
\<close>

theorem enumerate_pci_correct:
  assumes "config_mechanism E cs"
  shows "\<exists>ds s'. enumerate_pci E s = Ret ds s' \<and> only_reads s s' \<and>
    sorted (map dev_config ds) \<and> distinct (map dev_config ds) \<and>
    set (map dev_config ds) = {PciConfig b d f | b d f. unat d < 32 \<and> unat f < 8 \<and> visible cs (PciConfig b d f)} \<and>
    (\<forall>x\<in>set ds. dev_vendor x = reg_vendor cs (dev_config x) \<and>
       dev_device x = ucast (drop_bit 16 (reg cs (dev_config x) 0)) \<and>
       (dev_class x, dev_subclass x, dev_prog_if x) = reg_class cs (dev_config x) \<and>
       dev_header x = reg_header cs (dev_config x) \<and> length (dev_bars x) = 6 \<and>
       (\<forall>k<6. dev_bars x ! k = (if k \<noteq> 0 \<and> takes_next (dev_bars x ! (k - 1)) then None
          else Some (decode_bar (bar_raw cs (dev_config x) k) (bar_raw cs (dev_config x) (Suc k))))))"
proof -
  let ?fs = "filter (visible cs) all_functions"
  obtain s' where s': "enumerate_pci E s = Ret (map (the_device cs) ?fs) s'" "only_reads s s'"
    using readsD [OF reads_enumerate [OF assms]] by blast
  have cfg: "dev_config (the_device cs c) = c" for c by (simp add: the_device_def split: prod.splits)
  then have m: "map dev_config (map (the_device cs) ?fs) = ?fs" by (simp add: comp_def)
  have "sorted_wrt (<) ?fs" by (rule sorted_wrt_filter [OF all_functions_sorted])
  then have "sorted ?fs" "distinct ?fs" by (simp_all add: strict_sorted_iff)
  moreover have "set ?fs = {PciConfig b d f | b d f. unat d < 32 \<and> unat f < 8 \<and> visible cs (PciConfig b d f)}"
    by (auto simp: all_functions_set)
  moreover have "\<forall>x\<in>set (map (the_device cs) ?fs). dev_vendor x = reg_vendor cs (dev_config x) \<and>
       dev_device x = ucast (drop_bit 16 (reg cs (dev_config x) 0)) \<and>
       (dev_class x, dev_subclass x, dev_prog_if x) = reg_class cs (dev_config x) \<and>
       dev_header x = reg_header cs (dev_config x) \<and> length (dev_bars x) = 6 \<and>
       (\<forall>k<6. dev_bars x ! k = (if k \<noteq> 0 \<and> takes_next (dev_bars x ! (k - 1)) then None
          else Some (decode_bar (bar_raw cs (dev_config x) k) (bar_raw cs (dev_config x) (Suc k)))))"
  proof
    fix x assume "x \<in> set (map (the_device cs) ?fs)"
    then obtain c where x: "x = the_device cs c" by auto
    have "dev_bars x = bars_upto cs c 6" "dev_config x = c"
      by (simp_all add: x the_device_def split: prod.splits)
    then have "length (dev_bars x) = 6" "\<forall>k<6. dev_bars x ! k = (if k \<noteq> 0 \<and> takes_next (dev_bars x ! (k - 1)) then None
          else Some (decode_bar (bar_raw cs (dev_config x) k) (bar_raw cs (dev_config x) (Suc k))))"
      using bars_upto_nth [of _ 6 cs c] by simp_all
    then show "dev_vendor x = reg_vendor cs (dev_config x) \<and>
       dev_device x = ucast (drop_bit 16 (reg cs (dev_config x) 0)) \<and>
       (dev_class x, dev_subclass x, dev_prog_if x) = reg_class cs (dev_config x) \<and>
       dev_header x = reg_header cs (dev_config x) \<and> length (dev_bars x) = 6 \<and>
       (\<forall>k<6. dev_bars x ! k = (if k \<noteq> 0 \<and> takes_next (dev_bars x ! (k - 1)) then None
          else Some (decode_bar (bar_raw cs (dev_config x) k) (bar_raw cs (dev_config x) (Suc k)))))"
      by (simp add: x the_device_def split: prod.splits)
  qed
  ultimately show ?thesis
    using s' by (intro exI [of _ "map (the_device cs) ?fs"] exI [of _ s']) (simp only: m simp_thms)
qed

text \<open>A machine with one function, an xHCI controller at 00:04.0 with a 64-bit base address.\<close>

definition demo_space :: "u32 \<Rightarrow> u32" where
  "demo_space a = (if a = 0x80002000 then 0x000D1B36 else if a = 0x80002008 then 0x0C033001
     else if a = 0x80002010 then 0xFEBF0004 else if a = 0x80002014 then 0x1
     else if a = 0x8000200C then 0 else 0xFFFFFFFF)"

definition demo_pci :: env where
  "demo_pci = \<lparr>fuel = 1, port8 = (\<lambda>_ _. 0x60),
     port32 = (\<lambda>t p. case last t of Out32 q a \<Rightarrow> demo_space a | _ \<Rightarrow> 0),
     mmio8 = (\<lambda>_ _. 0), mmio32 = (\<lambda>_ _. 0), dma32 = (\<lambda>_ _. 0), heap_alloc = (\<lambda>_ _ _. 0), irqs = (\<lambda>_. []),
     frame_ip = (\<lambda>_. 0), debug_text = (\<lambda>_ _. [])\<rparr>"

lemma demo_pci_mechanism: "config_mechanism demo_pci demo_space"
  by (simp add: config_mechanism_def demo_pci_def)

lemma read_bar_correct_instance:
  "\<exists>b s'. read_bar demo_pci (PciConfig 0 4 0) 0 \<lparr>trace = []\<rparr> = Ret b s' \<and>
     bar_meaning 0xFEBF0004 1 b \<and> is_64bit b"
proof -
  have raw: "bar_raw demo_space (PciConfig 0 4 0) 0 = 0xFEBF0004" "bar_raw demo_space (PciConfig 0 4 0) (Suc 0) = 1"
    by (simp_all add: bar_raw_def reg_def config_address_def demo_space_def)
  have "bit (0xFEBF0004 :: u32) 2 \<and> \<not> bit (0xFEBF0004 :: u32) 0 \<and> \<not> bit (0xFEBF0004 :: u32) 1"
    by (simp add: bit_numeral_rec)
  then show ?thesis
    using read_bar_correct [OF demo_pci_mechanism, of 0 "PciConfig 0 4 0" "\<lparr>trace = []\<rparr>"]
    unfolding raw by auto
qed

theorem enumerate_pci_correct_witness:
  "\<exists>ds s'. enumerate_pci demo_pci \<lparr>trace = []\<rparr> = Ret ds s' \<and>
     PciConfig 0 4 0 \<in> set (map dev_config ds) \<and> PciConfig 0 4 1 \<notin> set (map dev_config ds)"
proof -
  have "visible demo_space (PciConfig 0 4 0)" "\<not> visible demo_space (PciConfig 0 4 1)"
    by (simp_all add: visible_def present_def reg_vendor_def reg_header_def reg_def config_address_def
        demo_space_def Let_def)
  then show ?thesis
    using enumerate_pci_correct [OF demo_pci_mechanism, of "\<lparr>trace = []\<rparr>"] by auto
qed

text \<open>
  C26. The controllers handed to the xHCI driver after a scan are exactly the visible functions
  whose class register reads 0x0C, 0x03, 0x30, each once and in scan order, and the address the
  driver takes from a controller whose first base address register is a 64-bit one is that
  register without its flag bits plus \<open>2 ^ 32\<close> times the second.
\<close>

theorem find_xhci_correct:
  assumes "config_mechanism E cs"
  shows "\<exists>ds s'. enumerate_pci E s = Ret ds s' \<and>
    sorted (map dev_config (find_xhci ds)) \<and> distinct (map dev_config (find_xhci ds)) \<and>
    set (map dev_config (find_xhci ds)) = {PciConfig b d f | b d f. unat d < 32 \<and> unat f < 8 \<and>
      visible cs (PciConfig b d f) \<and> reg_class cs (PciConfig b d f) = (0x0C, 0x03, 0x30)} \<and>
    (\<forall>x\<in>set (find_xhci ds). \<exists>b. dev_bars x ! 0 = Some b \<and>
      bar_meaning (bar_raw cs (dev_config x) 0) (bar_raw cs (dev_config x) 1) b \<and>
      (is_64bit b \<longrightarrow> (\<exists>a. memory_base b = Some a \<and>
         unat a = unat (bar_raw cs (dev_config x) 1) * 2 ^ 32 + unat (bar_raw cs (dev_config x) 0) div 16 * 16)))"
proof -
  let ?fs = "filter (visible cs) all_functions"
  obtain s' where s': "enumerate_pci E s = Ret (map (the_device cs) ?fs) s'"
    using readsD [OF reads_enumerate [OF assms]] by blast
  have dev: "dev_config (the_device cs c) = c" "dev_bars (the_device cs c) = bars_upto cs c 6"
    "(dev_class (the_device cs c), dev_subclass (the_device cs c), dev_prog_if (the_device cs c)) = reg_class cs c" for c
    by (simp_all add: the_device_def split: prod.splits)
  have x: "find_xhci (map (the_device cs) xs) = map (the_device cs) (filter (\<lambda>c. reg_class cs c = (0x0C, 0x03, 0x30)) xs)" for xs
    by (induction xs) (auto simp: find_xhci_def dev(3) [symmetric])
  let ?xs = "filter (\<lambda>c. reg_class cs c = (0x0C, 0x03, 0x30)) ?fs"
  have m: "map dev_config (find_xhci (map (the_device cs) ?fs)) = ?xs"
    unfolding x by (simp add: comp_def dev)
  have "sorted_wrt (<) ?xs" by (intro sorted_wrt_filter all_functions_sorted)
  then have "sorted ?xs" "distinct ?xs" unfolding strict_sorted_iff by blast+
  moreover have "set ?xs = {PciConfig b d f | b d f. unat d < 32 \<and> unat f < 8 \<and>
      visible cs (PciConfig b d f) \<and> reg_class cs (PciConfig b d f) = (0x0C, 0x03, 0x30)}"
    by (auto simp: all_functions_set)
  moreover have "\<exists>b. dev_bars (the_device cs c) ! 0 = Some b \<and> bar_meaning (bar_raw cs c 0) (bar_raw cs c 1) b \<and>
      (is_64bit b \<longrightarrow> (\<exists>a. memory_base b = Some a \<and> unat a = unat (bar_raw cs c 1) * 2 ^ 32 + unat (bar_raw cs c 0) div 16 * 16))" for c
  proof -
    let ?b = "decode_bar (bar_raw cs c 0) (bar_raw cs c 1)"
    have "dev_bars (the_device cs c) ! 0 = Some ?b" using bars_upto_nth [of 0 6 cs c] by (simp add: dev)
    moreover have "is_64bit b \<Longrightarrow> bar_meaning r h b \<Longrightarrow>
        \<exists>a. memory_base b = Some a \<and> unat a = unat h * 2 ^ 32 + unat r div 16 * 16" for b r h
      by (cases b) (simp_all add: bar_meaning_def)
    ultimately show ?thesis using decode_bar_meaning by blast
  qed
  ultimately show ?thesis
    using s' by (intro exI [of _ "map (the_device cs) ?fs"] exI [of _ s'] conjI) (auto simp: m x dev comp_def)
qed

theorem find_xhci_correct_witness:
  "\<exists>ds s'. enumerate_pci demo_pci \<lparr>trace = []\<rparr> = Ret ds s' \<and> PciConfig 0 4 0 \<in> set (map dev_config (find_xhci ds))"
proof -
  have "visible demo_space (PciConfig 0 4 0)"
    by (simp add: visible_def present_def reg_vendor_def reg_def config_address_def demo_space_def)
  moreover have "reg_class demo_space (PciConfig 0 4 0) = (0x0C, 0x03, 0x30)"
    by (simp add: reg_class_def reg_def config_address_def demo_space_def Let_def drop_bit_eq_div)
  ultimately show ?thesis
    using find_xhci_correct [OF demo_pci_mechanism, of "\<lparr>trace = []\<rparr>"] by auto
qed

end
