(* ===== verification/Xhci_Registers.thy ===== *)
theory Xhci_Registers
  imports Serial
begin

text \<open>
  The register half of \<^verbatim>\<open>kernel/src/xhci.rs\<close>: addresses and accessors of the controller's
  memory-mapped registers, and what the register fields mean to the controller. The controller
  itself is part of the environment.
\<close>

section \<open>The register space\<close>

record registers =
  base :: u64
  op_offset :: u64
  rt_offset :: u64

definition registers_new :: "env \<Rightarrow> u64 \<Rightarrow> u64 \<Rightarrow> (registers, 'z machine_scheme) prog" where
  "registers_new E bar_phys phys_offset =
     bind (u64_add phys_offset bar_phys) (\<lambda>b.
     bind (read8 E b) (\<lambda>caplength.
     bind (u64_add b 0x18) (\<lambda>a.
     bind (read32 E a) (\<lambda>rtsoff.
     return \<lparr>base = b, op_offset = ucast caplength, rt_offset = ucast rtsoff\<rparr>))))"

subsection \<open>Capability registers\<close>

definition read_cap :: "env \<Rightarrow> registers \<Rightarrow> u64 \<Rightarrow> (u32, 'z machine_scheme) prog" where
  "read_cap E R offset = bind (u64_add (base R) offset) (read32 E)"

definition hciversion :: "env \<Rightarrow> registers \<Rightarrow> (u16, 'z machine_scheme) prog" where
  "hciversion E R = bind (u64_add (base R) 0x00) (\<lambda>a. bind (read32 E a) (\<lambda>v. return (ucast (drop_bit 16 v))))"

definition max_slots :: "env \<Rightarrow> registers \<Rightarrow> (u8, 'z machine_scheme) prog" where
  "max_slots E R = bind (read_cap E R 4) (\<lambda>v. return (ucast v))"

definition max_ports :: "env \<Rightarrow> registers \<Rightarrow> (u8, 'z machine_scheme) prog" where
  "max_ports E R = bind (read_cap E R 4) (\<lambda>v. return (ucast (drop_bit 24 v AND 0xFF)))"

definition max_scratchpad_bufs :: "env \<Rightarrow> registers \<Rightarrow> (u16, 'z machine_scheme) prog" where
  "max_scratchpad_bufs E R = bind (read_cap E R 8) (\<lambda>v.
     let hi = drop_bit 27 v AND 0x1F; lo = drop_bit 21 v AND 0x1F in
     return (ucast (push_bit 5 hi OR lo)))"

definition context_size_64 :: "env \<Rightarrow> registers \<Rightarrow> (bool, 'z machine_scheme) prog" where
  "context_size_64 E R = bind (read_cap E R 0x10) (\<lambda>v. return (v AND push_bit 2 1 \<noteq> 0))"

subsection \<open>Operational registers\<close>

definition op_addr :: "registers \<Rightarrow> u64 \<Rightarrow> (u64, 's) prog" where
  "op_addr R offset = bind (u64_add (base R) (op_offset R)) (\<lambda>a. u64_add a offset)"

definition read_op :: "env \<Rightarrow> registers \<Rightarrow> u64 \<Rightarrow> (u32, 'z machine_scheme) prog" where
  "read_op E R offset = bind (op_addr R offset) (read32 E)"

definition write_op :: "registers \<Rightarrow> u64 \<Rightarrow> u32 \<Rightarrow> (unit, 'z machine_scheme) prog" where
  "write_op R offset v = bind (op_addr R offset) (\<lambda>a. write32 a v)"

definition write_op64 :: "registers \<Rightarrow> u64 \<Rightarrow> u64 \<Rightarrow> (unit, 'z machine_scheme) prog" where
  "write_op64 R offset v =
     seq (bind (op_addr R offset) (\<lambda>a. write32 a (ucast v)))
     (bind (u64_add offset 4) (\<lambda>o4. bind (op_addr R o4) (\<lambda>a. write32 a (ucast (drop_bit 32 v)))))"

definition usbcmd :: "env \<Rightarrow> registers \<Rightarrow> (u32, 'z machine_scheme) prog" where
  "usbcmd E R = read_op E R 0x00"

definition write_usbcmd :: "registers \<Rightarrow> u32 \<Rightarrow> (unit, 'z machine_scheme) prog" where
  "write_usbcmd R v = write_op R 0x00 v"

definition usbsts :: "env \<Rightarrow> registers \<Rightarrow> (u32, 'z machine_scheme) prog" where
  "usbsts E R = read_op E R 0x04"

definition write_usbsts :: "registers \<Rightarrow> u32 \<Rightarrow> (unit, 'z machine_scheme) prog" where
  "write_usbsts R v = write_op R 0x04 v"

definition pagesize :: "env \<Rightarrow> registers \<Rightarrow> (u32, 'z machine_scheme) prog" where
  "pagesize E R = read_op E R 0x08"

definition write_dcbaap :: "registers \<Rightarrow> u64 \<Rightarrow> (unit, 'z machine_scheme) prog" where
  "write_dcbaap R a = seq (write_op R 0x30 (ucast a)) (write_op R 0x34 (ucast (drop_bit 32 a)))"

definition write_crcr :: "registers \<Rightarrow> u64 \<Rightarrow> (unit, 'z machine_scheme) prog" where
  "write_crcr R a = seq (write_op R 0x18 (ucast a)) (write_op R 0x1c (ucast (drop_bit 32 a)))"

definition write_config :: "registers \<Rightarrow> u32 \<Rightarrow> (unit, 'z machine_scheme) prog" where
  "write_config R v = write_op R 0x38 v"

text \<open>The address of a doorbell.\<close>

definition doorbell :: "env \<Rightarrow> registers \<Rightarrow> u32 \<Rightarrow> (u64, 'z machine_scheme) prog" where
  "doorbell E R target =
     bind (read_cap E R 0x14) (\<lambda>v. let dboff = (ucast (v AND NOT 0x3) :: u64) in
     bind (u64_add (base R) dboff) (\<lambda>a. u64_add a (ucast target * 4)))"

subsection \<open>Runtime registers\<close>

definition rt_addr :: "registers \<Rightarrow> u64 \<Rightarrow> (u64, 's) prog" where
  "rt_addr R offset = bind (u64_add (base R) (rt_offset R)) (\<lambda>a. u64_add a offset)"

definition write_erstba :: "registers \<Rightarrow> u64 \<Rightarrow> (unit, 'z machine_scheme) prog" where
  "write_erstba R v =
     seq (bind (rt_addr R 0x30) (\<lambda>a. write32 a (ucast v)))
     (bind (rt_addr R 0x34) (\<lambda>a. write32 a (ucast (drop_bit 32 v))))"

definition write_erstsz :: "registers \<Rightarrow> u16 \<Rightarrow> (unit, 'z machine_scheme) prog" where
  "write_erstsz R count = bind (rt_addr R 0x28) (\<lambda>a. write16 a count)"

definition write_erdp :: "registers \<Rightarrow> u64 \<Rightarrow> (unit, 'z machine_scheme) prog" where
  "write_erdp R v =
     seq (bind (rt_addr R 0x38) (\<lambda>a. write32 a (ucast v)))
     (bind (rt_addr R 0x3c) (\<lambda>a. write32 a (ucast (drop_bit 32 v))))"

definition enable_interrupter :: "registers \<Rightarrow> (unit, 'z machine_scheme) prog" where
  "enable_interrupter R =
     seq (bind (rt_addr R 0x20) (\<lambda>a. write32 a (push_bit 1 1)))
     (bind (rt_addr R 0x20) (\<lambda>a. write32 a (push_bit 0 1)))"

subsection \<open>Port registers\<close>

definition portsc_addr :: "registers \<Rightarrow> u8 \<Rightarrow> (u64, 's) prog" where
  "portsc_addr R port =
     bind (u64_add (base R) (op_offset R)) (\<lambda>a.
     bind (u64_add a 0x400) (\<lambda>b.
     if port = 0 then fail ArithOverflow
     else u64_add b ((ucast port - 1) * 0x10)))"

definition read_portsc :: "env \<Rightarrow> registers \<Rightarrow> u8 \<Rightarrow> (u32, 'z machine_scheme) prog" where
  "read_portsc E R port = bind (portsc_addr R port) (read32 E)"

definition write_portsc :: "registers \<Rightarrow> u8 \<Rightarrow> u32 \<Rightarrow> (unit, 'z machine_scheme) prog" where
  "write_portsc R port v = bind (portsc_addr R port) (\<lambda>a. write32 a v)"

subsection \<open>Bit fields\<close>

definition RS :: u32 where "RS = push_bit 0 1"
definition HCRST :: u32 where "HCRST = push_bit 1 1"
definition INTE :: u32 where "INTE = push_bit 2 1"
definition HSEE :: u32 where "HSEE = push_bit 3 1"
definition HCH :: u32 where "HCH = push_bit 0 1"
definition CNR :: u32 where "CNR = push_bit 11 1"
definition CCS :: u32 where "CCS = push_bit 0 1"
definition PED :: u32 where "PED = push_bit 1 1"
definition PR :: u32 where "PR = push_bit 4 1"
definition PP :: u32 where "PP = push_bit 9 1"
definition PRC :: u32 where "PRC = push_bit 21 1"
definition SPEED_SHIFT :: nat where "SPEED_SHIFT = 10"
definition SPEED_MASK :: u32 where "SPEED_MASK = push_bit 10 0xF"

section \<open>Addresses\<close>

text \<open>A register window that fits the address space: 4 KiB of operational and port registers
  after the capability registers, 64 bytes of runtime registers.\<close>

definition window_ok :: "registers \<Rightarrow> bool" where
  "window_ok R \<longleftrightarrow> unat (base R) + unat (op_offset R) + 0x1400 < 2 ^ 64 \<and>
     unat (base R) + unat (rt_offset R) + 0x40 < 2 ^ 64 \<and> unat (base R) + 0x20 < 2 ^ 64"

definition op_base :: "registers \<Rightarrow> u64" where
  "op_base R = base R + op_offset R"

definition rt_base :: "registers \<Rightarrow> u64" where
  "rt_base R = base R + rt_offset R"

definition portsc_at :: "registers \<Rightarrow> u8 \<Rightarrow> u64" where
  "portsc_at R p = base R + op_offset R + 0x400 + (ucast p - 1) * 0x10"

lemma u64_add_return: "unat a + unat b < 2 ^ 64 \<Longrightarrow> u64_add a b = return (a + b)"
  by (simp add: u64_add_def)

lemma unat_add_fits: "unat a + unat b < 2 ^ 64 \<Longrightarrow> unat (a + b) = unat a + unat b" for a b :: u64
  by (simp add: unat_word_ariths)

lemma portsc_offset:
  fixes p :: u8
  assumes "p \<noteq> 0"
  shows "unat ((ucast p - 1) * (0x10 :: u64)) = (unat p - 1) * 0x10" "unat ((ucast p - 1) * (0x10 :: u64)) \<le> 0x1000"
proof -
  have pu: "0 < unat p" "unat p < 256"
    using assms unsigned_less [of p, where ?'a = nat] by (simp_all add: unat_gt_0)
  then have pred: "unat (ucast p - 1 :: u64) = unat p - 1"
    by (subst unat_sub) (simp_all add: word_le_nat_alt unat_ucast)
  then show off: "unat ((ucast p - 1) * (0x10 :: u64)) = (unat p - 1) * 0x10"
    using pu by (simp only: unat_word_ariths(2)) simp
  show "unat ((ucast p - 1) * (0x10 :: u64)) \<le> 0x1000" unfolding off using pu by linarith
qed

lemma portsc_at_unat:
  assumes "window_ok R" and "p \<noteq> 0"
  shows "unat (portsc_at R p) = unat (base R) + unat (op_offset R) + 0x400 + (unat p - 1) * 0x10"
proof -
  define w where "w = (ucast p - 1) * (0x10 :: u64)"
  note off = portsc_offset [OF assms(2), folded w_def]
  have 1: "unat (base R + op_offset R) = unat (base R) + unat (op_offset R)"
    using assms(1) by (simp add: window_ok_def unat_add_fits)
  have 2: "unat (base R + op_offset R + 0x400) = unat (base R) + unat (op_offset R) + 0x400"
    using assms(1) 1 by (subst unat_add_fits) (simp_all add: window_ok_def)
  have "unat (base R + op_offset R + 0x400 + w) = unat (base R) + unat (op_offset R) + 0x400 + unat w"
    using assms(1) 2 off(2) by (subst unat_add_fits) (simp_all add: window_ok_def)
  then show ?thesis unfolding portsc_at_def w_def [symmetric] off(1) .
qed

lemma window_addr:
  assumes "window_ok R"
  shows "unat off < 0x1400 \<Longrightarrow> op_addr R off = return (op_base R + off)"
    and "unat off < 0x40 \<Longrightarrow> rt_addr R off = return (rt_base R + off)"
    and "unat off < 0x20 \<Longrightarrow> u64_add (base R) off = return (base R + off)"
    and "p \<noteq> 0 \<Longrightarrow> portsc_addr R p = return (portsc_at R p)"
proof -
  have op: "unat (base R + op_offset R) = unat (base R) + unat (op_offset R)"
    and rt: "unat (base R + rt_offset R) = unat (base R) + unat (rt_offset R)"
    using assms by (simp_all add: window_ok_def unat_add_fits)
  show "unat off < 0x1400 \<Longrightarrow> op_addr R off = return (op_base R + off)"
    using assms op by (simp add: op_addr_def op_base_def window_ok_def u64_add_return)
  show "unat off < 0x40 \<Longrightarrow> rt_addr R off = return (rt_base R + off)"
    using assms rt by (simp add: rt_addr_def rt_base_def window_ok_def u64_add_return)
  show "unat off < 0x20 \<Longrightarrow> u64_add (base R) off = return (base R + off)"
    using assms by (simp add: window_ok_def u64_add_return)
  assume p: "p \<noteq> 0"
  define w where "w = (ucast p - 1) * (0x10 :: u64)"
  note off = portsc_offset [OF p, folded w_def]
  have "unat (base R + op_offset R + 0x400) = unat (base R) + unat (op_offset R) + 0x400"
    using assms op by (subst unat_add_fits) (simp_all add: window_ok_def)
  then have "unat (base R + op_offset R + 0x400) + unat w < 2 ^ 64"
    using assms off(2) by (simp add: window_ok_def)
  from u64_add_return [OF this] have "portsc_addr R p = return (base R + op_offset R + 0x400 + w)"
    unfolding portsc_addr_def w_def [symmetric]
    using assms op p by (simp add: window_ok_def u64_add_return)
  then show "portsc_addr R p = return (portsc_at R p)"
    by (simp only: w_def portsc_at_def)
qed

text \<open>The register accesses, with their addresses computed.\<close>

lemma window_access:
  assumes "window_ok R"
  shows "unat off < 0x20 \<Longrightarrow> read_cap E R off = read32 E (base R + off)"
    and "unat off < 0x1400 \<Longrightarrow> read_op E R off = read32 E (op_base R + off)"
    and "unat off < 0x1400 \<Longrightarrow> write_op R off v = write32 (op_base R + off) v"
    and "p \<noteq> 0 \<Longrightarrow> read_portsc E R p = read32 E (portsc_at R p)"
    and "p \<noteq> 0 \<Longrightarrow> write_portsc R p v = write32 (portsc_at R p) v"
  by (simp_all only: read_cap_def read_op_def write_op_def read_portsc_def write_portsc_def window_addr [OF assms]
      return_bind simp_thms)

lemma register_accesses:
  assumes "window_ok R"
  shows "usbcmd E R = read32 E (op_base R)" "write_usbcmd R v = write32 (op_base R) v"
    "usbsts E R = read32 E (op_base R + 4)" "write_config R v = write32 (op_base R + 0x38) v"
    "write_dcbaap R a = seq (write32 (op_base R + 0x30) (ucast a)) (write32 (op_base R + 0x34) (ucast (drop_bit 32 a)))"
    "write_crcr R a = seq (write32 (op_base R + 0x18) (ucast a)) (write32 (op_base R + 0x1c) (ucast (drop_bit 32 a)))"
    "write_erstba R a = seq (write32 (rt_base R + 0x30) (ucast a)) (write32 (rt_base R + 0x34) (ucast (drop_bit 32 a)))"
    "write_erstsz R n = write16 (rt_base R + 0x28) n"
    "write_erdp R a = seq (write32 (rt_base R + 0x38) (ucast a)) (write32 (rt_base R + 0x3c) (ucast (drop_bit 32 a)))"
    "enable_interrupter R = seq (write32 (rt_base R + 0x20) 2) (write32 (rt_base R + 0x20) 1)"
  by (simp_all add: usbcmd_def write_usbcmd_def usbsts_def write_config_def write_dcbaap_def write_crcr_def
      write_erstba_def write_erstsz_def write_erdp_def enable_interrupter_def window_access [OF assms] window_addr(2) [OF assms])

section \<open>What the fields mean to the controller\<close>

text \<open>
  The number of scratchpad buffers as the xHCI specification defines it (section 5.3.4): bits
  25:21 of HCSPARAMS2 are the high and bits 31:27 the low five bits.
\<close>

definition field5 :: "u32 \<Rightarrow> nat \<Rightarrow> nat" where
  "field5 v i = unat v div 2 ^ i mod 32"

definition scratchpad_bufs_spec :: "u32 \<Rightarrow> nat" where
  "scratchpad_bufs_spec v = field5 v 21 * 32 + field5 v 27"

lemma unat_field5: "unat (drop_bit i v AND 0x1F) = field5 v i" for v :: u32
proof -
  have "(0x1F :: u32) = mask 5" by (simp add: mask_eq_exp_minus_1)
  then show ?thesis by (simp only: unat_and_mask unat_drop_bit field5_def) simp
qed

text \<open>
  \<open>max_scratchpad_bufs\<close> combines the two fields of HCSPARAMS2 the wrong way round: it
  returns 32 times the low field plus the high field, which is the specified number only when
  the two fields are equal.
\<close>

theorem max_scratchpad_bufs_swapped:
  fixes E :: env and s :: "'z machine_scheme"
  assumes "window_ok R"
  defines "v \<equiv> mmio32 E (trace s) (base R + 8)"
  shows "\<exists>n s'. max_scratchpad_bufs E R s = Ret n s' \<and> unat n = field5 v 27 * 32 + field5 v 21 \<and>
    (unat n = scratchpad_bufs_spec v \<longleftrightarrow> field5 v 21 = field5 v 27)"
proof -
  let ?v = v
  let ?n = "ucast (push_bit 5 (drop_bit 27 v AND 0x1F) OR (drop_bit 21 v AND 0x1F)) :: u16"
  have lt: "field5 ?v 27 < 32" "field5 ?v 21 < 32" by (simp_all add: field5_def)
  have hi: "unat (push_bit 5 (drop_bit 27 ?v AND 0x1F)) = field5 ?v 27 * 2 ^ 5"
    using lt by (subst unat_push_bit) (simp_all add: unat_field5)
  have "unat (push_bit 5 (drop_bit 27 ?v AND 0x1F) OR (drop_bit 21 ?v AND 0x1F)) = field5 ?v 27 * 32 + field5 ?v 21"
    using or_low_field [of "field5 ?v 21" 5 "field5 ?v 27"] lt by (simp only: unat_or hi unat_field5) simp
  then have n: "unat ?n = field5 ?v 27 * 32 + field5 ?v 21"
    using lt by (simp only: unat_ucast) simp
  have "field5 ?v 27 * 32 + field5 ?v 21 = scratchpad_bufs_spec ?v \<longleftrightarrow> field5 ?v 21 = field5 ?v 27"
    unfolding scratchpad_bufs_spec_def using lt by linarith
  note spec = n this [folded n]
  have "max_scratchpad_bufs E R s =
      Ret ?n (s\<lparr>trace := trace s @ [MRead32 (base R + 8) v]\<rparr>)"
    unfolding max_scratchpad_bufs_def window_access(1) [OF assms(1), of 8, simplified] Let_def
    by (simp only: bind_run read32_def return_run v_def Let_def outcome.case)
  with spec show ?thesis by (intro exI conjI)
qed

text \<open>
  The interrupter management register (section 5.5.2.1): bit 0 is the pending flag, cleared by
  writing 1, bit 1 the enable flag. \<open>(pending, enabled)\<close> after the writes of a trace:
\<close>

fun iman_event :: "u64 \<Rightarrow> bus_event \<Rightarrow> bool \<times> bool \<Rightarrow> bool \<times> bool" where
  "iman_event iman (MWrite32 a v) (pending, enabled) =
     (if a = iman then (pending \<and> \<not> bit v 0, bit v 1) else (pending, enabled))"
| "iman_event iman _ st = st"

text \<open>
  C34. \<open>enable_interrupter\<close> takes the enable bit for the pending bit and the other way round: its
  last write clears the pending flag and leaves the interrupter disabled, whatever its state
  was.
\<close>

theorem enable_interrupter_disables:
  assumes "window_ok R"
  shows "\<exists>t. enable_interrupter R s = Ret () (s\<lparr>trace := trace s @ t\<rparr>) \<and>
    fold (iman_event (rt_base R + 0x20)) t (pending, enabled) = (False, False)"
proof -
  let ?a = "rt_base R + 0x20"
  have "enable_interrupter R s = Ret () (s\<lparr>trace := trace s @ [MWrite32 ?a 2, MWrite32 ?a 1]\<rparr>)"
    unfolding register_accesses(10) [OF assms] by (simp add: run_simps access_defs)
  then show ?thesis by (intro exI [of _ "[MWrite32 ?a 2, MWrite32 ?a 1]"]) simp
qed

definition demo_regs :: registers where
  "demo_regs = \<lparr>base = 0xFEBF0000, op_offset = 0x40, rt_offset = 0x1000\<rparr>"

lemma demo_regs_ok: "window_ok demo_regs"
  by (simp add: window_ok_def demo_regs_def)

theorem enable_interrupter_disables_witness:
  "\<exists>t. enable_interrupter demo_regs \<lparr>trace = []\<rparr> = Ret () \<lparr>trace = t\<rparr> \<and>
     fold (iman_event 0xFEBF1020) t (True, True) = (False, False)"
  using enable_interrupter_disables [OF demo_regs_ok, of "\<lparr>trace = []\<rparr>" True True]
  by (simp add: demo_regs_def rt_base_def)

theorem max_scratchpad_bufs_swapped_witness:
  "\<exists>n s'. max_scratchpad_bufs (ready_env\<lparr>mmio32 := \<lambda>_ _. 0x08000000\<rparr>) demo_regs \<lparr>trace = []\<rparr> = Ret n s' \<and>
     unat n = 32 \<and> scratchpad_bufs_spec 0x08000000 = 1"
  using max_scratchpad_bufs_swapped [OF demo_regs_ok, where E = "ready_env\<lparr>mmio32 := \<lambda>_ _. 0x08000000\<rparr>"
      and s = "\<lparr>trace = []\<rparr>"]
  by (auto simp: field5_def scratchpad_bufs_spec_def)

end
