(* ===== verification/Xhci_Rings.thy ===== *)
theory Xhci_Rings
  imports Memory Xhci_Registers
begin

text \<open>
  The memory structures of \<^verbatim>\<open>kernel/src/xhci.rs\<close> that the controller reads and writes by
  DMA: transfer request blocks, rings of them, the event ring segment table and the device
  context array. A boxed slice is its address and length; its contents are what the stores of
  the trace, and the device, have put there.
\<close>

section \<open>Transfer request blocks\<close>

record trb =
  parameter :: u64
  status :: u32
  control :: u32

definition trb_zero :: trb where
  "trb_zero = \<lparr>parameter = 0, status = 0, control = 0\<rparr>"

definition cycle_bit :: "trb \<Rightarrow> bool" where
  "cycle_bit t \<longleftrightarrow> control t AND 1 \<noteq> 0"

definition trb_type :: "trb \<Rightarrow> u8" where
  "trb_type t = ucast (drop_bit 10 (control t) AND 0x3F)"

definition LINK :: u8 where "LINK = 6"
definition NO_OP_CMD :: u8 where "NO_OP_CMD = 23"
definition ENABLE_SLOT :: u8 where "ENABLE_SLOT = 9"
definition DISABLE_SLOT :: u8 where "DISABLE_SLOT = 10"
definition ADDRESS_DEVICE :: u8 where "ADDRESS_DEVICE = 11"
definition CONFIGURE_ENDPOINT :: u8 where "CONFIGURE_ENDPOINT = 12"
definition EVALUATE_CONTEXT :: u8 where "EVALUATE_CONTEXT = 13"
definition RESET_ENDPOINT :: u8 where "RESET_ENDPOINT = 14"
definition STOP_ENDPOINT :: u8 where "STOP_ENDPOINT = 15"
definition SET_TR_DEQUEUE :: u8 where "SET_TR_DEQUEUE = 16"
definition RESET_DEVICE :: u8 where "RESET_DEVICE = 17"
definition TRANSFER_EVENT :: u8 where "TRANSFER_EVENT = 32"
definition COMMAND_COMPLETION :: u8 where "COMMAND_COMPLETION = 33"
definition PORT_STATUS_CHANGE :: u8 where "PORT_STATUS_CHANGE = 34"

text \<open>Assigning a block: its three fields are stored, 16 bytes in all.\<close>

definition store :: "u64 \<Rightarrow> nat \<Rightarrow> u64 \<Rightarrow> (unit, 'z machine_scheme) prog" where
  "store a w v = emit (Store a w v)"

definition store_trb :: "u64 \<Rightarrow> trb \<Rightarrow> (unit, 'z machine_scheme) prog" where
  "store_trb a t = run_all [
     store a 8 (parameter t), store (a + 8) 4 (ucast (status t)), store (a + 12) 4 (ucast (control t))]"

section \<open>Aligned allocations\<close>

definition is_power_of_two :: "nat \<Rightarrow> bool" where
  "is_power_of_two n \<longleftrightarrow> n \<noteq> 0 \<and> n AND (n - 1) = 0"

text \<open>\<open>Layout::from_size_align\<close>: the size rounded up to the alignment must not exceed \<open>isize::MAX\<close>.\<close>

definition layout_from_size_align :: "usize \<Rightarrow> usize \<Rightarrow> (usize \<times> usize) option" where
  "layout_from_size_align sz al =
     (if is_power_of_two al \<and> sz + (al - 1) < 2 ^ 63 then Some (sz, al) else None)"

text \<open>
  The steps the three constructors share: 64 bytes more than needed are allocated, the pointer
  is checked and rounded up to the next multiple of 64.
\<close>

definition alloc_aligned :: "env \<Rightarrow> usize \<Rightarrow> string \<Rightarrow> string \<Rightarrow> (u64, 'z machine_scheme) prog" where
  "alloc_aligned E n bad_layout failed =
     bind (usize_val (n + 64)) (\<lambda>total.
     bind (expect (layout_from_size_align total 64) bad_layout) (\<lambda>(sz, al).
     bind (alloc_layout E sz al) (\<lambda>ptr.
     seq (assert_that (ptr \<noteq> 0) failed)
     (bind (u64_add ptr 63) (\<lambda>up. return (up AND NOT 63))))))"

text \<open>\<open>virt_to_phys(VirtAddr::new(a), phys_offset).expect(...)\<close>.\<close>

definition resolve :: "x86_crate \<Rightarrow> mmu \<Rightarrow> u64 \<Rightarrow> u64 \<Rightarrow> string \<Rightarrow> (u64, 's) prog" where
  "resolve X M phys_offset a msg =
     bind (expect (virt_new X a) ''VirtAddr::new'') (\<lambda>virt.
     bind (virt_to_phys X M virt phys_offset) (\<lambda>r. expect r msg))"

section \<open>Rings\<close>

record trb_ring =
  trbs_ptr :: u64
  trbs_len :: usize
  ring_phys :: u64
  enqueue :: usize
  cycle :: bool

definition trb_slot :: "u64 \<Rightarrow> nat \<Rightarrow> u64" where
  "trb_slot a i = a + word_of_nat (16 * i)"

definition trb_ring_new :: "env \<Rightarrow> x86_crate \<Rightarrow> mmu \<Rightarrow> usize \<Rightarrow> u64 \<Rightarrow> (trb_ring, 'z machine_scheme) prog" where
  "trb_ring_new E X M count phys_offset =
     seq (assert_that (count > 0 \<and> is_power_of_two count)
       ''assertion failed: count > 0 && count.is_power_of_two()'')
     (bind (usize_val (count * 16)) (\<lambda>bytes_needed.
     bind (alloc_aligned E bytes_needed ''invalid ring layout'' ''ring allocation failed'') (\<lambda>aligned.
     seq (for_each [0..<count] (\<lambda>i. store_trb (trb_slot aligned i) trb_zero))
     (bind (resolve X M phys_offset aligned ''ring: cannot resolve physical address'') (\<lambda>phys.
     return \<lparr>trbs_ptr = aligned, trbs_len = count, ring_phys = phys, enqueue = 0, cycle = True\<rparr>)))))"

definition ring_physical_address :: "trb_ring \<Rightarrow> u64" where
  "ring_physical_address r = ring_phys r"

definition trb_ring_push :: "trb \<Rightarrow> trb_ring \<Rightarrow> (trb_ring, 'z machine_scheme) prog" where
  "trb_ring_push t r =
     (let idx = enqueue r in
      if idx < trbs_len r then
        seq (store_trb (trb_slot (trbs_ptr r) idx)
               (t\<lparr>control := (control t AND NOT 1) OR (if cycle r then 1 else 0)\<rparr>))
        (bind (usize_val (enqueue r + 1)) (\<lambda>e. return (r\<lparr>enqueue := e AND (trbs_len r - 1)\<rparr>)))
      else fail IndexOutOfBounds)"

definition toggle_cycle :: "trb_ring \<Rightarrow> trb_ring" where
  "toggle_cycle r = r\<lparr>cycle := \<not> cycle r\<rparr>"

section \<open>The event ring segment table and the device context array\<close>

record erst_entry =
  ring_base :: u64
  ring_size :: u16
  reserved :: u16
  rsvd2 :: u32

definition store_erst_entry :: "u64 \<Rightarrow> erst_entry \<Rightarrow> (unit, 'z machine_scheme) prog" where
  "store_erst_entry a e = run_all [
     store a 8 (ring_base e), store (a + 8) 2 (ucast (ring_size e)),
     store (a + 10) 2 (ucast (reserved e)), store (a + 12) 4 (ucast (rsvd2 e))]"

definition allocate_erst :: "env \<Rightarrow> x86_crate \<Rightarrow> mmu \<Rightarrow> trb_ring \<Rightarrow> u64 \<Rightarrow> (u64 \<times> u64, 'z machine_scheme) prog" where
  "allocate_erst E X M event_ring phys_offset =
     bind (alloc_aligned E 16 ''invalid ERST layout'' ''ERST allocation failed'') (\<lambda>aligned.
     seq (store_erst_entry aligned
       \<lparr>ring_base = ring_physical_address event_ring, ring_size = word_of_nat (trbs_len event_ring),
        reserved = 0, rsvd2 = 0\<rparr>)
     (bind (resolve X M phys_offset aligned ''ERST: cannot resolve physical address'') (\<lambda>phys.
     return (phys, aligned))))"

record dcbaa =
  ptrs_ptr :: u64
  ptrs_len :: usize
  dcbaa_phys :: u64

definition dcbaa_new :: "env \<Rightarrow> x86_crate \<Rightarrow> mmu \<Rightarrow> u8 \<Rightarrow> u64 \<Rightarrow> (dcbaa, 'z machine_scheme) prog" where
  "dcbaa_new E X M slots phys_offset =
     (let count = unat slots + 1 in
      bind (usize_val (count * 8)) (\<lambda>bytes_needed.
      bind (alloc_aligned E bytes_needed ''invalid DCBAA layout'' ''DCBAA allocation failed'') (\<lambda>aligned.
      seq (for_each [0..<count] (\<lambda>i. store (aligned + word_of_nat (8 * i)) 8 0))
      (bind (resolve X M phys_offset aligned ''DCBAA: cannot resolve physical address'') (\<lambda>phys.
      return \<lparr>ptrs_ptr = aligned, ptrs_len = count, dcbaa_phys = phys\<rparr>)))))"

definition dcbaa_physical_address :: "dcbaa \<Rightarrow> u64" where
  "dcbaa_physical_address d = dcbaa_phys d"

section \<open>Total correctness of accesses\<close>

text \<open>The device-visible actions of a trace: register writes, stores to shared memory, allocations.\<close>

fun is_action :: "bus_event \<Rightarrow> bool" where
  "is_action (MWrite16 a v) = True"
| "is_action (MWrite32 a v) = True"
| "is_action (Store a w v) = True"
| "is_action (Alloc n al a) = True"
| "is_action (Dealloc a n al) = True"
| "is_action _ = False"

text \<open>From \<open>s0\<close> to \<open>s\<close> only the trace grew, by events whose actions are \<open>H\<close>.\<close>

definition acted :: "'z machine_scheme \<Rightarrow> bus_event list \<Rightarrow> 'z machine_scheme \<Rightarrow> bool" where
  "acted s0 H s \<longleftrightarrow> (\<exists>t. s = s0\<lparr>trace := trace s0 @ t\<rparr> \<and> filter is_action t = H)"

named_theorems wp_intros \<open>rules for total correctness with the actions so far\<close>

lemma acted_refl: "acted s [] s"
  unfolding acted_def by (rule exI [of _ "[]"]) simp

lemma acted_snoc:
  "acted s0 H s \<Longrightarrow> acted s0 (H @ filter is_action t) (s\<lparr>trace := trace s @ t\<rparr>)"
proof -
  assume "acted s0 H s"
  then obtain u where "s = s0\<lparr>trace := trace s0 @ u\<rparr>" "filter is_action u = H" by (auto simp: acted_def)
  then show ?thesis unfolding acted_def by (intro exI [of _ "u @ t"]) simp
qed

lemma acted_trans: "acted s0 H s1 \<Longrightarrow> acted s1 K s2 \<Longrightarrow> acted s0 (H @ K) s2"
proof -
  assume 1: "acted s0 H s1" and "acted s1 K s2"
  then obtain t where "s2 = s1\<lparr>trace := trace s1 @ t\<rparr>" "filter is_action t = K" by (auto simp: acted_def)
  with acted_snoc [OF 1, of t] show ?thesis by simp
qed

lemma acted_silent: "acted s0 H s \<Longrightarrow> filter is_action t = [] \<Longrightarrow> acted s0 H (s\<lparr>trace := trace s @ t\<rparr>)"
  using acted_snoc [of s0 H s t] by simp

lemma uart_no_action: "uart_only t \<Longrightarrow> filter is_action t = []"
proof (induction t)
  case (Cons e t)
  then show ?case by (cases e) auto
qed simp

lemma wp_bindI [wp_intros]: "wp m (\<lambda>x. wp (f x) Q) s \<Longrightarrow> wp (bind m f) Q s"
  by (simp add: wp_bind)

lemma wp_seqI [wp_intros]: "wp m (\<lambda>_. wp k Q) s \<Longrightarrow> wp (seq m k) Q s"
  by (simp add: wp_seq)

lemma wp_mono: "wp m Q s \<Longrightarrow> (\<And>x t. Q x t \<Longrightarrow> R x t) \<Longrightarrow> wp m R s"
  by (auto simp: wp_def split: outcome.splits)

lemma wp_run: "m s = Ret x s' \<Longrightarrow> Q x s' \<Longrightarrow> wp m Q s"
  by (simp add: wp_def)

lemma wp_emit: "acted s0 H s \<Longrightarrow> is_action e \<Longrightarrow> (\<And>s'. acted s0 (H @ [e]) s' \<Longrightarrow> Q () s') \<Longrightarrow> wp (emit e) Q s"
  using acted_snoc [of s0 H s "[e]"] by (simp add: wp_def emit_def)

lemma wp_writes [wp_intros]:
  "acted s0 H s \<Longrightarrow> (\<And>s'. acted s0 (H @ [MWrite32 a v]) s' \<Longrightarrow> Q () s') \<Longrightarrow> wp (write32 a v) Q s"
  "acted s0 H s \<Longrightarrow> (\<And>s'. acted s0 (H @ [MWrite16 a w]) s' \<Longrightarrow> Q () s') \<Longrightarrow> wp (write16 a w) Q s"
  "acted s0 H s \<Longrightarrow> (\<And>s'. acted s0 (H @ [Store a n x]) s' \<Longrightarrow> Q () s') \<Longrightarrow> wp (store a n x) Q s"
  unfolding write32_def write16_def store_def by (erule wp_emit; simp)+

lemma wp_reads:
  "acted s0 H s \<Longrightarrow> (\<And>s'. acted s0 H s' \<Longrightarrow> Q (mmio32 E (trace s) a) s') \<Longrightarrow> wp (read32 E a) Q s"
  "acted s0 H s \<Longrightarrow> (\<And>s'. acted s0 H s' \<Longrightarrow> P (mmio8 E (trace s) a) s') \<Longrightarrow> wp (read8 E a) P s"
  "acted s0 H s \<Longrightarrow> (\<And>s'. acted s0 H s' \<Longrightarrow> Q (dma32 E (trace s) a) s') \<Longrightarrow> wp (load32 E a) Q s"
  by (simp_all add: wp_def read32_def read8_def load32_def Let_def acted_silent)

lemma wp_println:
  assumes "uart_drains E n" and "n < fuel E" and "acted s0 H s" and "\<And>s'. acted s0 H s' \<Longrightarrow> Q () s'"
  shows "wp (serial_println E m) Q s"
proof -
  obtain t where t: "serial_println E m s = Ret () (s\<lparr>trace := trace s @ t\<rparr>)" "uart_only t"
    using serial_print_run [OF assms(1,2)] unfolding serial_println_def by blast
  have "Q () (s\<lparr>trace := trace s @ t\<rparr>)"
    by (rule assms(4), rule acted_silent [OF assms(3)], rule uart_no_action [OF t(2)])
  with t(1) show ?thesis by (rule wp_run)
qed

lemma wp_for_each:
  assumes "\<And>x s H. x \<in> set xs \<Longrightarrow> acted s0 H s \<Longrightarrow> wp (body x) (\<lambda>_. acted s0 (H @ f x)) s"
    and "acted s0 H s" and "\<And>s'. acted s0 (H @ concat (map f xs)) s' \<Longrightarrow> Q () s'"
  shows "wp (for_each xs body) Q s"
  using assms
proof (induction xs arbitrary: s H)
  case Nil
  then show ?case by (simp add: wp_return)
next
  case (Cons x xs)
  have "wp (for_each xs body) Q s'" if "acted s0 (H @ f x) s'" for s'
    by (rule Cons.IH [OF _ that]) (use Cons.prems in auto)
  moreover have "wp (body x) (\<lambda>_. acted s0 (H @ f x)) s"
    by (rule Cons.prems(1) [OF _ Cons.prems(2)]) simp
  ultimately have "wp (body x) (\<lambda>_. wp (for_each xs body) Q) s" by (blast intro: wp_mono)
  then show ?case by (simp add: wp_seq)
qed

section \<open>Allocations\<close>

text \<open>The physical address of a mapped virtual address.\<close>

definition phys_of :: "x86_crate \<Rightarrow> mmu \<Rightarrow> u64 \<Rightarrow> u64 \<Rightarrow> u64 option" where
  "phys_of X M po v = (case virt_to_phys X M v po () of Ret r _ \<Rightarrow> r | _ \<Rightarrow> None)"

text \<open>
  The kernel heap as the driver needs it: an allocation of up to 8 KiB with 64-byte alignment
  succeeds, and gives memory of the lower half of the address space that the page tables map.
\<close>

definition dma_heap :: "env \<Rightarrow> x86_crate \<Rightarrow> mmu \<Rightarrow> u64 \<Rightarrow> bool" where
  "dma_heap E X M po \<longleftrightarrow> (\<forall>t n. n \<le> 8192 \<longrightarrow> (let p = heap_alloc E t n 64 in
     p \<noteq> 0 \<and> unat p + n \<le> 2 ^ 47 \<and>
     (\<forall>v. unat p \<le> unat v \<and> unat v < unat p + n \<longrightarrow> phys_of X M po v \<noteq> None)))"

text \<open>\<open>a\<close> is the rounded-up start of an \<open>n\<close>-byte structure in the block allocated at \<open>p\<close>.\<close>

definition in_block :: "u64 \<Rightarrow> nat \<Rightarrow> u64 \<Rightarrow> bool" where
  "in_block p n a \<longleftrightarrow> unat a mod 64 = 0 \<and> unat p \<le> unat a \<and> unat a < unat p + 64 \<and>
     unat p + (n + 64) \<le> 2 ^ 47"

lemma unat_and_not63: "unat (w AND NOT 63) = unat w div 64 * 64" for w :: u64
proof -
  have "w AND NOT (mask 6) = push_bit 6 (drop_bit 6 w)"
    by (rule bit_word_eqI) (auto simp: bit_simps dest: bit_imp_le_length)
  moreover have "NOT (mask 6) = (NOT 63 :: u64)" by (simp add: mask_eq_exp_minus_1)
  moreover have "unat (push_bit 6 (drop_bit 6 w)) = unat (drop_bit 6 w) * 2 ^ 6"
    using unsigned_less [of w, where ?'a = nat] by (intro unat_push_bit) (simp add: unat_drop_bit)
  ultimately show ?thesis by (simp add: unat_drop_bit)
qed

lemma round_up_in_block:
  assumes "unat p + (n + 64) \<le> 2 ^ 47"
  shows "u64_add p 63 = return (p + 63)" "in_block p n ((p + 63) AND NOT 63)"
proof -
  have fit: "unat p + unat (63 :: u64) < 2 ^ 64" using assms by simp
  from u64_add_return [OF this] show "u64_add p 63 = return (p + 63)" .
  define d where "d = (unat p + 63) div 64"
  have "unat ((p + 63) AND NOT 63) = d * 64"
    using unat_add_fits [OF fit] by (simp only: unat_and_not63 d_def) simp
  moreover have "unat p \<le> d * 64" "d * 64 < unat p + 64" unfolding d_def by presburger+
  ultimately show "in_block p n ((p + 63) AND NOT 63)" using assms by (simp only: in_block_def) simp
qed

lemma virt_to_phys_phys_of:
  assumes "phys_of X M po v = Some a"
  shows "virt_to_phys X M v po s = Ret (Some a) s"
proof -
  have "virt_to_phys X M v po () = Ret (Some a) ()"
    using assms by (simp add: phys_of_def split: outcome.splits)
  then show ?thesis
    by (auto simp: virt_to_phys_def pt_at_def run_simps Let_def split: option.splits if_splits)
qed

lemma resolve_run:
  assumes "x86_documented X" and "in_block p n a" and "phys_of X M po a = Some pa"
  shows "resolve X M po a msg s = Ret pa s"
proof -
  have "virt_new X a = Some a"
    by (rule x86_virt_new [OF assms(1)]) (use assms(2) in \<open>simp add: canonical_def in_block_def\<close>)
  then show ?thesis by (simp add: resolve_def run_simps virt_to_phys_phys_of [OF assms(3)])
qed

lemma wp_alloc_aligned:
  assumes "dma_heap E X M po" and "n \<le> 8128" and "0 < n" and "acted s0 H s"
    and "\<And>p a pa s'. acted s0 (H @ [Alloc (n + 64) 64 p]) s' \<Longrightarrow> in_block p n a \<Longrightarrow>
      phys_of X M po a = Some pa \<Longrightarrow> Q a s'"
  shows "wp (alloc_aligned E n bad failed) Q s"
proof -
  define p where "p = heap_alloc E (trace s) (n + 64) 64"
  let ?a = "(p + 63) AND NOT 63"
  have "n + 64 \<le> 8192" using assms(2) by simp
  with assms(1) have p: "p \<noteq> 0" "unat p + (n + 64) \<le> 2 ^ 47"
      "\<And>v. unat p \<le> unat v \<and> unat v < unat p + (n + 64) \<Longrightarrow> phys_of X M po v \<noteq> None"
    unfolding dma_heap_def p_def Let_def by blast+
  note r = round_up_in_block [OF p(2)]
  from r(2) assms(3) p(3) [of ?a] obtain pa where pa: "phys_of X M po ?a = Some pa"
    by (auto simp: in_block_def)
  have lay: "layout_from_size_align (n + 64) 64 = Some (n + 64, 64)"
    using assms(2) by (simp add: layout_from_size_align_def is_power_of_two_def)
  have "alloc_aligned E n bad failed s = Ret ?a (s\<lparr>trace := trace s @ [Alloc (n + 64) 64 p]\<rparr>)"
    unfolding alloc_aligned_def using p(1,2) assms(2) lay
    by (simp add: run_simps alloc_layout_def Let_def p_def)
  moreover have "Q ?a (s\<lparr>trace := trace s @ [Alloc (n + 64) 64 p]\<rparr>)"
    by (rule assms(5) [OF _ r(2) pa]) (use acted_snoc [OF assms(4), of "[Alloc (n + 64) 64 p]"] in simp)
  ultimately show ?thesis by (rule wp_run)
qed

section \<open>The constructors\<close>

definition trb_stores :: "u64 \<Rightarrow> trb \<Rightarrow> bus_event list" where
  "trb_stores a t = [Store a 8 (parameter t), Store (a + 8) 4 (ucast (status t)), Store (a + 12) 4 (ucast (control t))]"

text \<open>Allocation of \<open>n\<close> bytes at \<open>p\<close> followed by the initialisation of the structure at \<open>a\<close>.\<close>

definition ring_actions :: "nat \<Rightarrow> u64 \<Rightarrow> u64 \<Rightarrow> bus_event list" where
  "ring_actions count p a =
     Alloc (count * 16 + 64) 64 p # concat (map (\<lambda>i. trb_stores (trb_slot a i) trb_zero) [0..<count])"

definition dcbaa_actions :: "nat \<Rightarrow> u64 \<Rightarrow> u64 \<Rightarrow> bus_event list" where
  "dcbaa_actions count p a =
     Alloc (count * 8 + 64) 64 p # map (\<lambda>i. Store (a + word_of_nat (8 * i)) 8 0) [0..<count]"

definition erst_actions :: "trb_ring \<Rightarrow> u64 \<Rightarrow> u64 \<Rightarrow> bus_event list" where
  "erst_actions r p a = [Alloc 80 64 p, Store a 8 (ring_phys r),
     Store (a + 8) 2 (ucast (word_of_nat (trbs_len r) :: u16)), Store (a + 10) 2 0, Store (a + 12) 4 0]"

text \<open>A new ring: empty, in an aligned block that is mapped at the address it reports.\<close>

definition fresh_ring :: "x86_crate \<Rightarrow> mmu \<Rightarrow> u64 \<Rightarrow> nat \<Rightarrow> u64 \<Rightarrow> trb_ring \<Rightarrow> bool" where
  "fresh_ring X M po count p r \<longleftrightarrow> in_block p (count * 16) (trbs_ptr r) \<and> trbs_len r = count \<and>
     phys_of X M po (trbs_ptr r) = Some (ring_phys r) \<and> enqueue r = 0 \<and> cycle r"

definition fresh_dcbaa :: "x86_crate \<Rightarrow> mmu \<Rightarrow> u64 \<Rightarrow> nat \<Rightarrow> u64 \<Rightarrow> dcbaa \<Rightarrow> bool" where
  "fresh_dcbaa X M po count p d \<longleftrightarrow> in_block p (count * 8) (ptrs_ptr d) \<and> ptrs_len d = count \<and>
     phys_of X M po (ptrs_ptr d) = Some (dcbaa_phys d)"

lemma wp_store_trb:
  assumes "acted s0 H s" and "\<And>s'. acted s0 (H @ trb_stores a t) s' \<Longrightarrow> Q () s'"
  shows "wp (store_trb a t) Q s"
  using acted_snoc [OF assms(1), of "trb_stores a t"] assms(2)
  by (auto simp: store_trb_def store_def emit_def run_simps wp_def trb_stores_def)

lemma wp_resolve:
  assumes "x86_documented X" and "in_block p n a" and "phys_of X M po a = Some pa" and "Q pa s"
  shows "wp (resolve X M po a msg) Q s"
  by (rule wp_run, rule resolve_run [OF assms(1-3)], rule assms(4))

lemma wp_checks:
  "b \<Longrightarrow> Q () s \<Longrightarrow> wp (assert_that b msg) Q s" "n < 2 ^ 64 \<Longrightarrow> R n s \<Longrightarrow> wp (usize_val n) R s"
  by (simp_all add: wp_def run_simps)

text \<open>The shape the three constructors share: allocate, initialise, resolve.\<close>

lemma wp_alloc_init:
  assumes "dma_heap E X M po" and "x86_documented X" and "n \<le> 8128" and "0 < n" and "acted s0 H s"
    and init: "\<And>a s H. acted s0 H s \<Longrightarrow> wp (init a) (\<lambda>_. acted s0 (H @ acts a)) s"
    and post: "\<And>p a pa s'. acted s0 (H @ Alloc (n + 64) 64 p # acts a) s' \<Longrightarrow> in_block p n a \<Longrightarrow>
      phys_of X M po a = Some pa \<Longrightarrow> Q (mk a pa) s'"
  shows "wp (bind (alloc_aligned E n bad failed) (\<lambda>a. seq (init a)
    (bind (resolve X M po a msg) (\<lambda>pa. return (mk a pa))))) Q s"
proof (intro wp_bindI, rule wp_alloc_aligned [OF assms(1,3,4,5)], intro wp_seqI)
  fix p a pa s1
  assume 1: "acted s0 (H @ [Alloc (n + 64) 64 p]) s1" "in_block p n a" "phys_of X M po a = Some pa"
  have "wp (bind (resolve X M po a msg) (\<lambda>pa. return (mk a pa))) Q s2"
    if "acted s0 ((H @ [Alloc (n + 64) 64 p]) @ acts a) s2" for s2
    unfolding wp_bind
    by (rule wp_resolve [OF assms(2) 1(2,3)], simp only: wp_return, rule post) (use that 1 in simp_all)
  with init [OF 1(1)] show "wp (init a) (\<lambda>_. wp (bind (resolve X M po a msg) (\<lambda>pa. return (mk a pa))) Q) s1"
    by (blast intro: wp_mono)
qed

lemma wp_trb_ring_new:
  assumes "dma_heap E X M po" and "x86_documented X" and "is_power_of_two count" and "count \<le> 256"
    and "acted s0 H s"
    and "\<And>p r s'. acted s0 (H @ ring_actions count p (trbs_ptr r)) s' \<Longrightarrow> fresh_ring X M po count p r \<Longrightarrow> Q r s'"
  shows "wp (trb_ring_new E X M count po) Q s"
proof -
  have c: "0 < count" "count * 16 < 2 ^ 64" "count * 16 \<le> 8128" "0 < count * 16"
    using assms(3,4) by (auto simp: is_power_of_two_def)
  have zeros: "wp (for_each [0..<count] (\<lambda>i. store_trb (trb_slot a i) trb_zero))
      (\<lambda>_. acted s0 (K @ concat (map (\<lambda>i. trb_stores (trb_slot a i) trb_zero) [0..<count]))) u"
    if "acted s0 K u" for a u K
    by (rule wp_for_each [OF _ that]) (rule wp_store_trb)
  show ?thesis
    unfolding trb_ring_new_def
    by (intro wp_seqI wp_bindI [of "usize_val _"] wp_checks conjI c(1,2) assms(3),
        rule wp_alloc_init [OF assms(1,2) c(3,4) assms(5) zeros], assumption, rule assms(6))
      (simp_all add: ring_actions_def fresh_ring_def)
qed

lemma wp_dcbaa_new:
  assumes "dma_heap E X M po" and "x86_documented X" and "acted s0 H s"
    and "\<And>p d s'. acted s0 (H @ dcbaa_actions (unat n + 1) p (ptrs_ptr d)) s' \<Longrightarrow>
      fresh_dcbaa X M po (unat n + 1) p d \<Longrightarrow> Q d s'"
  shows "wp (dcbaa_new E X M n po) Q s"
proof -
  let ?c = "unat n + 1"
  have c: "?c * 8 < 2 ^ 64" "?c * 8 \<le> 8128" "0 < ?c * 8"
    using unsigned_less [of n, where ?'a = nat] by simp_all
  have zeros: "wp (for_each [0..<?c] (\<lambda>i. store (a + word_of_nat (8 * i)) 8 0))
      (\<lambda>_. acted s0 (K @ concat (map (\<lambda>i. [Store (a + word_of_nat (8 * i)) 8 0]) [0..<?c]))) u"
    if "acted s0 K u" for a u K
    by (rule wp_for_each [OF _ that]) (rule wp_writes(3))
  show ?thesis
    unfolding dcbaa_new_def Let_def
    by (intro wp_bindI [of "usize_val _"] wp_checks c(1),
        rule wp_alloc_init [OF assms(1,2) c(2,3) assms(3) zeros], assumption, rule assms(4))
      (simp_all only: dcbaa_actions_def fresh_dcbaa_def dcbaa.simps concat_map_singleton simp_thms append.simps)
qed

lemma wp_allocate_erst:
  assumes "dma_heap E X M po" and "x86_documented X" and "acted s0 H s"
    and "\<And>p a pa s'. acted s0 (H @ erst_actions r p a) s' \<Longrightarrow> in_block p 16 a \<Longrightarrow> phys_of X M po a = Some pa \<Longrightarrow>
      Q (pa, a) s'"
  shows "wp (allocate_erst E X M r po) Q s"
proof -
  have init: "wp (store_erst_entry a \<lparr>ring_base = ring_physical_address r, ring_size = word_of_nat (trbs_len r),
      reserved = 0, rsvd2 = 0\<rparr>) (\<lambda>_. acted s0 (K @ tl (erst_actions r p a))) u" if "acted s0 K u" for a u K p
    using acted_snoc [OF that, of "tl (erst_actions r p a)"]
    by (simp add: store_erst_entry_def store_def emit_def run_simps wp_def erst_actions_def ring_physical_address_def)
  show ?thesis
    unfolding allocate_erst_def
    by (rule wp_alloc_init [OF assms(1,2) _ _ assms(3) init [where p = 0]], simp, simp, assumption, rule assms(4))
      (simp_all add: erst_actions_def)
qed

section \<open>What shared memory holds\<close>

text \<open>The last store to each address, and the block stored at an address.\<close>

fun apply_store :: "bus_event \<Rightarrow> (u64 \<rightharpoonup> nat \<times> u64) \<Rightarrow> (u64 \<rightharpoonup> nat \<times> u64)" where
  "apply_store (Store a w v) m = m(a \<mapsto> (w, v))"
| "apply_store _ m = m"

definition stored :: "bus_event list \<Rightarrow> (u64 \<rightharpoonup> nat \<times> u64)" where
  "stored t = fold apply_store t Map.empty"

definition trb_in :: "(u64 \<rightharpoonup> nat \<times> u64) \<Rightarrow> u64 \<Rightarrow> trb option" where
  "trb_in m a = (case (m a, m (a + 8), m (a + 12)) of
     (Some (w1, p), Some (w2, st), Some (w3, c)) \<Rightarrow>
       if w1 = 8 \<and> w2 = 4 \<and> w3 = 4 then Some \<lparr>parameter = p, status = ucast st, control = ucast c\<rparr> else None
   | _ \<Rightarrow> None)"

definition ring_contents :: "'z machine_scheme \<Rightarrow> trb_ring \<Rightarrow> trb option list" where
  "ring_contents s r = map (\<lambda>i. trb_in (stored (trace s)) (trb_slot (trbs_ptr r) i)) [0..<trbs_len r]"

definition ring_ok :: "trb_ring \<Rightarrow> bool" where
  "ring_ok r \<longleftrightarrow> is_power_of_two (trbs_len r) \<and> enqueue r < trbs_len r \<and>
     unat (trbs_ptr r) + 16 * trbs_len r \<le> 2 ^ 64"

lemma stored_append: "stored (t @ u) = fold apply_store u (stored t)"
  by (simp add: stored_def)

lemma is_power_of_two_iff: "is_power_of_two n \<longleftrightarrow> (\<exists>k. n = 2 ^ k)"
proof
  assume "is_power_of_two n"
  then show "\<exists>k. n = 2 ^ k"
  proof (induction n rule: less_induct)
    case (less n)
    then have n: "n \<noteq> 0" "n AND (n - 1) = 0" by (simp_all add: is_power_of_two_def)
    have rec: "n AND (n - 1) = of_bool (odd n \<and> odd (n - 1)) + 2 * (n div 2 AND (n - 1) div 2)"
      by (rule and_rec)
    show ?case
    proof (cases "odd n")
      case True
      then have "(n - 1) div 2 = n div 2" by presburger
      with rec n(2) have "n div 2 = 0" by simp
      with True have "n = 1" by presburger
      then show ?thesis by (intro exI [of _ 0]) simp
    next
      case False
      with n(1) have "(n - 1) div 2 = n div 2 - 1" "n div 2 \<noteq> 0" "n = 2 * (n div 2)" "n div 2 < n" by presburger+
      moreover from this rec n(2) have "is_power_of_two (n div 2)" by (simp add: is_power_of_two_def)
      ultimately obtain k where "n div 2 = 2 ^ k" using less.IH [of "n div 2"] by blast
      with \<open>n = 2 * (n div 2)\<close> have "n = 2 ^ Suc k" by (simp only: power_Suc)
      then show ?thesis ..
    qed
  qed
next
  assume "\<exists>k. n = 2 ^ k"
  then obtain k where n: "n = 2 ^ k" ..
  have "2 ^ k AND (2 ^ k - 1) = take_bit k (2 ^ k :: nat)" by (simp add: take_bit_eq_mask mask_eq_exp_minus_1)
  then show "is_power_of_two n" unfolding n is_power_of_two_def by (simp add: take_bit_eq_mod)
qed

lemma and_pred_mod: "is_power_of_two n \<Longrightarrow> x AND (n - 1) = x mod n"
proof -
  assume "is_power_of_two n"
  then obtain k where n: "n = 2 ^ k" unfolding is_power_of_two_iff ..
  have "x AND (2 ^ k - 1) = take_bit k x" by (simp only: take_bit_eq_mask mask_eq_exp_minus_1)
  then show ?thesis unfolding n by (simp only: take_bit_eq_mod)
qed

lemma slot_unat:
  assumes "unat a + 16 * n \<le> 2 ^ 64" and "i < n"
  shows "unat (trb_slot a i) = unat a + 16 * i" "unat (trb_slot a i + 8) = unat a + 16 * i + 8"
    "unat (trb_slot a i + 12) = unat a + 16 * i + 12"
proof -
  have lt: "unat a + 16 * i + 12 < 2 ^ 64" using assms by simp
  then have w: "unat (word_of_nat (16 * i) :: u64) = 16 * i" by (simp only: unat_of_nat) simp
  then show 1: "unat (trb_slot a i) = unat a + 16 * i"
    unfolding trb_slot_def using lt by (subst unat_add_fits) simp_all
  show "unat (trb_slot a i + 8) = unat a + 16 * i + 8" "unat (trb_slot a i + 12) = unat a + 16 * i + 12"
    using 1 lt by (subst unat_add_fits; simp)+
qed

lemma ucast_ucast_u32: "ucast (ucast w :: u64) = w" for w :: u32
  by (rule bit_word_eqI) (simp add: bit_simps)

lemma trb_in_store:
  assumes "unat a + 16 * n \<le> 2 ^ 64" and "i < n" and "j < n"
  shows "trb_in (fold apply_store (trb_stores (trb_slot a i) t) m) (trb_slot a j) =
    (if i = j then Some t else trb_in m (trb_slot a j))"
proof -
  note u = slot_unat [OF assms(1,2)] slot_unat [OF assms(1,3)]
  have "trb_slot a j = trb_slot a i \<longleftrightarrow> i = j" "trb_slot a j \<noteq> trb_slot a i + 8" "trb_slot a j \<noteq> trb_slot a i + 12"
    "trb_slot a j + 8 \<noteq> trb_slot a i" "trb_slot a j + 8 = trb_slot a i + 8 \<longleftrightarrow> i = j" "trb_slot a j + 8 \<noteq> trb_slot a i + 12"
    "trb_slot a j + 12 \<noteq> trb_slot a i" "trb_slot a j + 12 \<noteq> trb_slot a i + 8" "trb_slot a j + 12 = trb_slot a i + 12 \<longleftrightarrow> i = j"
    unfolding word_unat_eq_iff u by presburger+
  then show ?thesis
    by (simp only: trb_stores_def trb_in_def fold_simps apply_store.simps fun_upd_apply if_False)
      (simp add: ucast_ucast_u32)
qed

section \<open>Pushing\<close>

definition stamp :: "bool \<Rightarrow> trb \<Rightarrow> trb" where
  "stamp c t = t\<lparr>control := (control t AND NOT 1) OR (if c then 1 else 0)\<rparr>"

lemma bit_stamp: "bit (control (stamp c t)) i = (if i = 0 then c else bit (control t) i)"
  by (auto simp: stamp_def bit_simps dest: bit_imp_le_length)

lemma stamp_props [simp]:
  "cycle_bit (stamp c t) = c" "parameter (stamp c t) = parameter t" "status (stamp c t) = status t"
  "trb_type (stamp c t) = trb_type t"
proof -
  have "control (stamp c t) AND 1 = (if c then 1 else 0)"
    by (rule bit_word_eqI) (auto simp: bit_simps bit_stamp)
  then show "cycle_bit (stamp c t) = c" by (simp add: cycle_bit_def)
  have "drop_bit 10 (control (stamp c t)) = drop_bit 10 (control t)"
    by (rule bit_word_eqI) (auto simp: bit_simps bit_stamp)
  then show "trb_type (stamp c t) = trb_type t" by (simp add: trb_type_def)
qed (simp_all add: stamp_def)

lemma push_run:
  assumes "ring_ok r"
  shows "trb_ring_push t r s = Ret (r\<lparr>enqueue := (enqueue r + 1) mod trbs_len r\<rparr>)
    (s\<lparr>trace := trace s @ trb_stores (trb_slot (trbs_ptr r) (enqueue r)) (stamp (cycle r) t)\<rparr>)"
proof -
  have e: "enqueue r < trbs_len r" "enqueue r + 1 < 2 ^ 64" using assms by (auto simp: ring_ok_def)
  have m: "(enqueue r + 1) AND (trbs_len r - 1) = (enqueue r + 1) mod trbs_len r"
    using assms by (intro and_pred_mod) (simp add: ring_ok_def)
  show ?thesis
    using e m unfolding trb_ring_push_def Let_def stamp_def [symmetric]
    by (simp add: run_simps store_trb_def store_def emit_def trb_stores_def)
qed

lemma push_ring_ok: "ring_ok r \<Longrightarrow> ring_ok (r\<lparr>enqueue := (enqueue r + 1) mod trbs_len r\<rparr>)"
  by (simp add: ring_ok_def)

lemma ring_contents_push:
  assumes "ring_ok r"
  shows "ring_contents (s\<lparr>trace := trace s @ trb_stores (trb_slot (trbs_ptr r) (enqueue r)) t\<rparr>) (r\<lparr>enqueue := e\<rparr>) =
    (ring_contents s r)[enqueue r := Some t]"
proof -
  have ok: "unat (trbs_ptr r) + 16 * trbs_len r \<le> 2 ^ 64" "enqueue r < trbs_len r"
    using assms by (simp_all add: ring_ok_def)
  show ?thesis
    by (rule nth_equalityI)
      (auto simp: ring_contents_def stored_append trb_in_store [OF ok] nth_list_update)
qed

text \<open>
  C13. \<open>push\<close> on a well-formed ring implements appending to a cyclic array: it returns, the slot
  at the enqueue index holds the block with the ring's cycle bit in bit 0 of its control word and
  everything else of it unchanged, every other slot keeps its contents, the index advances modulo the length and the
  ring stays well formed.
\<close>

theorem trb_ring_push_refines:
  fixes s :: "'z machine_scheme"
  assumes "ring_ok r"
  shows "\<exists>r' s' t'. trb_ring_push t r s = Ret r' s' \<and> ring_ok r' \<and>
    r' = r\<lparr>enqueue := (enqueue r + 1) mod trbs_len r\<rparr> \<and> ring_contents s' r' = (ring_contents s r)[enqueue r := Some t'] \<and>
    cycle_bit t' = cycle r \<and> parameter t' = parameter t \<and> status t' = status t \<and> trb_type t' = trb_type t \<and>
    (\<forall>i. bit (control t') i = (if i = 0 then cycle r else bit (control t) i))"
  by (intro exI conjI, rule push_run [OF assms], rule push_ring_ok [OF assms], rule refl,
      rule ring_contents_push [OF assms], simp_all add: bit_stamp)

definition demo_ring :: trb_ring where
  "demo_ring = \<lparr>trbs_ptr = 0x444444440040, trbs_len = 4, ring_phys = 0x300040, enqueue = 3, cycle = True\<rparr>"

lemma demo_ring_ok: "ring_ok demo_ring"
  by (simp add: ring_ok_def demo_ring_def is_power_of_two_iff) (rule exI [of _ 2], simp)

theorem trb_ring_push_refines_witness:
  "\<exists>r' s' t'. trb_ring_push trb_zero demo_ring \<lparr>trace = []\<rparr> = Ret r' s' \<and> enqueue r' = 0 \<and>
     ring_contents s' r' = [None, None, None, Some t'] \<and> cycle_bit t'"
proof -
  have s: "ring_contents \<lparr>trace = []\<rparr> demo_ring = [None, None, None, None]"
    by (simp add: ring_contents_def stored_def trb_in_def demo_ring_def upt_rec)
  have d: "enqueue demo_ring = 3" "trbs_len demo_ring = 4" "cycle demo_ring" by (simp_all add: demo_ring_def)
  obtain r' s' t' where "trb_ring_push trb_zero demo_ring \<lparr>trace = []\<rparr> = Ret r' s'" "enqueue r' = 0"
      "ring_contents s' r' = (ring_contents \<lparr>trace = []\<rparr> demo_ring)[enqueue demo_ring := Some t']" "cycle_bit t'"
    using trb_ring_push_refines [OF demo_ring_ok, of trb_zero "\<lparr>trace = []\<rparr>"] d by fastforce
  then show ?thesis unfolding s d by auto
qed

subsection \<open>Wrapping around\<close>

lemma push_all:
  fixes s :: "'z machine_scheme"
  assumes "ring_ok r"
  shows "\<exists>r' s'. for_fold ts trb_ring_push r s = Ret r' s' \<and> ring_ok r' \<and>
    r' = r\<lparr>enqueue := (enqueue r + length ts) mod trbs_len r\<rparr> \<and>
    (\<forall>i<trbs_len r. ring_contents s' r' ! i \<in>
       (if \<exists>j<length ts. (enqueue r + j) mod trbs_len r = i then (Some \<circ> stamp (cycle r)) ` set ts else {ring_contents s r ! i}))"
  using assms
proof (induction ts arbitrary: r s)
  case Nil
  then show ?case by (auto simp: run_simps ring_ok_def)
next
  case (Cons t ts)
  let ?n = "trbs_len r"
  let ?r = "r\<lparr>enqueue := (enqueue r + 1) mod ?n\<rparr>"
  let ?s = "s\<lparr>trace := trace s @ trb_stores (trb_slot (trbs_ptr r) (enqueue r)) (stamp (cycle r) t)\<rparr>"
  have e: "enqueue r < ?n" using Cons.prems by (simp add: ring_ok_def)
  have sl: "ring_contents ?s ?r = (ring_contents s r)[enqueue r := Some (stamp (cycle r) t)]" by (rule ring_contents_push [OF Cons.prems])
  obtain r' s' where IH: "for_fold ts trb_ring_push ?r ?s = Ret r' s'" "ring_ok r'"
      "r' = ?r\<lparr>enqueue := (enqueue ?r + length ts) mod trbs_len ?r\<rparr>"
      "\<And>i. i < ?n \<Longrightarrow> ring_contents s' r' ! i \<in> (if \<exists>j<length ts. (enqueue ?r + j) mod trbs_len ?r = i
         then (Some \<circ> stamp (cycle ?r)) ` set ts else {ring_contents ?s ?r ! i})"
    using Cons.IH [OF push_ring_ok [OF Cons.prems], of ?s] by auto
  have run: "for_fold (t # ts) trb_ring_push r s = Ret r' s'"
    using IH(1) by (simp add: bind_run push_run [OF Cons.prems])
  have shift: "(enqueue ?r + j) mod ?n = (enqueue r + Suc j) mod ?n" for j
    by (simp add: mod_add_left_eq)
  have len: "trbs_len ?r = ?n" by simp
  have enq: "r' = r\<lparr>enqueue := (enqueue r + length (t # ts)) mod ?n\<rparr>"
    using IH(3) shift [of "length ts"] by simp
  have hit: "(\<exists>j<length (t # ts). (enqueue r + j) mod ?n = i) \<longleftrightarrow>
      i = enqueue r \<or> (\<exists>j<length ts. (enqueue ?r + j) mod trbs_len ?r = i)" for i
    by (simp only: length_Cons Ex_less_Suc2 len shift add_0_right mod_less [OF e] eq_commute [of "enqueue r"])
  have slot: "ring_contents s' r' ! i \<in> (if \<exists>j<length (t # ts). (enqueue r + j) mod ?n = i
      then (Some \<circ> stamp (cycle r)) ` set (t # ts) else {ring_contents s r ! i})" if "i < ?n" for i
    using IH(4) [OF that] that unfolding hit sl by (auto simp: ring_contents_def split: if_splits)
  show ?case
    by (intro exI conjI, rule run, rule IH(2), rule enq) (use slot in simp)
qed

text \<open>
  C36. The ring's cycle bit never changes. However many blocks are pushed, once the index has
  gone round the whole ring every slot carries the cycle bit of the first lap, and no slot is a
  Link block unless the caller pushed one: a consumer that inverts its cycle state when it
  starts the second lap, as the xHCI protocol requires, accepts none of the blocks.
\<close>

theorem trb_ring_never_toggles:
  fixes s :: "'z machine_scheme"
  assumes "ring_ok r" and "trbs_len r \<le> length ts"
  shows "\<exists>r' s'. for_fold ts trb_ring_push r s = Ret r' s' \<and> cycle r' = cycle r \<and>
    list_all (\<lambda>x. \<exists>t'. x = Some t' \<and> cycle_bit t' = cycle r \<and> trb_type t' \<in> trb_type ` set ts) (ring_contents s' r')"
proof -
  let ?n = "trbs_len r"
  obtain r' s' where p: "for_fold ts trb_ring_push r s = Ret r' s'"
      "r' = r\<lparr>enqueue := (enqueue r + length ts) mod ?n\<rparr>"
      "\<And>i. i < ?n \<Longrightarrow> ring_contents s' r' ! i \<in> (if \<exists>j<length ts. (enqueue r + j) mod ?n = i
         then (Some \<circ> stamp (cycle r)) ` set ts else {ring_contents s r ! i})"
    using push_all [OF assms(1)] by blast
  have "\<exists>j<length ts. (enqueue r + j) mod ?n = i" if "i < ?n" for i
  proof (cases "enqueue r \<le> i")
    case True
    with that assms(2) show ?thesis by (intro exI [of _ "i - enqueue r"]) simp
  next
    case False
    have "enqueue r < ?n" using assms(1) by (simp add: ring_ok_def)
    with False that assms(2) show ?thesis by (intro exI [of _ "i + ?n - enqueue r"]) simp
  qed
  with p(3) have "ring_contents s' r' ! i \<in> (Some \<circ> stamp (cycle r)) ` set ts" if "i < ?n" for i
    using that by auto
  with p(1,2) show ?thesis
    by (fastforce simp: list_all_length ring_contents_def)
qed

theorem trb_ring_never_toggles_witness:
  "\<exists>r' s'. for_fold (replicate 8 trb_zero) trb_ring_push demo_ring \<lparr>trace = []\<rparr> = Ret r' s' \<and> cycle r' \<and>
     map (map_option cycle_bit) (ring_contents s' r') = [Some True, Some True, Some True, Some True]"
proof -
  have "trbs_len demo_ring \<le> length (replicate 8 trb_zero)" by (simp add: demo_ring_def)
  from trb_ring_never_toggles [OF demo_ring_ok this, of "\<lparr>trace = []\<rparr>"]
  obtain r' s' where r: "for_fold (replicate 8 trb_zero) trb_ring_push demo_ring \<lparr>trace = []\<rparr> = Ret r' s'"
      "cycle r'" "list_all (\<lambda>x. \<exists>t'. x = Some t' \<and> cycle_bit t') (ring_contents s' r')"
    by (fastforce simp: demo_ring_def list_all_iff)
  have "trbs_len r' = 4" using push_all [OF demo_ring_ok, of "replicate 8 trb_zero" "\<lparr>trace = []\<rparr>"] r(1)
    by (auto simp: demo_ring_def)
  then have "length (ring_contents s' r') = 4" by (simp add: ring_contents_def)
  then obtain a b c d where "ring_contents s' r' = [a, b, c, d]" by (auto simp: length_Suc_conv numeral_eq_Suc)
  with r show ?thesis by auto
qed

section \<open>A new ring\<close>

lemma stores_are_actions: "fold apply_store t m = fold apply_store (filter is_action t) m"
proof (induction t arbitrary: m)
  case (Cons e t)
  have "\<not> is_action e \<Longrightarrow> apply_store e m = m" by (cases e) simp_all
  with Cons show ?case by (cases "is_action e") (simp_all only: filter.simps fold_simps if_True if_False simp_thms)
qed simp

lemma acted_stored: "acted s0 H s \<Longrightarrow> stored (trace s) = fold apply_store H (stored (trace s0))"
  by (auto simp: acted_def stored_append) (metis stores_are_actions)

lemma zeroed_slots:
  assumes "unat a + 16 * n \<le> 2 ^ 64" and "k \<le> n" and "i < k"
  shows "trb_in (fold apply_store (concat (map (\<lambda>i. trb_stores (trb_slot a i) trb_zero) [0..<k])) m) (trb_slot a i) =
    Some trb_zero"
  using assms(2,3)
proof (induction k)
  case (Suc k)
  then have "k < n" "i < n" by simp_all
  with Suc show ?case by (auto simp: trb_in_store [OF assms(1)] less_Suc_eq)
qed simp

lemma fresh_ring_ok: "fresh_ring X M po count p r \<Longrightarrow> is_power_of_two count \<Longrightarrow> ring_ok r"
  by (auto simp: fresh_ring_def ring_ok_def in_block_def is_power_of_two_def)

lemma acted_trace: "acted s0 H s \<Longrightarrow> \<exists>t. trace s = trace s0 @ t \<and> filter is_action t = H"
  by (auto simp: acted_def)

text \<open>
  C16. With a heap that serves mapped memory, \<open>Ring::new\<close> of up to 256 entries returns a
  well-formed ring: it lies within one allocation, starts on a 64-byte boundary, reports the
  physical address of its start, and all its entries are zero. A length that is no power of two
  panics before anything is allocated.
\<close>

theorem trb_ring_new_correct:
  fixes s :: "'z machine_scheme"
  assumes "dma_heap E X M po" and "x86_documented X" and "count \<le> 256"
  shows "if is_power_of_two count then
      \<exists>r s' p t. trb_ring_new E X M count po s = Ret r s' \<and> trace s' = trace s @ t \<and> ring_ok r \<and>
        fresh_ring X M po count p r \<and> Alloc (count * 16 + 64) 64 p \<in> set t \<and>
        ring_contents s' r = replicate count (Some trb_zero)
    else trb_ring_new E X M count po s = Panic (AssertFailed ''assertion failed: count > 0 && count.is_power_of_two()'') s"
proof (cases "is_power_of_two count")
  case True
  have "wp (trb_ring_new E X M count po) (\<lambda>r s'. \<exists>p. acted s (ring_actions count p (trbs_ptr r)) s' \<and>
      fresh_ring X M po count p r) s"
    by (rule wp_trb_ring_new [OF assms(1,2) True assms(3) acted_refl]) auto
  then obtain r s' p where r: "trb_ring_new E X M count po s = Ret r s'"
      "acted s (ring_actions count p (trbs_ptr r)) s'" "fresh_ring X M po count p r"
    by (auto simp: wp_wlp wlp_def)
  note ok = fresh_ring_ok [OF r(3) True]
  from acted_trace [OF r(2)] obtain t where t: "trace s' = trace s @ t" "filter is_action t = ring_actions count p (trbs_ptr r)"
    by blast
  then have "Alloc (count * 16 + 64) 64 p \<in> set (filter is_action t)" by (simp add: ring_actions_def)
  then have "Alloc (count * 16 + 64) 64 p \<in> set t" by (simp only: set_filter mem_Collect_eq)
  moreover have "ring_contents s' r = replicate count (Some trb_zero)"
    using ok r(3) zeroed_slots [of "trbs_ptr r" count count]
    by (intro nth_equalityI) (simp_all add: ring_contents_def acted_stored [OF r(2)] ring_actions_def ring_ok_def fresh_ring_def)
  ultimately show ?thesis using True r t(1) ok by auto
next
  case False
  then show ?thesis by (simp add: trb_ring_new_def run_simps)
qed

text \<open>A machine whose first gigabyte is mapped by one huge page, and a heap in it.\<close>

definition demo_mmu :: mmu where
  "demo_mmu = \<lparr>cr3 = 0x1000, table_entry = (\<lambda>a i. if a = 0x1000 then 0x2001 else 0x83)\<rparr>"

definition heap_env :: env where
  "heap_env = ready_env\<lparr>heap_alloc := \<lambda>_ _ _. 0x444444440008\<rparr>"

lemma demo_phys_of: "phys_of x86_reference demo_mmu 0 v = Some (v AND 0x3FFFFFFF)"
  by (simp add: phys_of_def virt_to_phys_def pt_at_def demo_mmu_def x86_reference_def canonical_def run_simps Let_def
      ADDR_MASK_def)

lemma demo_dma_heap: "heap_alloc E = heap_alloc heap_env \<Longrightarrow> dma_heap E x86_reference demo_mmu 0"
  by (simp add: dma_heap_def heap_env_def Let_def demo_phys_of)

theorem trb_ring_new_correct_witness:
  "\<exists>r s'. trb_ring_new heap_env x86_reference demo_mmu 2 0 \<lparr>trace = []\<rparr> = Ret r s' \<and> ring_ok r \<and>
     ring_contents s' r = [Some trb_zero, Some trb_zero]"
proof -
  have "is_power_of_two 2" by (simp add: is_power_of_two_def)
  with trb_ring_new_correct [OF demo_dma_heap x86_reference_documented, of heap_env 2 "\<lparr>trace = []\<rparr>"]
  show ?thesis by (auto simp: numeral_2_eq_2)
qed

end
