(* ===== verification/Xhci.thy ===== *)
theory Xhci
  imports Xhci_Rings
begin

text \<open>
  The controller half of \<^verbatim>\<open>kernel/src/xhci.rs\<close>: bring-up, the No-Op health check and the
  initialisation of the ports. The phases of \<open>init\<close> are separate definitions, composed in the
  order of the source.
\<close>

section \<open>The driver\<close>

record controller =
  regs :: registers
  cmd_ring :: trb_ring
  event_ring :: trb_ring
  ctrl_dcbaa :: dcbaa
  ctrl_max_slots :: u8
  ctrl_max_ports :: u8
  ctrl_phys_offset :: u64

definition init_report :: "env \<Rightarrow> registers \<Rightarrow> (u8 \<times> u8, 'z machine_scheme) prog" where
  "init_report E R =
     bind (hciversion E R) (\<lambda>ver.
     seq (serial_println E (''[xhci] xHCI version: '' @ fmt_dec (unat (drop_bit 8 ver AND 0xFF)) @ ''.'' @
       fmt_dec (unat (drop_bit 4 ver AND 0x0F)) @ ''.'' @ fmt_dec (unat (ver AND 0x0F))))
     (bind (max_slots E R) (\<lambda>slots.
     bind (max_ports E R) (\<lambda>ports.
     seq (serial_println E (''[xhci] max slots: '' @ fmt_dec (unat slots) @ '', max ports: '' @ fmt_dec (unat ports)))
     (return (slots, ports))))))"

definition init_stop :: "env \<Rightarrow> registers \<Rightarrow> (u32, 'z machine_scheme) prog" where
  "init_stop E R =
     bind (usbcmd E R) (\<lambda>cmd.
     seq (write_usbcmd R (cmd AND NOT RS))
     (seq (serial_println E ''[xhci] stopped controller, waiting for HCHalted...'')
     (seq (spin_while (fuel E) (bind (usbsts E R) (\<lambda>v. return (v AND HCH = 0))))
     (seq (serial_println E ''[xhci] controller halted'')
     (return cmd)))))"

definition init_reset :: "env \<Rightarrow> registers \<Rightarrow> u32 \<Rightarrow> (unit, 'z machine_scheme) prog" where
  "init_reset E R cmd =
     seq (write_usbcmd R (cmd OR HCRST))
     (seq (serial_println E ''[xhci] resetting controller...'')
     (seq (spin_while (fuel E) (bind (usbcmd E R) (\<lambda>v. return (v AND HCRST \<noteq> 0))))
     (seq (spin_while (fuel E) (bind (usbsts E R) (\<lambda>v. return (v AND CNR \<noteq> 0))))
     (serial_println E ''[xhci] reset complete, controller ready''))))"

definition init_allocate :: "env \<Rightarrow> x86_crate \<Rightarrow> mmu \<Rightarrow> u8 \<Rightarrow> u64 \<Rightarrow> (trb_ring \<times> trb_ring \<times> dcbaa, 'z machine_scheme) prog" where
  "init_allocate E X M slots phys_offset =
     bind (trb_ring_new E X M 256 phys_offset) (\<lambda>cmd_ring.
     bind (trb_ring_new E X M 256 phys_offset) (\<lambda>event_ring.
     bind (dcbaa_new E X M slots phys_offset) (\<lambda>dcbaa.
     seq (serial_println E (''[xhci] cmd ring phys='' @ fmt_hex_alt (unat (ring_physical_address cmd_ring)) @
       '', event ring phys='' @ fmt_hex_alt (unat (ring_physical_address event_ring)) @
       '', dcbaa phys='' @ fmt_hex_alt (unat (dcbaa_physical_address dcbaa))))
     (return (cmd_ring, event_ring, dcbaa)))))"

definition init_configure :: "env \<Rightarrow> x86_crate \<Rightarrow> mmu \<Rightarrow> registers \<Rightarrow> u8 \<Rightarrow> trb_ring \<Rightarrow> trb_ring \<Rightarrow> dcbaa \<Rightarrow> u64 \<Rightarrow>
    (unit, 'z machine_scheme) prog" where
  "init_configure E X M R slots cr er dev phys_offset =
     seq (write_config R (ucast slots))
     (seq (serial_println E (''[xhci] configured for '' @ fmt_dec (unat slots) @ '' device slots''))
     (seq (write_dcbaap R (dcbaa_physical_address dev))
     (seq (write_crcr R (ring_physical_address cr OR 1))
     (bind (allocate_erst E X M er phys_offset) (\<lambda>(seg_phys, _).
     seq (write_erstba R seg_phys)
     (seq (write_erstsz R 1)
     (seq (write_erdp R (ring_physical_address er))
     (enable_interrupter R))))))))"

definition init_start :: "env \<Rightarrow> registers \<Rightarrow> (unit, 'z machine_scheme) prog" where
  "init_start E R =
     seq (write_usbcmd R (RS OR INTE OR HSEE))
     (seq (serial_println E ''[xhci] starting controller...'')
     (seq (spin_while (fuel E) (bind (usbsts E R) (\<lambda>v. return (v AND HCH \<noteq> 0))))
     (serial_println E ''[xhci] init complete'')))"

definition controller_init :: "env \<Rightarrow> x86_crate \<Rightarrow> mmu \<Rightarrow> u64 \<Rightarrow> u64 \<Rightarrow> (controller, 'z machine_scheme) prog" where
  "controller_init E X M bar_phys phys_offset =
     bind (registers_new E bar_phys phys_offset) (\<lambda>R.
     bind (init_report E R) (\<lambda>(slots, ports).
     bind (init_stop E R) (\<lambda>cmd.
     seq (init_reset E R cmd)
     (bind (init_allocate E X M slots phys_offset) (\<lambda>(cmd_ring, event_ring, dcbaa).
     seq (init_configure E X M R slots cmd_ring event_ring dcbaa phys_offset)
     (seq (init_start E R)
     (return \<lparr>regs = R, cmd_ring = cmd_ring, event_ring = event_ring, ctrl_dcbaa = dcbaa,
       ctrl_max_slots = slots, ctrl_max_ports = ports, ctrl_phys_offset = phys_offset\<rparr>)))))))"

text \<open>
  The polling loop of \<open>noop\<close>. Slot 0 of the event ring is ordinary memory that the controller
  writes; each use of one of its fields is a load.
\<close>

primrec noop_poll :: "nat \<Rightarrow> env \<Rightarrow> controller \<Rightarrow> (bool, 'z machine_scheme) prog" where
  "noop_poll 0 E C = return False"
| "noop_poll (Suc n) E C =
     (if trbs_len (event_ring C) = 0 then fail IndexOutOfBounds
      else let slot = trb_slot (trbs_ptr (event_ring C)) 0 in
        bind (load32 E (slot + 12)) (\<lambda>c.
        if cycle_bit (trb_zero\<lparr>control := c\<rparr>) = cycle (cmd_ring C) then
          bind (load32 E (slot + 12)) (\<lambda>c.
          if trb_type (trb_zero\<lparr>control := c\<rparr>) = COMMAND_COMPLETION then
            bind (load32 E (slot + 8)) (\<lambda>st.
            seq (store_trb slot trb_zero)
            (return ((ucast (drop_bit 24 st) :: u8) = 1)))
          else noop_poll n E C)
        else noop_poll n E C))"

definition noop :: "env \<Rightarrow> controller \<Rightarrow> (bool \<times> controller, 'z machine_scheme) prog" where
  "noop E C =
     bind (trb_ring_push \<lparr>parameter = 0, status = 0, control = push_bit 10 (ucast NO_OP_CMD)\<rparr> (cmd_ring C)) (\<lambda>r.
     let C = C\<lparr>cmd_ring := r\<rparr> in
     bind (doorbell E (regs C) 0) (\<lambda>a.
     seq (write32 a 0)
     (bind (noop_poll 1000000 E C) (\<lambda>b. return (b, C)))))"

text \<open>The inner loop that waits for the end of a port reset and acknowledges it.\<close>

primrec reset_wait :: "nat \<Rightarrow> env \<Rightarrow> registers \<Rightarrow> u8 \<Rightarrow> (unit, 'z machine_scheme) prog" where
  "reset_wait 0 E R port = (\<lambda>s. Hang s)"
| "reset_wait (Suc n) E R port =
     bind (read_portsc E R port) (\<lambda>sc.
     if sc AND PRC \<noteq> 0 then write_portsc R port (sc OR PRC)
     else reset_wait n E R port)"

definition port_speed :: "u32 \<Rightarrow> u32" where
  "port_speed sc = drop_bit SPEED_SHIFT (sc AND SPEED_MASK)"

definition fmt_bool :: "bool \<Rightarrow> string" where
  "fmt_bool b = (if b then ''true'' else ''false'')"

definition initialise_port :: "env \<Rightarrow> registers \<Rightarrow> u8 \<Rightarrow> u8 \<Rightarrow> (u8, 'z machine_scheme) prog" where
  "initialise_port E R port connected =
     bind (read_portsc E R port) (\<lambda>sc.
     seq (serial_println E (''[xhci] port '' @ fmt_dec (unat port) @ '' PORTSC = '' @ fmt_hex_alt_width 10 (unat sc)))
     (if sc AND CCS = 0 then return connected
      else bind (u8_val (unat connected + 1)) (\<lambda>connected.
        seq (serial_println E (''[xhci] port '' @ fmt_dec (unat port) @ '' connected, speed = '' @
          fmt_dec (unat (port_speed sc))))
        (if sc AND PED = 0 then
           seq (serial_println E (''[xhci] port '' @ fmt_dec (unat port) @ '' not enabled, resetting...''))
           (seq (write_portsc R port (sc OR PP OR PR))
           (seq (reset_wait (fuel E) E R port)
           (bind (read_portsc E R port) (\<lambda>sc.
           seq (serial_println E (''[xhci] port '' @ fmt_dec (unat port) @ '' reset complete, PED='' @
             fmt_bool (sc AND PED \<noteq> 0) @ '', speed='' @ fmt_dec (unat (port_speed sc))))
           (return connected)))))
         else return connected))))"

definition initialise_ports :: "env \<Rightarrow> controller \<Rightarrow> (u8, 'z machine_scheme) prog" where
  "initialise_ports E C =
     for_fold (map word_of_nat [1..<unat (ctrl_max_ports C) + 1]) (initialise_port E (regs C)) 0"

section \<open>Waiting for a register\<close>

text \<open>The trace after \<open>k\<close> reads of a register, and a register that comes to satisfy \<open>P\<close> within \<open>k\<close> reads.\<close>

primrec polls :: "env \<Rightarrow> u64 \<Rightarrow> nat \<Rightarrow> bus_event list \<Rightarrow> bus_event list" where
  "polls E a 0 t = t"
| "polls E a (Suc k) t = (let u = polls E a k t in u @ [MRead32 a (mmio32 E u a)])"

definition settles :: "env \<Rightarrow> u64 \<Rightarrow> nat \<Rightarrow> bus_event list \<Rightarrow> (u32 \<Rightarrow> bool) \<Rightarrow> bool" where
  "settles E a k t P \<longleftrightarrow> (\<exists>i\<le>k. P (mmio32 E (polls E a i t) a))"

lemma polls_silent: "\<exists>u. polls E a k t = t @ u \<and> filter is_action u = []"
  by (induction k) (auto simp: Let_def)

lemma settles_first:
  assumes "settles E a k t P"
  obtains i where "i \<le> k" and "P (mmio32 E (polls E a i t) a)" and "\<And>j. j < i \<Longrightarrow> \<not> P (mmio32 E (polls E a j t) a)"
proof -
  let ?Q = "\<lambda>i. P (mmio32 E (polls E a i t) a)"
  from assms obtain i0 where "i0 \<le> k" "?Q i0" by (auto simp: settles_def)
  then show ?thesis
    using that [of "LEAST i. ?Q i"] LeastI [of ?Q i0] Least_le [of ?Q i0] not_less_Least [of _ ?Q] by fastforce
qed

lemma acted_polls: "acted s0 H s \<Longrightarrow> acted s0 H (s\<lparr>trace := polls E a k (trace s)\<rparr>)"
proof -
  assume a: "acted s0 H s"
  obtain u where "polls E a k (trace s) = trace s @ u" "filter is_action u = []"
    using polls_silent by blast
  with acted_silent [OF a, of u] show ?thesis by simp
qed

lemma wp_spin:
  assumes "settles E a k (trace s) (\<lambda>v. \<not> c v)" and "k < fuel E" and "acted s0 H s"
    and "\<And>s'. acted s0 H s' \<Longrightarrow> Q () s'"
  shows "wp (spin_while (fuel E) (bind (read32 E a) (\<lambda>v. return (c v)))) Q s"
proof -
  obtain i where i: "i \<le> k" "\<not> c (mmio32 E (polls E a i (trace s)) a)"
      "\<And>j. j < i \<Longrightarrow> \<not> \<not> c (mmio32 E (polls E a j (trace s)) a)"
    by (rule settles_first [OF assms(1)], rule that)
  let ?st = "\<lambda>j. s\<lparr>trace := polls E a j (trace s)\<rparr>"
  have step: "bind (read32 E a) (\<lambda>v. return (c v)) (?st j) = Ret (c (mmio32 E (polls E a j (trace s)) a)) (?st (Suc j))" for j
    by (simp add: run_simps read32_def Let_def)
  have "spin_while (fuel E) (bind (read32 E a) (\<lambda>v. return (c v))) (?st 0) = Ret () (?st (Suc i))"
    by (rule spin_while_run) (use i assms(2) step in simp_all)
  moreover have "?st 0 = s" by simp
  ultimately have "spin_while (fuel E) (bind (read32 E a) (\<lambda>v. return (c v))) s = Ret () (?st (Suc i))" by (simp only:)
  from this assms(4) [OF acted_polls [OF assms(3)]] show ?thesis by (rule wp_run)
qed

section \<open>The controller\<close>

text \<open>The last value written to a register.\<close>

definition last_cmd :: "u64 \<Rightarrow> bus_event list \<Rightarrow> u32 option" where
  "last_cmd a t = fold (\<lambda>e r. case e of MWrite32 b v \<Rightarrow> if b = a then Some v else r | _ \<Rightarrow> r) t None"

text \<open>
  The controller follows its command register, within \<open>k\<close> reads: it halts when Run/Stop is
  cleared, a reset completes and leaves it ready, and it runs when Run/Stop is set.
\<close>

definition xhci_responds :: "env \<Rightarrow> registers \<Rightarrow> nat \<Rightarrow> bool" where
  "xhci_responds E R k \<longleftrightarrow> (\<forall>t v. last_cmd (op_base R) t = Some v \<longrightarrow>
     (v AND RS = 0 \<longrightarrow> settles E (op_base R + 4) k t (\<lambda>w. w AND HCH \<noteq> 0)) \<and>
     (v AND HCRST \<noteq> 0 \<longrightarrow> settles E (op_base R) k t (\<lambda>w. w AND HCRST = 0) \<and>
        settles E (op_base R + 4) k t (\<lambda>w. w AND CNR = 0)) \<and>
     (v AND RS \<noteq> 0 \<longrightarrow> v AND HCRST = 0 \<longrightarrow> settles E (op_base R + 4) k t (\<lambda>w. w AND HCH = 0)))"

text \<open>
  A controller whose base address register is \<open>bar\<close>: \<open>R\<close> describes its register space,
  \<open>hcs1\<close> is the value of HCSPARAMS1. These registers are read-only, and the runtime registers
  follow the operational ones.
\<close>

definition xhci_at :: "env \<Rightarrow> u64 \<Rightarrow> u64 \<Rightarrow> registers \<Rightarrow> u32 \<Rightarrow> bool" where
  "xhci_at E bar po R hcs1 \<longleftrightarrow> window_ok R \<and> base R = po + bar \<and> unat po + unat bar < 2 ^ 64 \<and>
     unat (op_offset R) + 0x40 \<le> unat (rt_offset R) \<and>
     (\<forall>t. ucast (mmio8 E t (base R)) = op_offset R) \<and> (\<forall>t. ucast (mmio32 E t (base R + 0x18)) = rt_offset R) \<and>
     (\<forall>t. mmio32 E t (base R + 4) = hcs1)"

lemma last_cmd_action: "acted s0 (H @ [MWrite32 a v]) s \<Longrightarrow> last_cmd a (trace s) = Some v"
proof -
  let ?f = "\<lambda>e r. case e of MWrite32 b v \<Rightarrow> if b = a then Some v else r | _ \<Rightarrow> r"
  have silent: "fold ?f t r = fold ?f (filter is_action t) r" for t r
  proof (induction t arbitrary: r)
    case (Cons e t)
    then show ?case by (cases e) auto
  qed simp
  assume "acted s0 (H @ [MWrite32 a v]) s"
  then obtain t where t: "trace s = trace s0 @ t" "filter is_action t = H @ [MWrite32 a v]" by (auto simp: acted_def)
  have "last_cmd a (trace s) = fold ?f t (last_cmd a (trace s0))" by (simp add: t(1) last_cmd_def)
  also have "\<dots> = fold ?f (H @ [MWrite32 a v]) (last_cmd a (trace s0))" by (subst silent) (simp only: t(2))
  finally show ?thesis by simp
qed

text \<open>
  The setting in which bring-up succeeds: a UART that drains, a heap that serves mapped memory,
  the documented crate, and a controller at \<open>bar\<close> that responds within the polling budget.
\<close>

definition xhci_setting :: "env \<Rightarrow> x86_crate \<Rightarrow> mmu \<Rightarrow> u64 \<Rightarrow> u64 \<Rightarrow> registers \<Rightarrow> u32 \<Rightarrow> bool" where
  "xhci_setting E X M po bar R hcs1 \<longleftrightarrow> (\<exists>n. uart_drains E n \<and> n < fuel E) \<and> dma_heap E X M po \<and> x86_documented X \<and>
     xhci_at E bar po R hcs1 \<and> (\<exists>k. xhci_responds E R k \<and> k < fuel E)"

lemma settingD:
  assumes "xhci_setting E X M po bar R hcs1"
  shows "dma_heap E X M po" "x86_documented X" "xhci_at E bar po R hcs1" "window_ok R"
  using assms by (auto simp: xhci_setting_def xhci_at_def)

lemma println:
  assumes "xhci_setting E X M po bar R hcs1" and "acted s0 H s" and "\<And>s'. acted s0 H s' \<Longrightarrow> Q () s'"
  shows "wp (serial_println E m) Q s"
proof -
  obtain n where "uart_drains E n" "n < fuel E" using assms(1) by (auto simp: xhci_setting_def)
  then show ?thesis using assms(2,3) by (rule wp_println)
qed

text \<open>The register writes of the configuration phase, before and after the segment table is allocated.\<close>

definition config_writes :: "registers \<Rightarrow> u8 \<Rightarrow> trb_ring \<Rightarrow> dcbaa \<Rightarrow> bus_event list" where
  "config_writes R slots cr d = [MWrite32 (op_base R + 0x38) (ucast slots),
     MWrite32 (op_base R + 0x30) (ucast (dcbaa_phys d)), MWrite32 (op_base R + 0x34) (ucast (drop_bit 32 (dcbaa_phys d))),
     MWrite32 (op_base R + 0x18) (ucast (ring_phys cr OR 1)), MWrite32 (op_base R + 0x1c) (ucast (drop_bit 32 (ring_phys cr OR 1)))]"

definition event_writes :: "registers \<Rightarrow> u64 \<Rightarrow> trb_ring \<Rightarrow> bus_event list" where
  "event_writes R seg er = [MWrite32 (rt_base R + 0x30) (ucast seg), MWrite32 (rt_base R + 0x34) (ucast (drop_bit 32 seg)),
     MWrite16 (rt_base R + 0x28) 1, MWrite32 (rt_base R + 0x38) (ucast (ring_phys er)),
     MWrite32 (rt_base R + 0x3c) (ucast (drop_bit 32 (ring_phys er))),
     MWrite32 (rt_base R + 0x20) 2, MWrite32 (rt_base R + 0x20) 1]"

lemma wp_registers_new:
  assumes st: "xhci_setting E X M po bar R hcs1" and "acted s0 H s" and "\<And>s'. acted s0 H s' \<Longrightarrow> Q R s'"
  shows "wp (registers_new E bar po) Q s"
proof -
  have b: "u64_add po bar = return (base R)" "u64_add (base R) 0x18 = return (base R + 0x18)"
    using settingD(3) [OF st] window_addr(3) [OF settingD(4) [OF st], of "0x18"] by (simp_all add: xhci_at_def u64_add_return)
  have offsets: "ucast (mmio8 E t (base R)) = op_offset R" "ucast (mmio32 E t (base R + 0x18)) = rt_offset R" for t
    using settingD(3) [OF st] unfolding xhci_at_def by blast+
  have run: "registers_new E bar po s = Ret R (s\<lparr>trace := (trace s @ [MRead8 (base R) (mmio8 E (trace s) (base R))]) @
      [MRead32 (base R + 0x18) (mmio32 E (trace s @ [MRead8 (base R) (mmio8 E (trace s) (base R))]) (base R + 0x18))]\<rparr>)"
    unfolding registers_new_def b return_bind
    by (simp only: bind_run read8_def read32_def Let_def outcome.case return_run offsets) simp
  have silent: "acted s0 H (s\<lparr>trace := (trace s @ [MRead8 (base R) x]) @ [MRead32 a y]\<rparr>)" for x a y
    using acted_silent [OF assms(2), of "[MRead8 (base R) x, MRead32 a y]"] by simp
  show ?thesis by (rule wp_run [of "registers_new E bar po", OF run]) (rule assms(3), rule silent)
qed

lemma responses:
  assumes "xhci_responds E R k" and "acted s0 (H @ [MWrite32 (op_base R) v]) s"
  shows "v AND RS = 0 \<Longrightarrow> settles E (op_base R + 4) k (trace s) (\<lambda>w. \<not> w AND HCH = 0)"
    and "v AND HCRST \<noteq> 0 \<Longrightarrow> settles E (op_base R) k (trace s) (\<lambda>w. \<not> w AND HCRST \<noteq> 0)"
    and "v AND HCRST \<noteq> 0 \<Longrightarrow> settles E (op_base R + 4) k (trace s) (\<lambda>w. \<not> w AND CNR \<noteq> 0)"
    and "v AND RS \<noteq> 0 \<Longrightarrow> v AND HCRST = 0 \<Longrightarrow> settles E (op_base R + 4) k (trace s) (\<lambda>w. \<not> w AND HCH \<noteq> 0)"
  using assms(1) last_cmd_action [OF assms(2)] unfolding xhci_responds_def not_not by blast+

text \<open>The three waits on the status register and the one on the command register, after a command.\<close>

lemma wp_waits:
  assumes st: "xhci_setting E X M po bar R hcs1" and a: "acted s0 (H @ [MWrite32 (op_base R) v]) s"
    and Q: "\<And>s'. acted s0 (H @ [MWrite32 (op_base R) v]) s' \<Longrightarrow> Q () s'"
  shows "v AND RS = 0 \<Longrightarrow> wp (spin_while (fuel E) (bind (read32 E (op_base R + 4)) (\<lambda>v. return (v AND HCH = 0)))) Q s"
    and "v AND HCRST \<noteq> 0 \<Longrightarrow> wp (spin_while (fuel E) (bind (read32 E (op_base R)) (\<lambda>v. return (v AND HCRST \<noteq> 0)))) Q s"
    and "v AND HCRST \<noteq> 0 \<Longrightarrow> wp (spin_while (fuel E) (bind (read32 E (op_base R + 4)) (\<lambda>v. return (v AND CNR \<noteq> 0)))) Q s"
    and "v AND RS \<noteq> 0 \<Longrightarrow> v AND HCRST = 0 \<Longrightarrow>
      wp (spin_while (fuel E) (bind (read32 E (op_base R + 4)) (\<lambda>v. return (v AND HCH \<noteq> 0)))) Q s"
proof -
  obtain k where k: "xhci_responds E R k" "k < fuel E" using st by (auto simp: xhci_setting_def)
  note r = responses [OF k(1) a]
  show "v AND RS = 0 \<Longrightarrow> wp (spin_while (fuel E) (bind (read32 E (op_base R + 4)) (\<lambda>v. return (v AND HCH = 0)))) Q s"
    by (rule wp_spin, erule r(1), rule k(2), rule a, erule Q)
  show "v AND HCRST \<noteq> 0 \<Longrightarrow> wp (spin_while (fuel E) (bind (read32 E (op_base R)) (\<lambda>v. return (v AND HCRST \<noteq> 0)))) Q s"
    by (rule wp_spin, erule r(2), rule k(2), rule a, erule Q)
  show "v AND HCRST \<noteq> 0 \<Longrightarrow> wp (spin_while (fuel E) (bind (read32 E (op_base R + 4)) (\<lambda>v. return (v AND CNR \<noteq> 0)))) Q s"
    by (rule wp_spin, erule r(3), rule k(2), rule a, erule Q)
  show "v AND RS \<noteq> 0 \<Longrightarrow> v AND HCRST = 0 \<Longrightarrow>
      wp (spin_while (fuel E) (bind (read32 E (op_base R + 4)) (\<lambda>v. return (v AND HCH \<noteq> 0)))) Q s"
    by (rule wp_spin, erule r(4), assumption, rule k(2), rule a, erule Q)
qed

lemma wp_init_report:
  assumes st: "xhci_setting E X M po bar R hcs1" and "acted s0 H s" and "\<And>s'. acted s0 H s' \<Longrightarrow> Q (ucast hcs1, ucast (drop_bit 24 hcs1 AND 0xFF)) s'"
  shows "wp (init_report E R) Q s"
proof -
  have hcs: "mmio32 E t (base R + 4) = hcs1" for t using settingD(3) [OF st] unfolding xhci_at_def by blast
  have cap: "read_cap E R 4 = read32 E (base R + 4)" "u64_add (base R) 0 = return (base R)"
    using window_access(1) [OF settingD(4) [OF st], of 4] window_addr(3) [OF settingD(4) [OF st], of 0] by simp_all
  show ?thesis
    unfolding init_report_def max_slots_def max_ports_def hciversion_def cap return_bind bind_assoc
    by (rule wp_bindI, rule wp_reads(1) [OF assms(2)], rule wp_seqI, rule println [OF st], assumption,
        rule wp_bindI, rule wp_reads(1), assumption, rule wp_bindI, rule wp_reads(1), assumption,
        rule wp_seqI, rule println [OF st], assumption) (simp only: wp_return hcs assms(3))
qed

lemma wp_init_stop:
  assumes st: "xhci_setting E X M po bar R hcs1" and "acted s0 H s" and "\<And>cmd s'. acted s0 (H @ [MWrite32 (op_base R) (cmd AND NOT RS)]) s' \<Longrightarrow> Q cmd s'"
  shows "wp (init_stop E R) Q s"
proof -
  have stopped: "(cmd AND NOT RS) AND RS = 0" for cmd by (simp add: and.assoc)
  show ?thesis
    unfolding init_stop_def register_accesses [OF settingD(4) [OF st]]
    by (rule wp_bindI, rule wp_reads(1) [OF assms(2)], rule wp_seqI, rule wp_writes(1), assumption,
        rule wp_seqI, rule println [OF st], assumption, rule wp_seqI, rule wp_waits(1) [OF st], assumption,
        rule wp_seqI, rule println [OF st], assumption, simp only: wp_return, rule assms(3), assumption) (rule stopped)
qed

lemma wp_init_reset:
  assumes st: "xhci_setting E X M po bar R hcs1" and "acted s0 H s" and "\<And>s'. acted s0 (H @ [MWrite32 (op_base R) (cmd OR HCRST)]) s' \<Longrightarrow> Q () s'"
  shows "wp (init_reset E R cmd) Q s"
proof -
  have "bit ((cmd OR HCRST) AND HCRST) 1" by (simp add: HCRST_def bit_simps)
  then have reset: "(cmd OR HCRST) AND HCRST \<noteq> 0" by force
  show ?thesis
    unfolding init_reset_def register_accesses [OF settingD(4) [OF st]]
    by (rule wp_seqI, rule wp_writes(1) [OF assms(2)], rule wp_seqI, rule println [OF st], assumption,
        rule wp_seqI, rule wp_waits(2) [OF st], assumption,
        rule wp_seqI, rule wp_waits(3) [OF st], assumption,
        rule println [OF st], assumption, rule assms(3), assumption) (rule reset)+
qed

lemma wp_init_start:
  assumes st: "xhci_setting E X M po bar R hcs1" and "acted s0 H s" and "\<And>s'. acted s0 (H @ [MWrite32 (op_base R) (RS OR INTE OR HSEE)]) s' \<Longrightarrow> Q () s'"
  shows "wp (init_start E R) Q s"
proof -
  have run: "(RS OR INTE OR HSEE) AND RS \<noteq> 0" "(RS OR INTE OR HSEE) AND HCRST = 0"
    by (simp_all add: RS_def INTE_def HSEE_def HCRST_def)
  show ?thesis
    unfolding init_start_def register_accesses [OF settingD(4) [OF st]]
    by (rule wp_seqI, rule wp_writes(1) [OF assms(2)], rule wp_seqI, rule println [OF st], assumption,
        rule wp_seqI, rule wp_waits(4) [OF st], assumption,
        rule println [OF st], assumption, rule assms(3), assumption) (rule run)+
qed

lemma wp_init_allocate:
  assumes st: "xhci_setting E X M po bar R hcs1" and "acted s0 H s"
    and "\<And>p1 p2 p3 cr er d s'. acted s0 (((H @ ring_actions 256 p1 (trbs_ptr cr)) @ ring_actions 256 p2 (trbs_ptr er)) @
        dcbaa_actions (unat slots + 1) p3 (ptrs_ptr d)) s' \<Longrightarrow> fresh_ring X M po 256 p1 cr \<Longrightarrow>
      fresh_ring X M po 256 p2 er \<Longrightarrow> fresh_dcbaa X M po (unat slots + 1) p3 d \<Longrightarrow> Q (cr, er, d) s'"
  shows "wp (init_allocate E X M slots po) Q s"
proof -
  have "is_power_of_two 256" unfolding is_power_of_two_iff by (rule exI [of _ 8]) simp
  note ring = wp_trb_ring_new [OF settingD(1,2) [OF st] this order_refl]
  show ?thesis
    unfolding init_allocate_def
    by (rule wp_bindI, rule ring [OF assms(2)], rule wp_bindI, rule ring, assumption,
        rule wp_bindI, rule wp_dcbaa_new [OF settingD(1,2) [OF st]], assumption, rule wp_seqI, rule println [OF st], assumption,
        simp only: wp_return, rule assms(3))
qed

lemma wp_init_configure:
  assumes st: "xhci_setting E X M po bar R hcs1" and "acted s0 H s"
    and "\<And>p a seg s'. acted s0 (H @ config_writes R slots cr d @ erst_actions er p a @ event_writes R seg er) s' \<Longrightarrow>
      in_block p 16 a \<Longrightarrow> phys_of X M po a = Some seg \<Longrightarrow> Q () s'"
  shows "wp (init_configure E X M R slots cr er d po) Q s"
  unfolding init_configure_def register_accesses [OF settingD(4) [OF st]] seq_assoc dcbaa_physical_address_def ring_physical_address_def
  by (rule wp_seqI, rule wp_writes(1) [OF assms(2)], rule wp_seqI, rule println [OF st], assumption,
      (rule wp_seqI, rule wp_writes(1), assumption)+, rule wp_bindI, rule wp_allocate_erst [OF settingD(1,2) [OF st]], assumption,
      simp only: prod.case, (rule wp_seqI, rule wp_writes(1), assumption)+, rule wp_seqI, rule wp_writes(2), assumption,
      (rule wp_seqI, rule wp_writes(1), assumption)+, rule wp_writes(1), assumption, rule assms(3))
    (simp_all add: config_writes_def event_writes_def)

section \<open>Bring-up\<close>

text \<open>
  What a controller makes of register writes: a reset (HCRST written to USBCMD) clears the
  operational and runtime registers, other writes are kept, and the write of the high half of
  ERSTBA starts the event ring with as many segments as ERSTSZ says at that moment.
\<close>

record xhci_device =
  written :: "u64 \<Rightarrow> u32"
  er_segments :: u32

fun xhci_step :: "registers \<Rightarrow> bus_event \<Rightarrow> xhci_device \<Rightarrow> xhci_device" where
  "xhci_step R (MWrite32 a v) d =
     (if a = op_base R \<and> v AND HCRST \<noteq> 0 then \<lparr>written = (\<lambda>_. 0), er_segments = 0\<rparr>
      else \<lparr>written = (written d)(a := v),
        er_segments = (if a = rt_base R + 0x34 then written d (rt_base R + 0x28) else er_segments d)\<rparr>)"
| "xhci_step R (MWrite16 a v) d = d\<lparr>written := (written d)(a := ucast v)\<rparr>"
| "xhci_step R _ d = d"

definition reg64 :: "xhci_device \<Rightarrow> u64 \<Rightarrow> u64" where
  "reg64 d a = ucast (written d a) OR push_bit 32 (ucast (written d (a + 4)))"

lemma join_halves: "ucast (ucast v :: u32) OR push_bit 32 (ucast (ucast (drop_bit 32 v) :: u32)) = v" for v :: u64
proof (rule bit_word_eqI)
  fix i assume "i < LENGTH(64)"
  then show "bit (ucast (ucast v :: u32) OR push_bit 32 (ucast (ucast (drop_bit 32 v) :: u32)) :: u64) i = bit v i"
    by (cases "i < 32") (auto simp: bit_simps)
qed

lemma xhci_step_writes: "fold (xhci_step R) t d = fold (xhci_step R) (mmio_writes t) d"
proof (induction t arbitrary: d)
  case (Cons e t)
  then show ?case by (cases e) simp_all
qed simp

lemma actions_writes: "mmio_writes (filter is_action t) = mmio_writes t"
proof (induction t)
  case (Cons e t)
  then show ?case by (cases e) simp_all
qed simp

lemma memory_actions_no_writes [simp]:
  "mmio_writes (ring_actions c p a) = []" "mmio_writes (dcbaa_actions c p a) = []" "mmio_writes (erst_actions r p a) = []"
  by (auto simp: ring_actions_def dcbaa_actions_def erst_actions_def trb_stores_def filter_empty_conv)

lemma op_rt_disjoint:
  assumes "xhci_at E bar po R hcs1" and "unat x < 0x40" and "unat y < 0x40"
  shows "op_base R + x \<noteq> rt_base R + y" "op_base R \<noteq> rt_base R + y"
proof -
  have w: "unat (base R) + unat (op_offset R) + 0x1400 < 2 ^ 64" "unat (base R) + unat (rt_offset R) + 0x40 < 2 ^ 64"
    "unat (op_offset R) + 0x40 \<le> unat (rt_offset R)"
    using assms(1) by (auto simp: xhci_at_def window_ok_def)
  have o: "unat (op_base R) = unat (base R) + unat (op_offset R)" "unat (rt_base R) = unat (base R) + unat (rt_offset R)"
    unfolding op_base_def rt_base_def using w by (simp_all add: unat_add_fits)
  have x: "unat (op_base R + x) = unat (base R) + unat (op_offset R) + unat x"
    using o w assms(2) by (subst unat_add_fits) simp_all
  have y: "unat (rt_base R + y) = unat (base R) + unat (rt_offset R) + unat y"
    using o w assms(3) by (subst unat_add_fits) simp_all
  show "op_base R + x \<noteq> rt_base R + y" "op_base R \<noteq> rt_base R + y"
    unfolding word_unat_eq_iff x y o using w assms(2) by linarith+
qed

text \<open>The register writes of a whole bring-up, and the state they leave a controller in.\<close>

definition bring_up_writes :: "registers \<Rightarrow> u32 \<Rightarrow> u8 \<Rightarrow> trb_ring \<Rightarrow> trb_ring \<Rightarrow> dcbaa \<Rightarrow> u64 \<Rightarrow> bus_event list" where
  "bring_up_writes R cmd slots cr er d seg =
     [MWrite32 (op_base R) (cmd AND NOT RS), MWrite32 (op_base R) (cmd OR HCRST)] @ config_writes R slots cr d @
     event_writes R seg er @ [MWrite32 (op_base R) (RS OR INTE OR HSEE)]"

definition configured :: "registers \<Rightarrow> controller \<Rightarrow> u64 \<Rightarrow> xhci_device \<Rightarrow> bool" where
  "configured R C seg d \<longleftrightarrow> written d (op_base R) = RS OR INTE OR HSEE \<and>
     written d (op_base R + 0x38) = ucast (ctrl_max_slots C) \<and> reg64 d (op_base R + 0x30) = dcbaa_phys (ctrl_dcbaa C) \<and>
     reg64 d (op_base R + 0x18) = ring_phys (cmd_ring C) OR 1 \<and> reg64 d (rt_base R + 0x30) = seg \<and>
     written d (rt_base R + 0x28) = 1 \<and> reg64 d (rt_base R + 0x38) = ring_phys (event_ring C)"

lemma bring_up_device:
  assumes "xhci_at E bar po R hcs1"
  shows "configured R \<lparr>regs = R, cmd_ring = cr, event_ring = er, ctrl_dcbaa = dc, ctrl_max_slots = slots,
      ctrl_max_ports = ports, ctrl_phys_offset = po\<rparr> seg (fold (xhci_step R) (bring_up_writes R cmd slots cr er dc seg) d)"
    and "er_segments (fold (xhci_step R) (bring_up_writes R cmd slots cr er dc seg) d) = 0"
proof -
  have reset: "HCRST \<noteq> 0" by (simp add: HCRST_def)
  have run: "(RS OR INTE OR HSEE) AND HCRST = 0" by (simp add: RS_def INTE_def HSEE_def HCRST_def)
  have ne: "op_base R + x \<noteq> rt_base R + y" "rt_base R + y \<noteq> op_base R + x" "op_base R \<noteq> rt_base R + y" "rt_base R + y \<noteq> op_base R"
    if "unat x < 0x40" "unat y < 0x40" for x y
    using op_rt_disjoint [OF assms that] by auto
  have crcr: "ucast (ucast (p OR 1) :: u32) OR push_bit 32 (ucast (ucast (drop_bit 32 p) :: u32)) = p OR 1" for p :: u64
    using join_halves [of "p OR 1"] by (simp add: drop_bit_or)
  note eqs = bring_up_writes_def config_writes_def event_writes_def reset run ne [of "numeral i" "numeral j" for i j]
    ne(3,4) [of 0 "numeral j" for j] ne(3,4) [of 0 0, simplified] join_halves crcr reg64_def add.assoc
  show "er_segments (fold (xhci_step R) (bring_up_writes R cmd slots cr er dc seg) d) = 0"
    by (simp add: eqs)
  show "configured R \<lparr>regs = R, cmd_ring = cr, event_ring = er, ctrl_dcbaa = dc, ctrl_max_slots = slots,
      ctrl_max_ports = ports, ctrl_phys_offset = po\<rparr> seg (fold (xhci_step R) (bring_up_writes R cmd slots cr er dc seg) d)"
    unfolding configured_def controller.simps by (intro conjI; simp add: eqs)
qed

lemma dcbaa_actions_zero: "i < count \<Longrightarrow> Store (a + word_of_nat (8 * i)) 8 0 \<in> set (dcbaa_actions count p a)"
  unfolding dcbaa_actions_def by (rule list.set_intros(2)) (simp only: set_map set_upt, rule imageI, simp)

lemma wpE:
  assumes "wp m Q s"
  obtains x s' where "m s = Ret x s'" "Q x s'"
  using assms by (auto simp: wp_def split: outcome.splits)

lemma wp_controller_init:
  assumes st: "xhci_setting E X M po bar R hcs1"
    and Q: "\<And>cmd cr er d seg p1 p2 p3 p4 a s'. \<lbrakk>acted s (([MWrite32 (op_base R) (cmd AND NOT RS), MWrite32 (op_base R) (cmd OR HCRST)] @
        ring_actions 256 p1 (trbs_ptr cr) @ ring_actions 256 p2 (trbs_ptr er) @
        dcbaa_actions (unat (ucast hcs1 :: u8) + 1) p3 (ptrs_ptr d)) @
        config_writes R (ucast hcs1) cr d @ erst_actions er p4 a @ event_writes R seg er @
        [MWrite32 (op_base R) (RS OR INTE OR HSEE)]) s';
      fresh_ring X M po 256 p1 cr; fresh_ring X M po 256 p2 er; fresh_dcbaa X M po (unat (ucast hcs1 :: u8) + 1) p3 d;
      in_block p4 16 a; phys_of X M po a = Some seg\<rbrakk> \<Longrightarrow>
      Q \<lparr>regs = R, cmd_ring = cr, event_ring = er, ctrl_dcbaa = d, ctrl_max_slots = ucast hcs1,
         ctrl_max_ports = ucast (drop_bit 24 hcs1 AND 0xFF), ctrl_phys_offset = po\<rparr> s'"
  shows "wp (controller_init E X M bar po) Q s"
  unfolding controller_init_def
  by (rule wp_bindI, rule wp_registers_new [OF st acted_refl], rule wp_bindI, rule wp_init_report [OF st], assumption,
      simp only: prod.case, rule wp_bindI, rule wp_init_stop [OF st], assumption, rule wp_seqI, rule wp_init_reset [OF st], assumption,
      rule wp_bindI, rule wp_init_allocate [OF st], assumption, simp only: prod.case,
      rule wp_seqI, rule wp_init_configure [OF st], assumption, rule wp_seqI, rule wp_init_start [OF st], assumption,
      simp only: wp_return, rule Q)
    (simp_all only: append_assoc append.simps)

text \<open>
  C6. Bring-up. With a controller that follows its command register, a heap of mapped memory
  and a UART that drains, \<open>init\<close> returns, whatever state the controller was in. The controller
  is then running with interrupts enabled in USBCMD and has been given, after its reset, the
  number of slots it reported, the context array, the command ring with the cycle state it was
  built with, and the event ring with its one-segment table; the table entry holds the event
  ring's physical address and its 256 entries. Each of the four structures lies 64-byte aligned
  in a heap block that was allocated for it, and the address the controller was given for it is the
  translation of its first byte; the rings are fresh, and the context array has an entry for each slot
  and one more, each of them initialised to zero.
\<close>

theorem controller_init_configures:
  fixes s :: "'z machine_scheme"
  assumes "xhci_setting E X M po bar R hcs1"
  shows "\<exists>C s' t p q b e a seg. controller_init E X M bar po s = Ret C s' \<and> trace s' = trace s @ t \<and> regs C = R \<and>
    ctrl_max_slots C = ucast hcs1 \<and> ctrl_max_ports C = ucast (drop_bit 24 hcs1 AND 0xFF) \<and>
    configured R C seg (fold (xhci_step R) t d) \<and> phys_of X M po a = Some seg \<and>
    stored t a = Some (8, ring_phys (event_ring C)) \<and> stored t (a + 8) = Some (2, 256) \<and>
    fresh_ring X M po 256 p (cmd_ring C) \<and> fresh_ring X M po 256 q (event_ring C) \<and>
    fresh_dcbaa X M po (unat (ctrl_max_slots C) + 1) b (ctrl_dcbaa C) \<and> in_block e 16 a \<and>
    {Alloc 4160 64 p, Alloc 4160 64 q, Alloc ((unat (ctrl_max_slots C) + 1) * 8 + 64) 64 b, Alloc 80 64 e} \<subseteq> set t \<and>
    (\<forall>i \<le> unat (ctrl_max_slots C). Store (ptrs_ptr (ctrl_dcbaa C) + word_of_nat (8 * i)) 8 0 \<in> set t)"
proof -
  let ?post = "\<lambda>C s'. \<exists>t p q b e a seg. trace s' = trace s @ t \<and> regs C = R \<and>
    ctrl_max_slots C = ucast hcs1 \<and> ctrl_max_ports C = ucast (drop_bit 24 hcs1 AND 0xFF) \<and>
    configured R C seg (fold (xhci_step R) t d) \<and> phys_of X M po a = Some seg \<and>
    stored t a = Some (8, ring_phys (event_ring C)) \<and> stored t (a + 8) = Some (2, 256) \<and>
    fresh_ring X M po 256 p (cmd_ring C) \<and> fresh_ring X M po 256 q (event_ring C) \<and>
    fresh_dcbaa X M po (unat (ctrl_max_slots C) + 1) b (ctrl_dcbaa C) \<and> in_block e 16 a \<and>
    {Alloc 4160 64 p, Alloc 4160 64 q, Alloc ((unat (ctrl_max_slots C) + 1) * 8 + 64) 64 b, Alloc 80 64 e} \<subseteq> set t \<and>
    (\<forall>i \<le> unat (ctrl_max_slots C). Store (ptrs_ptr (ctrl_dcbaa C) + word_of_nat (8 * i)) 8 0 \<in> set t)"
  have "wp (controller_init E X M bar po) ?post s"
  proof (rule wp_controller_init [OF assms])
    fix cmd and cr er :: trb_ring and dc :: dcbaa and seg p1 p2 p3 p4 a s'
    let ?pre = "[MWrite32 (op_base R) (cmd AND NOT RS), MWrite32 (op_base R) (cmd OR HCRST)] @
        ring_actions 256 p1 (trbs_ptr cr) @ ring_actions 256 p2 (trbs_ptr er) @
        dcbaa_actions (unat (ucast hcs1 :: u8) + 1) p3 (ptrs_ptr dc)"
    let ?H = "?pre @ config_writes R (ucast hcs1) cr dc @ erst_actions er p4 a @ event_writes R seg er @
        [MWrite32 (op_base R) (RS OR INTE OR HSEE)]"
    assume act: "acted s ?H s'" and fresh: "fresh_ring X M po 256 p1 cr" "fresh_ring X M po 256 p2 er"
        "fresh_dcbaa X M po (unat (ucast hcs1 :: u8) + 1) p3 dc" "in_block p4 16 a"
      and seg: "phys_of X M po a = Some seg"
    from acted_trace [OF act] obtain t where t: "trace s' = trace s @ t" "filter is_action t = ?H" by blast
    have "mmio_writes ?H = bring_up_writes R cmd (ucast hcs1) cr er dc seg"
      by (simp add: bring_up_writes_def config_writes_def event_writes_def)
    then have dev: "fold (xhci_step R) t d = fold (xhci_step R) (bring_up_writes R cmd (ucast hcs1) cr er dc seg) d"
      by (subst xhci_step_writes, subst actions_writes [symmetric]) (simp only: t(2))
    note conf = bring_up_device(1) [OF settingD(3) [OF assms], of cr er dc "ucast hcs1" "ucast (drop_bit 24 hcs1 AND 0xFF)" seg cmd d, folded dev]
    have st: "stored t = fold apply_store ?H Map.empty"
      unfolding stored_def by (subst stores_are_actions) (simp only: t(2))
    have mem: "stored t a = Some (8, ring_phys er)" "stored t (a + 8) = Some (2, 256)"
      using fresh(2) unfolding st fold_append comp_def
      by (simp_all add: erst_actions_def event_writes_def fresh_ring_def)
    have "set ?H \<subseteq> set t" unfolding t(2) [symmetric] by auto
    moreover have "{Alloc 4160 64 p1, Alloc 4160 64 p2, Alloc ((unat (ucast hcs1 :: u8) + 1) * 8 + 64) 64 p3, Alloc 80 64 p4} \<subseteq> set ?H"
      by (simp add: ring_actions_def dcbaa_actions_def erst_actions_def)
    moreover have "\<forall>i \<le> unat (ucast hcs1 :: u8). Store (ptrs_ptr dc + word_of_nat (8 * i)) 8 0 \<in> set ?H"
      using dcbaa_actions_zero [of _ "unat (ucast hcs1 :: u8) + 1" "ptrs_ptr dc" p3]
      by (simp only: set_append Un_iff less_Suc_eq_le Suc_eq_plus1 [symmetric]) blast
    ultimately have made: "{Alloc 4160 64 p1, Alloc 4160 64 p2, Alloc ((unat (ucast hcs1 :: u8) + 1) * 8 + 64) 64 p3, Alloc 80 64 p4} \<subseteq> set t"
        "\<forall>i \<le> unat (ucast hcs1 :: u8). Store (ptrs_ptr dc + word_of_nat (8 * i)) 8 0 \<in> set t" by blast+
    show "?post \<lparr>regs = R, cmd_ring = cr, event_ring = er, ctrl_dcbaa = dc, ctrl_max_slots = ucast hcs1,
         ctrl_max_ports = ucast (drop_bit 24 hcs1 AND 0xFF), ctrl_phys_offset = po\<rparr> s'"
      by (rule exI [of _ t], rule exI [of _ p1], rule exI [of _ p2], rule exI [of _ p3], rule exI [of _ p4], rule exI [of _ a],
          rule exI [of _ seg]) (simp only: controller.simps t(1) conf seg mem fresh made(1) simp_thms, rule made(2))
  qed
  then obtain C s' where run: "controller_init E X M bar po s = Ret C s'" and post: "?post C s'" by (rule wpE)
  show ?thesis by (rule exI [of _ C], rule exI [of _ s'], simp only: run simp_thms, rule post)
qed

lemma controller_init_run:
  fixes s :: "'z machine_scheme"
  assumes "xhci_setting E X M po bar R hcs1"
  shows "\<exists>C t cmd seg p q. controller_init E X M bar po s = Ret C (s\<lparr>trace := trace s @ t\<rparr>) \<and>
    mmio_writes t = bring_up_writes R cmd (ucast hcs1) (cmd_ring C) (event_ring C) (ctrl_dcbaa C) seg \<and> regs C = R \<and>
    fresh_ring X M po 256 p (cmd_ring C) \<and> fresh_ring X M po 256 q (event_ring C) \<and> Alloc 4160 64 p \<in> set t"
proof -
  let ?post = "\<lambda>C s'. \<exists>t cmd seg p q. s' = s\<lparr>trace := trace s @ t\<rparr> \<and>
    mmio_writes t = bring_up_writes R cmd (ucast hcs1) (cmd_ring C) (event_ring C) (ctrl_dcbaa C) seg \<and> regs C = R \<and>
    fresh_ring X M po 256 p (cmd_ring C) \<and> fresh_ring X M po 256 q (event_ring C) \<and> Alloc 4160 64 p \<in> set t"
  have "wp (controller_init E X M bar po) ?post s"
  proof (rule wp_controller_init [OF assms])
    fix cmd and cr er :: trb_ring and dc :: dcbaa and seg p1 p2 p3 p4 a s'
    let ?H = "([MWrite32 (op_base R) (cmd AND NOT RS), MWrite32 (op_base R) (cmd OR HCRST)] @
        ring_actions 256 p1 (trbs_ptr cr) @ ring_actions 256 p2 (trbs_ptr er) @
        dcbaa_actions (unat (ucast hcs1 :: u8) + 1) p3 (ptrs_ptr dc)) @
        config_writes R (ucast hcs1) cr dc @ erst_actions er p4 a @ event_writes R seg er @
        [MWrite32 (op_base R) (RS OR INTE OR HSEE)]"
    let ?C = "\<lparr>regs = R, cmd_ring = cr, event_ring = er, ctrl_dcbaa = dc, ctrl_max_slots = ucast hcs1,
         ctrl_max_ports = ucast (drop_bit 24 hcs1 AND 0xFF), ctrl_phys_offset = po\<rparr>"
    assume act: "acted s ?H s'" and fresh: "fresh_ring X M po 256 p1 cr" "fresh_ring X M po 256 p2 er"
    then obtain t where t: "s' = s\<lparr>trace := trace s @ t\<rparr>" "filter is_action t = ?H" by (auto simp: acted_def)
    have "mmio_writes ?H = bring_up_writes R cmd (ucast hcs1) cr er dc seg"
      by (simp add: bring_up_writes_def config_writes_def event_writes_def)
    then have w: "mmio_writes t = bring_up_writes R cmd (ucast hcs1) cr er dc seg" by (metis actions_writes t(2))
    have "Alloc 4160 64 p1 \<in> set ?H" by (simp add: ring_actions_def)
    then have "Alloc 4160 64 p1 \<in> set t" unfolding t(2) [symmetric] by (simp only: set_filter mem_Collect_eq)
    with t(1) w fresh show "?post ?C s'"
      by (intro exI [of _ t] exI [of _ cmd] exI [of _ seg] exI [of _ p1] exI [of _ p2]) simp
  qed
  then show ?thesis by (auto simp: wp_wlp wlp_def)
qed

text \<open>
  C33. The event ring stays off: \<open>init\<close> writes ERSTBA, which starts the event ring, before it
  writes ERSTSZ, so a controller that was just reset starts it with a table of no segments.
\<close>

theorem controller_init_event_ring_off:
  fixes s :: "'z machine_scheme"
  assumes "xhci_setting E X M po bar R hcs1"
  shows "\<exists>C s' t. controller_init E X M bar po s = Ret C s' \<and> trace s' = trace s @ t \<and>
    er_segments (fold (xhci_step R) t d) = 0"
proof -
  obtain C t cmd seg where
    run: "controller_init E X M bar po s = Ret C (s\<lparr>trace := trace s @ t\<rparr>)" and
    w: "mmio_writes t = bring_up_writes R cmd (ucast hcs1) (cmd_ring C) (event_ring C) (ctrl_dcbaa C) seg"
    using controller_init_run [OF assms] by blast
  have "er_segments (fold (xhci_step R) t d) = 0"
    unfolding xhci_step_writes [of R t] w by (rule bring_up_device(2) [OF settingD(3) [OF assms]])
  with run show ?thesis by auto
qed

text \<open>
  A controller at the address QEMU gives it, with 64 slots and 8 ports without devices, that
  responds at once.
\<close>

definition xhci_env :: env where
  "xhci_env = heap_env\<lparr>mmio8 := \<lambda>_ _. 0x40, mmio32 := \<lambda>t a.
     if a = 0xFEBF0018 then 0x1000 else if a = 0xFEBF0004 then 0x08001040 else if a = 0xFEBF0014 then 0x2000
     else if a = 0xFEBF0044 then (case last_cmd 0xFEBF0040 t of
       Some v \<Rightarrow> if v AND RS \<noteq> 0 \<and> v AND HCRST = 0 then 0 else 1 | None \<Rightarrow> 1)
     else PRC\<rparr>"

lemma xhci_env_setting: "xhci_setting xhci_env x86_reference demo_mmu 0 0xFEBF0000 demo_regs 0x08001040"
proof -
  have "op_base demo_regs = 0xFEBF0040" by (simp add: op_base_def demo_regs_def)
  then have responds: "xhci_responds xhci_env demo_regs 0"
    by (auto simp: xhci_responds_def settles_def xhci_env_def HCH_def CNR_def PRC_def HCRST_def)
  have at: "xhci_at xhci_env 0xFEBF0000 0 demo_regs 0x08001040"
    by (auto simp: xhci_at_def demo_regs_ok) (simp_all add: demo_regs_def xhci_env_def)
  have uart: "uart_drains xhci_env 0" by (simp add: uart_drains_def thr_empty_def xhci_env_def heap_env_def ready_env_def)
  have "fuel xhci_env = 1" by (simp add: xhci_env_def heap_env_def ready_env_def)
  moreover have "dma_heap xhci_env x86_reference demo_mmu 0" by (rule demo_dma_heap) (simp add: xhci_env_def)
  ultimately show ?thesis
    using responds at uart x86_reference_documented unfolding xhci_setting_def by (metis zero_less_one)
qed

theorem controller_init_configures_witness:
  "\<exists>C s'. controller_init xhci_env x86_reference demo_mmu 0xFEBF0000 0 \<lparr>trace = []\<rparr> = Ret C s' \<and>
     ctrl_max_slots C = 64 \<and> ctrl_max_ports C = 8"
  using controller_init_configures [OF xhci_env_setting, of "\<lparr>trace = []\<rparr>"] by fastforce

theorem controller_init_event_ring_off_witness:
  "\<exists>C s' t. controller_init xhci_env x86_reference demo_mmu 0xFEBF0000 0 \<lparr>trace = []\<rparr> = Ret C s' \<and> trace s' = t \<and>
     er_segments (fold (xhci_step demo_regs) t \<lparr>written = (\<lambda>_. 1), er_segments = 1\<rparr>) = 0"
  using controller_init_event_ring_off [OF xhci_env_setting, of "\<lparr>trace = []\<rparr>"] by fastforce

section \<open>The health check\<close>

fun is_load :: "bus_event \<Rightarrow> bool" where
  "is_load (Load32 a v) = True"
| "is_load _ = False"

text \<open>The events of a poll that saw a command completion event with code 1, in slot 0 of the event ring.\<close>

definition saw_completion :: "controller \<Rightarrow> bus_event list \<Rightarrow> bool" where
  "saw_completion C t \<longleftrightarrow> (let slot = trb_slot (trbs_ptr (event_ring C)) 0 in
     \<exists>c c' st. Load32 (slot + 12) c \<in> set t \<and> cycle_bit (trb_zero\<lparr>control := c\<rparr>) = cycle (cmd_ring C) \<and>
       Load32 (slot + 12) c' \<in> set t \<and> trb_type (trb_zero\<lparr>control := c'\<rparr>) = COMMAND_COMPLETION \<and>
       Load32 (slot + 8) st \<in> set t \<and> (ucast (drop_bit 24 st) :: u8) = 1)"

lemma saw_completion_mono: "saw_completion C u \<Longrightarrow> saw_completion C (t @ u @ v)"
  by (auto simp: saw_completion_def Let_def)

lemma noop_poll_run:
  fixes s :: "'z machine_scheme"
  assumes "trbs_len (event_ring C) \<noteq> 0"
  shows "\<exists>b t. noop_poll n E C s = Ret b (s\<lparr>trace := trace s @ t\<rparr>) \<and> mmio_writes t = [] \<and>
    length (filter is_load t) \<le> 2 * n + 1 \<and> (b \<longrightarrow> saw_completion C t)"
proof (induction n arbitrary: s)
  case 0
  show ?case by (intro exI [of _ False] exI [of _ "[]"]) (simp add: run_simps)
next
  case (Suc n)
  let ?slot = "trb_slot (trbs_ptr (event_ring C)) 0"
  define c where "c = dma32 E (trace s) (?slot + 12)"
  let ?s1 = "s\<lparr>trace := trace s @ [Load32 (?slot + 12) c]\<rparr>"
  define c' where "c' = dma32 E (trace ?s1) (?slot + 12)"
  let ?s2 = "?s1\<lparr>trace := trace ?s1 @ [Load32 (?slot + 12) c']\<rparr>"
  define st where "st = dma32 E (trace ?s2) (?slot + 8)"
  have unf: "noop_poll (Suc n) E C s = (if cycle_bit (trb_zero\<lparr>control := c\<rparr>) = cycle (cmd_ring C) then
      (if trb_type (trb_zero\<lparr>control := c'\<rparr>) = COMMAND_COMPLETION then
        Ret ((ucast (drop_bit 24 st) :: u8) = 1) (s\<lparr>trace := trace s @ [Load32 (?slot + 12) c, Load32 (?slot + 12) c', Load32 (?slot + 8) st] @
          trb_stores ?slot trb_zero\<rparr>)
       else noop_poll n E C ?s2) else noop_poll n E C ?s1)"
    using assms by (simp add: run_simps load32_def Let_def c_def c'_def st_def store_trb_def store_def emit_def trb_stores_def)
  consider (wait1) "noop_poll (Suc n) E C s = noop_poll n E C ?s1" | (wait2) "noop_poll (Suc n) E C s = noop_poll n E C ?s2"
    | (found) "cycle_bit (trb_zero\<lparr>control := c\<rparr>) = cycle (cmd_ring C)" "trb_type (trb_zero\<lparr>control := c'\<rparr>) = COMMAND_COMPLETION"
    using unf by (auto split: if_splits)
  then show ?case
  proof cases
    case wait1
    obtain b t where "noop_poll n E C ?s1 = Ret b (?s1\<lparr>trace := trace ?s1 @ t\<rparr>)" "mmio_writes t = []"
      "length (filter is_load t) \<le> 2 * n + 1" "b \<longrightarrow> saw_completion C t" using Suc.IH [of ?s1] by blast
    with wait1 saw_completion_mono [of C t "[Load32 (?slot + 12) c]" "[]"] show ?thesis
      by (intro exI [of _ b] exI [of _ "Load32 (?slot + 12) c # t"]) simp
  next
    case wait2
    obtain b t where "noop_poll n E C ?s2 = Ret b (?s2\<lparr>trace := trace ?s2 @ t\<rparr>)" "mmio_writes t = []"
      "length (filter is_load t) \<le> 2 * n + 1" "b \<longrightarrow> saw_completion C t" using Suc.IH [of ?s2] by blast
    with wait2 saw_completion_mono [of C t "[Load32 (?slot + 12) c, Load32 (?slot + 12) c']" "[]"] show ?thesis
      by (intro exI [of _ b] exI [of _ "Load32 (?slot + 12) c # Load32 (?slot + 12) c' # t"]) simp
  next
    case found
    then have "noop_poll (Suc n) E C s = Ret ((ucast (drop_bit 24 st) :: u8) = 1) (s\<lparr>trace := trace s @
        ([Load32 (?slot + 12) c, Load32 (?slot + 12) c', Load32 (?slot + 8) st] @ trb_stores ?slot trb_zero)\<rparr>)"
      using unf by simp
    then show ?thesis
      by (intro exI conjI, assumption) (use found in \<open>auto simp: trb_stores_def saw_completion_def Let_def\<close>)
  qed
qed

lemma doorbell_run:
  fixes E :: env and s :: "'z machine_scheme" and R :: registers
  assumes "window_ok R" and "unat (base R) + 2 ^ 32 \<le> 2 ^ 64"
  defines "v \<equiv> mmio32 E (trace s) (base R + 0x14)"
  shows "doorbell E R 0 s = Ret (base R + ucast (v AND NOT 3)) (s\<lparr>trace := trace s @ [MRead32 (base R + 0x14) v]\<rparr>)"
proof -
  let ?db = "ucast (v AND NOT 3) :: u64"
  have "unat ?db = unat (v AND NOT 3)" using unsigned_less [of "v AND NOT 3", where ?'a = nat] by (simp only: unat_ucast) simp
  then have "unat ?db < 2 ^ 32" using unsigned_less [of "v AND NOT 3", where ?'a = nat] by simp
  then have fit: "unat (base R) + unat ?db < 2 ^ 64" using assms(2) by linarith
  have read: "read_cap E R 0x14 = read32 E (base R + 0x14)" by (rule window_access(1) [OF assms(1)]) simp
  have "unat (base R + ?db) < 2 ^ 64" using unsigned_less [of "base R + ?db", where ?'a = nat] by simp
  with fit show ?thesis
    unfolding doorbell_def read bind_run read32_def Let_def outcome.case v_def [symmetric]
    by (simp add: run_simps)
qed

lemma noop_run:
  fixes s :: "'z machine_scheme"
  assumes "ring_ok (cmd_ring C)" and "0 < trbs_len (event_ring C)" and "window_ok (regs C)"
    and "unat (base (regs C)) + 2 ^ 32 \<le> 2 ^ 64"
  shows "\<exists>b x u v. noop E C s =
      Ret (b, C\<lparr>cmd_ring := (cmd_ring C)\<lparr>enqueue := (enqueue (cmd_ring C) + 1) mod trbs_len (cmd_ring C)\<rparr>\<rparr>)
        (s\<lparr>trace := trace s @ trb_stores (trb_slot (trbs_ptr (cmd_ring C)) (enqueue (cmd_ring C))) x @ u\<rparr>) \<and>
    trb_type x = NO_OP_CMD \<and> cycle_bit x = cycle (cmd_ring C) \<and>
    mmio_writes u = [MWrite32 (base (regs C) + ucast (v AND NOT 3)) 0] \<and> (\<exists>t. v = mmio32 E t (base (regs C) + 0x14)) \<and>
    length (filter is_load u) \<le> 2000001 \<and> (b \<longrightarrow> saw_completion C u)"
proof -
  let ?x = "stamp (cycle (cmd_ring C)) \<lparr>parameter = 0, status = 0, control = push_bit 10 (ucast NO_OP_CMD)\<rparr>"
  let ?r = "(cmd_ring C)\<lparr>enqueue := (enqueue (cmd_ring C) + 1) mod trbs_len (cmd_ring C)\<rparr>"
  let ?C = "C\<lparr>cmd_ring := ?r\<rparr>"
  let ?s1 = "s\<lparr>trace := trace s @ trb_stores (trb_slot (trbs_ptr (cmd_ring C)) (enqueue (cmd_ring C))) ?x\<rparr>"
  define v where "v = mmio32 E (trace ?s1) (base (regs C) + 0x14)"
  let ?a = "base (regs C) + ucast (v AND NOT 3)"
  let ?s2 = "?s1\<lparr>trace := trace ?s1 @ [MRead32 (base (regs C) + 0x14) v, MWrite32 ?a 0]\<rparr>"
  have db: "doorbell E (regs ?C) 0 ?s1 = Ret ?a (?s1\<lparr>trace := trace ?s1 @ [MRead32 (base (regs C) + 0x14) v]\<rparr>)"
    using doorbell_run [OF assms(3,4), of E ?s1] by (simp add: v_def)
  have ty: "trb_type ?x = NO_OP_CMD" by (simp only: stamp_props) (simp add: trb_type_def NO_OP_CMD_def)
  obtain b t where p: "noop_poll 1000000 E ?C ?s2 = Ret b (?s2\<lparr>trace := trace ?s2 @ t\<rparr>)" "mmio_writes t = []"
      "length (filter is_load t) \<le> 2 * 1000000 + 1" "b \<longrightarrow> saw_completion ?C t"
    using noop_poll_run [of ?C 1000000 E ?s2] assms(2) by auto
  have "saw_completion ?C t = saw_completion C t" by (simp add: saw_completion_def)
  with p(4) have saw: "b \<longrightarrow> saw_completion C ([MRead32 (base (regs C) + 0x14) v, MWrite32 ?a 0] @ t)"
    using saw_completion_mono [of C t "[MRead32 (base (regs C) + 0x14) v, MWrite32 ?a 0]" "[]"] by simp
  have run: "noop E C s = Ret (b, ?C) (?s2\<lparr>trace := trace ?s2 @ t\<rparr>)"
    unfolding noop_def bind_run push_run [OF assms(1)] outcome.case Let_def db seq_run
    using p(1) by (simp add: write32_def emit_def return_run)
  show ?thesis
    by (rule exI [of _ b], rule exI [of _ ?x], rule exI [of _ "[MRead32 (base (regs C) + 0x14) v, MWrite32 ?a 0] @ t"],
        rule exI [of _ v]) (use run ty p(2,3) saw v_def in auto)
qed

text \<open>
  C15. The No-Op check ends for every device. It stores a No-Op command with the ring's cycle bit
  in the next command slot before it rings doorbell 0, which is its only register write, polls
  slot 0 of the event ring at most a million times, and reports success only when it saw a
  command completion event with completion code 1 there.
\<close>

theorem noop_terminates:
  fixes s :: "'z machine_scheme"
  assumes "ring_ok (cmd_ring C)" and "0 < trbs_len (event_ring C)" and "window_ok (regs C)"
    and "unat (base (regs C)) + 2 ^ 32 \<le> 2 ^ 64"
  shows "\<exists>b C' s' x u. noop E C s = Ret (b, C') s' \<and>
    trace s' = trace s @ trb_stores (trb_slot (trbs_ptr (cmd_ring C)) (enqueue (cmd_ring C))) x @ u \<and>
    trb_type x = NO_OP_CMD \<and> cycle_bit x = cycle (cmd_ring C) \<and>
    (\<exists>db. mmio_writes u = [MWrite32 (base (regs C) + db) 0]) \<and> length (filter is_load u) \<le> 2000001 \<and>
    ring_ok (cmd_ring C') \<and> (b \<longrightarrow> saw_completion C u)"
proof -
  obtain b x u and v :: u32 where n: "noop E C s =
      Ret (b, C\<lparr>cmd_ring := (cmd_ring C)\<lparr>enqueue := (enqueue (cmd_ring C) + 1) mod trbs_len (cmd_ring C)\<rparr>\<rparr>)
        (s\<lparr>trace := trace s @ trb_stores (trb_slot (trbs_ptr (cmd_ring C)) (enqueue (cmd_ring C))) x @ u\<rparr>)"
    "trb_type x = NO_OP_CMD" "cycle_bit x = cycle (cmd_ring C)"
    "mmio_writes u = [MWrite32 (base (regs C) + ucast (v AND NOT 3)) 0]"
    "length (filter is_load u) \<le> 2000001" "b \<longrightarrow> saw_completion C u"
    using noop_run [OF assms] by blast
  show ?thesis
    by (rule exI [of _ b], rule exI, rule exI, rule exI [of _ x], rule exI [of _ u], intro conjI, rule n(1))
      (use n push_ring_ok [OF assms(1)] in auto)
qed

definition demo_controller :: controller where
  "demo_controller = \<lparr>regs = demo_regs, cmd_ring = demo_ring, event_ring = demo_ring\<lparr>trbs_ptr := 0x444444441040\<rparr>,
     ctrl_dcbaa = \<lparr>ptrs_ptr = 0x444444442040, ptrs_len = 65, dcbaa_phys = 0x302040\<rparr>,
     ctrl_max_slots = 64, ctrl_max_ports = 8, ctrl_phys_offset = 0\<rparr>"

theorem noop_terminates_witness:
  "\<exists>b C' s'. noop xhci_env demo_controller \<lparr>trace = []\<rparr> = Ret (b, C') s' \<and> ring_ok (cmd_ring C')"
proof -
  have "ring_ok (cmd_ring demo_controller)" "0 < trbs_len (event_ring demo_controller)" "window_ok (regs demo_controller)"
    "unat (base (regs demo_controller)) + 2 ^ 32 \<le> 2 ^ 64"
    using demo_ring_ok demo_regs_ok by (simp_all add: demo_controller_def) (simp_all add: demo_ring_def demo_regs_def)
  from noop_terminates [OF this, of xhci_env "\<lparr>trace = []\<rparr>"] show ?thesis by blast
qed

section \<open>Ports\<close>

text \<open>
  Ports during initialisation: which ones have a device attached does not change, and a reset
  that was requested in PORTSC completes within \<open>k\<close> reads.
\<close>

definition ports_respond :: "env \<Rightarrow> registers \<Rightarrow> (u8 \<Rightarrow> bool) \<Rightarrow> nat \<Rightarrow> bool" where
  "ports_respond E R attached k \<longleftrightarrow>
     (\<forall>t p. p \<noteq> 0 \<longrightarrow> (mmio32 E t (portsc_at R p) AND CCS \<noteq> 0 \<longleftrightarrow> attached p)) \<and>
     (\<forall>t p v. p \<noteq> 0 \<longrightarrow> last_cmd (portsc_at R p) t = Some v \<longrightarrow> v AND PR \<noteq> 0 \<longrightarrow>
        settles E (portsc_at R p) k t (\<lambda>w. w AND PRC \<noteq> 0))"

lemma polls_shift: "polls E a (Suc j) t = polls E a j (t @ [MRead32 a (mmio32 E t a)])"
  by (induction j) (simp_all add: Let_def)

lemma reset_wait_run:
  fixes s :: "'z machine_scheme"
  assumes "window_ok R" and "p \<noteq> 0" and "i < n"
    and "mmio32 E (polls E (portsc_at R p) i (trace s)) (portsc_at R p) AND PRC \<noteq> 0"
    and "\<And>j. j < i \<Longrightarrow> \<not> mmio32 E (polls E (portsc_at R p) j (trace s)) (portsc_at R p) AND PRC \<noteq> 0"
  shows "reset_wait n E R p s = Ret () (s\<lparr>trace := polls E (portsc_at R p) (Suc i) (trace s) @
    [MWrite32 (portsc_at R p) (mmio32 E (polls E (portsc_at R p) i (trace s)) (portsc_at R p) OR PRC)]\<rparr>)"
  using assms(3-5)
proof (induction i arbitrary: n s)
  case 0
  then obtain m where "n = Suc m" by (cases n) auto
  with 0 show ?case
    by (simp add: window_access(4,5) [OF assms(1,2)] run_simps read32_def write32_def emit_def Let_def)
next
  case (Suc i)
  then obtain m where m: "n = Suc m" "i < m" by (cases n) auto
  let ?a = "portsc_at R p"
  let ?s = "s\<lparr>trace := trace s @ [MRead32 ?a (mmio32 E (trace s) ?a)]\<rparr>"
  have sh: "polls E ?a j (trace ?s) = polls E ?a (Suc j) (trace s)" for j by (simp only: polls_shift) simp
  have "reset_wait n E R p s = reset_wait m E R p ?s"
    using Suc.prems(3) [of 0] m
    by (simp add: window_access(4) [OF assms(1,2)] run_simps read32_def Let_def)
  also have "\<dots> = Ret () (?s\<lparr>trace := polls E ?a (Suc i) (trace ?s) @
      [MWrite32 ?a (mmio32 E (polls E ?a i (trace ?s)) ?a OR PRC)]\<rparr>)"
    by (rule Suc.IH [OF m(2)]) (use Suc.prems(2,3) in \<open>simp_all only: sh Suc_less_eq simp_thms\<close>)
  finally show ?case by (simp only: sh machine.simps) simp
qed

lemma wp_reset_wait:
  assumes "window_ok R" and "p \<noteq> 0" and "settles E (portsc_at R p) k (trace s) (\<lambda>w. w AND PRC \<noteq> 0)" and "k < fuel E"
    and "acted s0 H s" and "\<And>v s'. acted s0 (H @ [MWrite32 (portsc_at R p) (v OR PRC)]) s' \<Longrightarrow> Q () s'"
  shows "wp (reset_wait (fuel E) E R p) Q s"
proof -
  let ?a = "portsc_at R p"
  obtain i where i: "i \<le> k" "mmio32 E (polls E ?a i (trace s)) ?a AND PRC \<noteq> 0"
      "\<And>j. j < i \<Longrightarrow> \<not> mmio32 E (polls E ?a j (trace s)) ?a AND PRC \<noteq> 0"
    by (rule settles_first [OF assms(3)], rule that)
  have "i < fuel E" using i(1) assms(4) by simp
  note run = reset_wait_run [OF assms(1,2) this i(2,3)]
  let ?v = "mmio32 E (polls E ?a i (trace s)) ?a OR PRC"
  have "acted s0 (H @ [MWrite32 ?a ?v]) (s\<lparr>trace := polls E ?a (Suc i) (trace s) @ [MWrite32 ?a ?v]\<rparr>)"
    using acted_snoc [OF acted_polls [OF assms(5), where k = "Suc i" and a = ?a and E = E], of "[MWrite32 ?a ?v]"]
    by (simp del: polls.simps)
  then show ?thesis using run assms(6) by (blast intro: wp_run)
qed

text \<open>
  What the driver writes for a port whose register reads \<open>sc\<close>: nothing, or the request of a reset
  and the acknowledgement of its completion.
\<close>

definition reset_writes :: "registers \<Rightarrow> u8 \<Rightarrow> bool \<Rightarrow> bus_event list \<Rightarrow> bool" where
  "reset_writes R p due w \<longleftrightarrow> (if due then \<exists>sc v. w =
     [MWrite32 (portsc_at R p) (sc OR PP OR PR), MWrite32 (portsc_at R p) (v OR PRC)] else w = [])"

abbreviation reset_due :: "u32 \<Rightarrow> bool" where
  "reset_due sc \<equiv> sc AND CCS \<noteq> 0 \<and> sc AND PED = 0"

lemma port_reset_settles:
  assumes "ports_respond E R attached k" and "p \<noteq> 0" and "acted s0 (H @ [MWrite32 (portsc_at R p) (sc OR PP OR PR)]) u"
  shows "settles E (portsc_at R p) k (trace u) (\<lambda>w. w AND PRC \<noteq> 0)"
proof -
  have "(sc OR PP OR PR) AND PR = PR" by (rule bit_word_eqI) (auto simp: bit_simps)
  then have "(sc OR PP OR PR) AND PR \<noteq> 0" by (simp add: PR_def)
  then show ?thesis using last_cmd_action [OF assms(3)] assms(1,2) unfolding ports_respond_def by blast
qed

lemma wp_initialise_port:
  assumes uart: "uart_drains E n" "n < fuel E" and R: "window_ok R" "p \<noteq> 0"
    and resp: "ports_respond E R attached k" "k < fuel E" and c: "unat c < 255" and a: "acted s0 H s"
    and Q: "\<And>w s'. acted s0 (H @ w) s' \<Longrightarrow> reset_writes R p (reset_due (mmio32 E (trace s) (portsc_at R p))) w \<Longrightarrow>
      Q (if attached p then c + 1 else c) s'"
  shows "wp (initialise_port E R p c) Q s"
proof -
  have ccs: "mmio32 E t (portsc_at R p) AND CCS = 0 \<longleftrightarrow> \<not> attached p" for t
    using resp(1) R(2) unfolding ports_respond_def by blast
  have incr: "u8_val (unat c + 1) = return (c + 1)"
    using c by (simp add: u8_val_def add.commute)
  note settle = port_reset_settles [OF resp(1) R(2)]
  note pl = wp_println [OF uart]
  show ?thesis
    unfolding initialise_port_def window_access(4,5) [OF R] incr return_bind
  proof (rule wp_bindI, rule wp_reads(1) [OF a], rule wp_seqI, rule pl, assumption)
    fix s1 assume 1: "acted s0 H s1"
    let ?sc = "mmio32 E (trace s) (portsc_at R p)"
    let ?m = "\<lambda>x. serial_println E x"
    show "wp (if ?sc AND CCS = 0 then return c
        else seq (?m (''[xhci] port '' @ fmt_dec (unat p) @ '' connected, speed = '' @ fmt_dec (unat (port_speed ?sc))))
          (if ?sc AND PED = 0 then
             seq (?m (''[xhci] port '' @ fmt_dec (unat p) @ '' not enabled, resetting...''))
             (seq (write32 (portsc_at R p) (?sc OR PP OR PR))
             (seq (reset_wait (fuel E) E R p)
             (bind (read32 E (portsc_at R p)) (\<lambda>sc.
             seq (?m (''[xhci] port '' @ fmt_dec (unat p) @ '' reset complete, PED='' @
               fmt_bool (sc AND PED \<noteq> 0) @ '', speed='' @ fmt_dec (unat (port_speed sc))))
             (return (c + 1))))))
           else return (c + 1))) Q s1"
    proof (cases "attached p")
      case False
      then show ?thesis using Q [of "[]" s1] 1 by (simp add: ccs wp_return reset_writes_def)
    next
      case att: True
      have done0: "Q (c + 1) u" if "?sc AND PED \<noteq> 0" "acted s0 H u" for u
        using Q [of "[]" u] that att by (simp add: reset_writes_def)
      have done2: "Q (c + 1) u" if "?sc AND PED = 0"
          "acted s0 ((H @ [MWrite32 (portsc_at R p) (?sc OR PP OR PR)]) @ [MWrite32 (portsc_at R p) (v OR PRC)]) u" for u v
        using Q [of "[MWrite32 (portsc_at R p) (?sc OR PP OR PR), MWrite32 (portsc_at R p) (v OR PRC)]" u] that att
        by (auto simp: reset_writes_def ccs)
      show ?thesis
        unfolding ccs using att
        by (simp only: not_True_eq_False if_False, intro wp_seqI, intro pl [OF 1])
          (cases "?sc AND PED = 0"; simp only: if_True if_False simp_thms;
            (simp only: wp_return, erule (1) done0)?;
            rule wp_seqI, rule pl, assumption, rule wp_seqI, rule wp_writes(1), assumption,
            rule wp_seqI, rule wp_reset_wait [OF R], erule settle, rule resp(2), assumption,
            rule wp_bindI, rule wp_reads(1), assumption, rule wp_seqI, rule pl, assumption,
            simp only: wp_return, erule (1) done2)
    qed
  qed
qed

text \<open>
  What the driver writes for a list of ports after the actions \<open>H\<close>, each port as its register reads
  at that time.
\<close>

primrec ports_written :: "env \<Rightarrow> registers \<Rightarrow> bus_event list \<Rightarrow> bus_event list \<Rightarrow> u8 list \<Rightarrow> bus_event list \<Rightarrow> bool" where
  "ports_written E R t H [] w \<longleftrightarrow> w = []"
| "ports_written E R t H (p # ps) w \<longleftrightarrow> (\<exists>u x y. filter is_action u = H \<and> w = x @ y \<and>
     reset_writes R p (reset_due (mmio32 E (t @ u) (portsc_at R p))) x \<and> ports_written E R t (H @ x) ps y)"

lemma ports_written_only:
  "ports_written E R t H ps w \<Longrightarrow> e \<in> set w \<Longrightarrow> \<exists>p\<in>set ps. \<exists>v. e = MWrite32 (portsc_at R p) v"
  by (induction ps arbitrary: H w) (auto simp: reset_writes_def split: if_splits, blast+)

lemma portsc_at_inj: "portsc_at R p = portsc_at R q \<longleftrightarrow> p = q"
proof -
  have n: "unat (ucast p * 0x10 :: u64) = unat p * 16" for p :: u8
    using unsigned_less [of p, where ?'a = nat] by (simp add: unat_word_ariths unat_ucast)
  have "portsc_at R p = ucast p * 0x10 + (base R + op_offset R + 0x400 - 0x10)" for p
    by (simp add: portsc_at_def algebra_simps)
  then have "portsc_at R p = portsc_at R q \<longleftrightarrow> (ucast p * 0x10 :: u64) = ucast q * 0x10"
    by (simp only: add_right_cancel)
  also have "\<dots> \<longleftrightarrow> unat p * 16 = unat q * 16" unfolding word_unat_eq_iff n ..
  finally show ?thesis by (simp add: word_unat_eq_iff)
qed

lemma wp_initialise_ports:
  assumes uart: "uart_drains E n" "n < fuel E" and R: "window_ok R" and resp: "ports_respond E R attached k" "k < fuel E"
  shows "\<lbrakk>0 \<notin> set ps; unat c + length ps \<le> 255; acted s0 H s;
      \<And>w s' c'. acted s0 (H @ w) s' \<Longrightarrow> ports_written E R (trace s0) H ps w \<Longrightarrow>
        unat c' = unat c + length (filter attached ps) \<Longrightarrow> Q c' s'\<rbrakk> \<Longrightarrow>
    wp (for_fold ps (initialise_port E R) c) Q s"
proof (induction ps arbitrary: c H s)
  case Nil
  then show ?case using Nil.prems(4) [of "[]" s c] by (simp add: wp_return)
next
  case (Cons p ps)
  have c: "unat c < 255" "p \<noteq> 0" using Cons.prems by auto
  have succ: "unat (c + 1) = unat c + 1" using c(1) by (simp add: unat_word_ariths)
  obtain u where u: "trace s = trace s0 @ u" "filter is_action u = H" using acted_trace [OF Cons.prems(3)] by blast
  show ?case
    unfolding for_fold.simps
  proof (rule wp_bindI, rule wp_initialise_port [OF uart R c(2) resp c(1) Cons.prems(3)], rule Cons.IH)
    fix w s1
    let ?c = "if attached p then c + 1 else c"
    assume w: "acted s0 (H @ w) s1" "reset_writes R p (reset_due (mmio32 E (trace s) (portsc_at R p))) w"
    show "0 \<notin> set ps" "acted s0 (H @ w) s1" using Cons.prems w by auto
    show "unat ?c + length ps \<le> 255" using Cons.prems(2) succ by auto
    show "Q c' s2" if "acted s0 ((H @ w) @ w') s2" "ports_written E R (trace s0) (H @ w) ps w'"
        "unat c' = unat ?c + length (filter attached ps)" for w' s2 c'
    proof (rule Cons.prems(4) [of "w @ w'"])
      show "ports_written E R (trace s0) H (p # ps) (w @ w')"
        unfolding ports_written.simps using u(2) w(2) [unfolded u(1)] that(2) by blast
    qed (use that succ in \<open>auto split: if_splits\<close>)
  qed
qed

lemma ports_nonzero: "0 \<notin> set (map word_of_nat [1..<unat m + 1] :: u8 list)" for m :: u8
proof -
  have "(word_of_nat i :: u8) \<noteq> 0" if "1 \<le> i" "i \<le> unat m" for i
  proof -
    have "i < 256" using that unsigned_less [of m, where ?'a = nat] by simp
    with that(1) have "unat (word_of_nat i :: u8) \<noteq> 0" by (simp add: unat_of_nat)
    then show ?thesis by auto
  qed
  then show ?thesis by (force simp del: upt_Suc)
qed

text \<open>The ports of the controller, in order.\<close>

abbreviation port_list :: "controller \<Rightarrow> u8 list" where
  "port_list C \<equiv> map word_of_nat [1..<unat (ctrl_max_ports C) + 1]"

lemma port_list_range: "distinct (port_list C)" "set (port_list C) = {p. 1 \<le> p \<and> p \<le> ctrl_max_ports C}"
proof -
  let ?m = "unat (ctrl_max_ports C)"
  have m: "?m < 256" using unsigned_less [of "ctrl_max_ports C", where ?'a = nat] by simp
  have un: "map unat (port_list C) = [1..<?m + 1]"
    unfolding map_map by (rule map_idI) (use m in \<open>auto simp: unat_of_nat\<close>)
  have "distinct (map unat (port_list C))" unfolding un by simp
  then show "distinct (port_list C)" by (simp only: distinct_map)
  have "p \<in> set (port_list C) \<longleftrightarrow> unat p \<in> set (map unat (port_list C))" for p
    by (auto simp: word_unat_eq_iff simp del: upt_Suc)
  then have "p \<in> set (port_list C) \<longleftrightarrow> 1 \<le> p \<and> p \<le> ctrl_max_ports C" for p
    unfolding un by (simp only: set_upt) (auto simp: word_le_nat_alt)
  then show "set (port_list C) = {p. 1 \<le> p \<and> p \<le> ctrl_max_ports C}" by blast
qed

lemma initialise_ports_acts:
  fixes s :: "'z machine_scheme"
  assumes "uart_drains E n" and "n < fuel E" and "window_ok (regs C)"
    and "ports_respond E (regs C) attached k" and "k < fuel E"
  shows "\<exists>c t. initialise_ports E C s = Ret c (s\<lparr>trace := trace s @ t\<rparr>) \<and>
    ports_written E (regs C) (trace s) [] (port_list C) (mmio_writes t) \<and>
    unat c = card {p \<in> set (port_list C). attached p}"
proof -
  have len: "unat (0 :: u8) + length (port_list C) \<le> 255" using unsigned_less [of "ctrl_max_ports C", where ?'a = nat] by simp
  have "wp (initialise_ports E C) (\<lambda>c s'. \<exists>w. acted s w s' \<and> ports_written E (regs C) (trace s) [] (port_list C) w \<and>
      unat c = length (filter attached (port_list C))) s"
    unfolding initialise_ports_def
    by (rule wp_initialise_ports [OF assms ports_nonzero len acted_refl]) auto
  then obtain c s' w where r: "initialise_ports E C s = Ret c s'" "acted s w s'"
      "ports_written E (regs C) (trace s) [] (port_list C) w" "unat c = length (filter attached (port_list C))"
    by (auto simp: wp_wlp wlp_def)
  from r(2) obtain t where t: "s' = s\<lparr>trace := trace s @ t\<rparr>" "filter is_action t = w" by (auto simp: acted_def)
  have "mmio_writes w = w"
    using ports_written_only [OF r(3)] by (intro filter_True) force
  then have "mmio_writes t = w" using actions_writes [of t] t(2) by simp
  moreover have "length (filter attached (port_list C)) = card (set (filter attached (port_list C)))"
    by (rule distinct_card [symmetric], rule distinct_filter, rule port_list_range(1))
  ultimately show ?thesis using r(1,3,4) t(1) by (auto simp only: set_filter)
qed

lemma initialise_ports_run:
  fixes s :: "'z machine_scheme"
  assumes "uart_drains E n" and "n < fuel E" and "window_ok (regs C)"
    and "ports_respond E (regs C) attached k" and "k < fuel E"
  shows "\<exists>c t. initialise_ports E C s = Ret c (s\<lparr>trace := trace s @ t\<rparr>) \<and>
    (\<forall>e\<in>set (mmio_writes t). \<exists>p v. p \<noteq> 0 \<and> e = MWrite32 (portsc_at (regs C) p) v)"
  using initialise_ports_acts [OF assms, of s] ports_written_only ports_nonzero [of "ctrl_max_ports C"] by metis

text \<open>A port's register keeps its enabled bit until the driver writes to it.\<close>

definition ports_enabled :: "env \<Rightarrow> registers \<Rightarrow> (u8 \<Rightarrow> bool) \<Rightarrow> bool" where
  "ports_enabled E R enabled \<longleftrightarrow> (\<forall>t p. p \<noteq> 0 \<longrightarrow> (\<forall>v. MWrite32 (portsc_at R p) v \<notin> set t) \<longrightarrow>
     (mmio32 E t (portsc_at R p) AND PED \<noteq> 0 \<longleftrightarrow> enabled p))"

lemma ports_written_resets:
  assumes resp: "ports_respond E R attached k" and en: "ports_enabled E R enabled"
  shows "\<lbrakk>ports_written E R t H ps w; distinct ps; 0 \<notin> set ps;
      \<And>p v. p \<in> set ps \<Longrightarrow> MWrite32 (portsc_at R p) v \<notin> set t \<union> set H\<rbrakk> \<Longrightarrow>
    \<exists>f. w = concat (map f ps) \<and> (\<forall>p\<in>set ps. reset_writes R p (attached p \<and> \<not> enabled p) (f p))"
proof (induction ps arbitrary: H w)
  case (Cons p ps)
  obtain u x y where w: "filter is_action u = H" "w = x @ y" "ports_written E R t (H @ x) ps y"
      "reset_writes R p (reset_due (mmio32 E (t @ u) (portsc_at R p))) x"
    using Cons.prems(1) by auto
  have "MWrite32 (portsc_at R p) v \<notin> set (t @ u)" for v using Cons.prems(4) [of p v] w(1) by auto
  moreover have "p \<noteq> 0" using Cons.prems(3) by auto
  ultimately have due: "reset_due (mmio32 E (t @ u) (portsc_at R p)) \<longleftrightarrow> attached p \<and> \<not> enabled p"
    using resp en unfolding ports_respond_def ports_enabled_def by metis
  have "MWrite32 (portsc_at R q) v \<notin> set x" if "q \<in> set ps" for q v
    using w(4) that Cons.prems(2) by (auto simp: reset_writes_def portsc_at_inj split: if_splits)
  then obtain f where f: "y = concat (map f ps)" "\<forall>p\<in>set ps. reset_writes R p (attached p \<and> \<not> enabled p) (f p)"
    using Cons.IH [OF w(3)] Cons.prems(2-4) by (metis Un_iff distinct.simps(2) list.set_intros(2) set_append)
  have "map (f(p := x)) (p # ps) = x # map f ps" using Cons.prems(2) by simp
  then have "w = concat (map (f(p := x)) (p # ps))" by (simp only: w(2) f(1) concat.simps)
  moreover have "\<forall>q\<in>set (p # ps). reset_writes R q (attached q \<and> \<not> enabled q) ((f(p := x)) q)"
    using w(4) [unfolded due] f(2) Cons.prems(2) by simp
  ultimately show ?case by blast
qed simp

text \<open>
  C12. Port initialisation returns when every reset the driver requests completes. Its result is
  the number of ports with a device attached. It resets exactly the attached ports that are not
  enabled, in order, each by one write that requests the reset and one that acknowledges it, and
  writes no other register.
\<close>

theorem initialise_ports_counts:
  fixes s :: "'z machine_scheme"
  assumes "uart_drains E n" and "n < fuel E" and "window_ok (regs C)"
    and "ports_respond E (regs C) attached k" and "k < fuel E" and "ports_enabled E (regs C) enabled"
  defines "ports \<equiv> {p. 1 \<le> p \<and> p \<le> ctrl_max_ports C}"
  assumes "\<And>p v. p \<in> ports \<Longrightarrow> MWrite32 (portsc_at (regs C) p) v \<notin> set (trace s)"
  shows "\<exists>c s' t f. initialise_ports E C s = Ret c s' \<and> trace s' = trace s @ t \<and>
    unat c = card {p \<in> ports. attached p} \<and>
    mmio_writes t = concat (map f (map word_of_nat [1..<unat (ctrl_max_ports C) + 1])) \<and>
    (\<forall>p\<in>ports. if attached p \<and> \<not> enabled p
       then \<exists>sc v. f p = [MWrite32 (portsc_at (regs C) p) (sc OR PP OR PR), MWrite32 (portsc_at (regs C) p) (v OR PRC)]
       else f p = [])"
proof -
  have ports: "ports = set (port_list C)" unfolding ports_def port_list_range(2) ..
  obtain c t where r: "initialise_ports E C s = Ret c (s\<lparr>trace := trace s @ t\<rparr>)"
      "ports_written E (regs C) (trace s) [] (port_list C) (mmio_writes t)" "unat c = card {p \<in> ports. attached p}"
    using initialise_ports_acts [OF assms(1-5), of s] unfolding ports by blast
  have "MWrite32 (portsc_at (regs C) p) v \<notin> set (trace s) \<union> set []" if "p \<in> set (port_list C)" for p v
    using assms(8) that unfolding ports by simp
  from ports_written_resets [OF assms(4,6) r(2) port_list_range(1) ports_nonzero this] obtain f where
    "mmio_writes t = concat (map f (port_list C))" "\<forall>p\<in>ports. reset_writes (regs C) p (attached p \<and> \<not> enabled p) (f p)"
    unfolding ports by blast
  then show ?thesis using r(1,3) unfolding reset_writes_def by fastforce
qed

text \<open>Ports 1 and 3 hold a device, the one at port 3 is enabled; every PORTSC reports a completed reset.\<close>

definition port_env :: env where
  "port_env = ready_env\<lparr>mmio32 := \<lambda>_ a. if a = 0xFEBF0440 then PRC OR CCS else if a = 0xFEBF0460 then PRC OR CCS OR PED else PRC\<rparr>"

lemma demo_ports: "portsc_at demo_regs p = 0xFEBF0440 \<longleftrightarrow> p = 1" "portsc_at demo_regs p = 0xFEBF0460 \<longleftrightarrow> p = 3"
proof -
  have "portsc_at demo_regs 1 = 0xFEBF0440" "portsc_at demo_regs 3 = 0xFEBF0460" by (simp_all add: portsc_at_def demo_regs_def)
  then show "portsc_at demo_regs p = 0xFEBF0440 \<longleftrightarrow> p = 1" "portsc_at demo_regs p = 0xFEBF0460 \<longleftrightarrow> p = 3"
    using portsc_at_inj [of demo_regs p] by metis+
qed

theorem initialise_ports_counts_witness:
  "\<exists>c s' t sc v. initialise_ports port_env demo_controller \<lparr>trace = []\<rparr> = Ret c s' \<and> trace s' = t \<and> unat c = 2 \<and>
     mmio_writes t = [MWrite32 0xFEBF0440 (sc OR PP OR PR), MWrite32 0xFEBF0440 (v OR PRC)]"
proof -
  have f: "fuel port_env = 1" "uart_drains port_env 0" "window_ok (regs demo_controller)"
      "regs demo_controller = demo_regs" "ctrl_max_ports demo_controller = 8"
    using demo_regs_ok by (simp_all add: port_env_def ready_env_def uart_drains_def thr_empty_def demo_controller_def)
  have resp: "ports_respond port_env (regs demo_controller) (\<lambda>p. p = 1 \<or> p = 3) 0"
      "ports_enabled port_env (regs demo_controller) (\<lambda>p. p = 3)"
    by (auto simp: ports_respond_def ports_enabled_def port_env_def settles_def f(4) demo_ports PRC_def CCS_def PED_def)
  have "{p :: u8. (1 \<le> p \<and> p \<le> 8) \<and> (p = 1 \<or> p = 3)} = {1, 3}" by auto
  then have two: "card {p :: u8. (1 \<le> p \<and> p \<le> 8) \<and> (p = 1 \<or> p = 3)} = 2" by simp
  from initialise_ports_counts [OF f(2) _ f(3) resp(1) _ resp(2), of "\<lparr>trace = []\<rparr>"] f(1)
  obtain c s' t g where r: "initialise_ports port_env demo_controller \<lparr>trace = []\<rparr> = Ret c s'" "trace s' = t"
      "unat c = card {p :: u8 \<in> {p. 1 \<le> p \<and> p \<le> 8}. p = 1 \<or> p = 3}" "mmio_writes t = concat (map g (map word_of_nat [1..<unat (8 :: u8) + 1]))"
      "\<forall>p\<in>{p. 1 \<le> p \<and> p \<le> 8}. if (p = 1 \<or> p = 3) \<and> p \<noteq> 3 then \<exists>sc v. g p =
         [MWrite32 (portsc_at demo_regs p) (sc OR PP OR PR), MWrite32 (portsc_at demo_regs p) (v OR PRC)] else g p = []"
    unfolding f(4,5) by auto
  have "g 2 = []" "g 3 = []" "g 4 = []" "g 5 = []" "g 6 = []" "g 7 = []" "g 8 = []" using r(5) by simp_all
  then have "mmio_writes t = g 1" unfolding r(4) by (simp add: upt_rec)
  moreover have "\<exists>sc v. g 1 = [MWrite32 0xFEBF0440 (sc OR PP OR PR), MWrite32 0xFEBF0440 (v OR PRC)]"
    using bspec [OF r(5), of 1] demo_ports(1) [of 1] by simp
  ultimately show ?thesis using r(1-3) two by auto
qed

text \<open>
  A write to PORTSC as the specification defines it (section 5.4.8): the enabled bit and the
  change bits 17 to 23 are cleared by writing 1 to them. The bits of these fields that are left after
  a write of \<open>v\<close> to a port that reads \<open>sc\<close>:
\<close>

definition portsc_rw1c :: u32 where
  "portsc_rw1c = PED OR push_bit 17 0x7F"

definition portsc_left :: "u32 \<Rightarrow> u32 \<Rightarrow> u32" where
  "portsc_left sc v = sc AND NOT v AND portsc_rw1c"

text \<open>
  C35. The acknowledgement of a port reset writes back what PORTSC read, with the reset change
  bit: the controller clears the change bit, but also the enabled bit that the reset has just
  set, and every other change bit.
\<close>

theorem reset_ack_disables_port:
  fixes E :: env and s :: "'z machine_scheme" and R :: registers and p :: u8
  assumes "window_ok R" and "p \<noteq> 0"
  defines "sc \<equiv> mmio32 E (trace s) (portsc_at R p)"
  assumes "sc AND PRC \<noteq> 0"
  shows "\<exists>v. reset_wait (Suc n) E R p s =
      Ret () (s\<lparr>trace := trace s @ [MRead32 (portsc_at R p) sc, MWrite32 (portsc_at R p) v]\<rparr>) \<and>
    portsc_left sc v = 0"
proof (intro exI conjI)
  show "reset_wait (Suc n) E R p s =
      Ret () (s\<lparr>trace := trace s @ [MRead32 (portsc_at R p) sc, MWrite32 (portsc_at R p) (sc OR PRC)]\<rparr>)"
    using reset_wait_run [OF assms(1,2), of 0 "Suc n" E s] assms(4) by (simp add: sc_def Let_def)
  show "portsc_left sc (sc OR PRC) = 0"
    unfolding portsc_left_def by (rule bit_word_eqI) (auto simp: bit_simps)
qed

theorem reset_ack_disables_port_witness:
  "\<exists>v s'. reset_wait 1 (ready_env\<lparr>mmio32 := \<lambda>_ _. 0x00200603\<rparr>) demo_regs 1 \<lparr>trace = []\<rparr> = Ret () s' \<and>
     0x00200603 AND PED \<noteq> 0 \<and> portsc_left 0x00200603 v = 0 \<and> last (trace s') = MWrite32 (portsc_at demo_regs 1) v"
proof -
  let ?E = "ready_env\<lparr>mmio32 := \<lambda>_ _. 0x00200603\<rparr>"
  have "mmio32 ?E (trace \<lparr>trace = []\<rparr>) (portsc_at demo_regs 1) AND PRC \<noteq> 0" by (simp add: PRC_def)
  from reset_ack_disables_port [OF demo_regs_ok _ this, of 0] show ?thesis by (auto simp: PED_def)
qed

end
