(* ===== verification/Boot.thy ===== *)
theory Boot
  imports Console Allocator Render Pci Gdt Xhci
begin

text \<open>
  \<^verbatim>\<open>kernel/src/main.rs\<close>: the entry point, which brings the components up in order, and the
  panic handler. The boot information comes from the bootloader; the crates are parameters,
  collected in one record. Allocations that \<open>Box\<close> and \<open>Vec\<close> make for themselves are not
  recorded and are taken to succeed; only those the driver makes for the controller are events.
\<close>

section \<open>Parameters\<close>

text \<open>
  The framebuffer itself is the component \<open>fb\<close> of the state; \<open>has_framebuffer\<close> says whether the
  bootloader provided it.
\<close>

record boot_info =
  has_framebuffer :: bool
  physical_memory_offset :: "u64 option"
  boot_memory_regions :: "memory_region list"

text \<open>
  The crates and what the linker decides: \<open>offset_page_table\<close> is the crate's constructor,
  \<open>tables\<close> how the processor sees the tables that a mapper has edited.
\<close>

record 'm platform =
  x86 :: x86_crate
  gdt_api :: gdt_crate
  paging_api :: "('m, frame_allocator) mapper_ops"
  boot_mmu :: mmu
  offset_page_table :: "u64 \<Rightarrow> u64 \<Rightarrow> 'm"
  tables :: "'m \<Rightarrow> mmu"
  stack_addr :: u64
  tss_addr :: u64

section \<open>Helpers\<close>

text \<open>A program on variables local to \<open>kernel_main\<close>.\<close>

definition run_local :: "('a, 'l) prog \<Rightarrow> 'l \<Rightarrow> ('a \<times> 'l, 's) prog" where
  "run_local m l = (\<lambda>s. case m l of
     Ret x l' \<Rightarrow> Ret (x, l') s
   | Panic p l' \<Rightarrow> Panic p s
   | Hang l' \<Rightarrow> Hang s)"

definition EM_DASH :: string where
  "EM_DASH = [CHR 0xE2, CHR 0x80, CHR 0x94]"

definition memory_init :: "'m platform \<Rightarrow> u64 \<Rightarrow> ('m, 's) prog" where
  "memory_init P phys_offset =
     bind (active_level_4_table (x86 P) (boot_mmu P) phys_offset) (\<lambda>t.
     return (offset_page_table P t phys_offset))"

text \<open>\<open>int3\<close> raises vector 3, which the processor delivers.\<close>

definition int3 :: "env \<Rightarrow> (unit, 'z kernel_scheme) prog" where
  "int3 E = seq (emit (Cpu Int3)) (deliver E 3)"

section \<open>The stages of \<open>kernel_main\<close>\<close>

definition boot_banner :: "env \<Rightarrow> (unit, 'z machine_scheme) prog" where
  "boot_banner E = run_all [
     serial_init,
     serial_println E '''',
     serial_println E ''punk.science // punkos'',
     serial_println E ''build dots loading  [* * *]'',
     serial_println E ''[ ok ] kernel reached long mode and the entry point'']"

definition boot_screen :: "env \<Rightarrow> boot_info \<Rightarrow> (unit, screen) prog" where
  "boot_screen E B =
     (if has_framebuffer B then
        seq (on_fb (clear_framebuffer HARDCORE_BLACK))
        (\<lambda>s. serial_println E (''[ ok ] framebuffer cleared to Hardcore Black: '' @ fmt_dec (width (info (fb s))) @
          ''x'' @ fmt_dec (height (info (fb s))) @ '' '' @ debug_text E (trace s) ''pixel_format'') s)
      else serial_println E ''[!!] no framebuffer provided by bootloader'')"

definition boot_tables :: "env \<Rightarrow> 'm platform \<Rightarrow> (unit, 'z kernel_scheme) prog" where
  "boot_tables E P = run_all [
     gdt_init (x86 P) (gdt_api P) (stack_addr P) (tss_addr P),
     init_idt,
     serial_println E ''[ ok ] GDT + IDT installed'',
     int3 E,
     serial_println E ''[ ok ] returned from breakpoint exception'']"

definition boot_memory :: "env \<Rightarrow> 'm platform \<Rightarrow> boot_info \<Rightarrow> (u64 \<times> ('m, frame_allocator) paging, 'z machine_scheme) prog" where
  "boot_memory E P B =
     bind (expect (physical_memory_offset B) ''bootloader did not map physical memory'') (\<lambda>offset.
     bind (expect (virt_new (x86 P) offset) ''VirtAddr::new'') (\<lambda>phys_offset.
     bind (memory_init P phys_offset) (\<lambda>mapper0.
     bind (run_local (skip_below (x86 P) 0x200000) (frame_allocator_init (boot_memory_regions B))) (\<lambda>(_, frames0).
     bind (run_local (init_heap (x86 P) (paging_api P) (allocate_frame (x86 P)))
            \<lparr>mapper = mapper0, falloc = frames0, heap_region = None\<rparr>) (\<lambda>(r, paging1).
     bind (case r of Inl e \<Rightarrow> fail (ExpectFailed ''heap initialisation failed'') | Inr _ \<Rightarrow> return ()) (\<lambda>_.
     seq (serial_println E (''[ ok ] paging + '' @ fmt_dec (HEAP_SIZE div 1024) @ '' KiB heap online''))
     (return (phys_offset, paging1))))))))"

text \<open>A boxed number, a vector of 500 numbers and their sum.\<close>

definition sum_u64 :: "u64 list \<Rightarrow> (u64, 's) prog" where
  "sum_u64 v = for_fold v (\<lambda>x acc. u64_add acc x) 0"

definition boot_heap_check :: "env \<Rightarrow> (unit, 'z machine_scheme) prog" where
  "boot_heap_check E =
     (let boxed = (0xDEADBEEF :: u64) in
      bind (for_fold (map word_of_nat [0..<500]) (\<lambda>i v. return (v @ [i])) []) (\<lambda>v.
      bind (sum_u64 v) (\<lambda>total.
      seq (serial_println E (''[ ok ] heap works: box='' @ fmt_hex_alt (unat boxed) @ '', sum(0..500)='' @ fmt_dec (unat total)))
      (serial_println E (''[ ok ] M2 complete '' @ EM_DASH @ '' memory management online'')))))"

primrec wait_ticks :: "nat \<Rightarrow> env \<Rightarrow> u64 \<Rightarrow> (unit, 'z kernel_scheme) prog" where
  "wait_ticks 0 E n = (\<lambda>s. Hang s)"
| "wait_ticks (Suc m) E n = bind ticks (\<lambda>t. if t < n then seq (hlt E) (wait_ticks m E n) else return ())"

definition boot_timer :: "env \<Rightarrow> (unit, 'z kernel_scheme) prog" where
  "boot_timer E =
     seq interrupts_init
     (seq (serial_println E ''[ ok ] PIC + PIT up, interrupts enabled (~100 Hz)'')
     (seq (wait_ticks (fuel E) E 10)
     (bind ticks (\<lambda>t. serial_println E (''[ ok ] M3 complete '' @ EM_DASH @ '' timer ticking: '' @ fmt_dec (unat t) @ '' ticks'')))))"

definition log_device :: "env \<Rightarrow> pci_device \<Rightarrow> (unit, 'z machine_scheme) prog" where
  "log_device E d = serial_println E (''  '' @ fmt_hex_width 2 (unat (cfg_bus (dev_config d))) @ '':'' @
     fmt_hex_width 2 (unat (cfg_device (dev_config d))) @ ''.'' @ fmt_dec (unat (cfg_function (dev_config d))) @
     ''  vendor='' @ fmt_hex_width 4 (unat (dev_vendor d)) @ '' device='' @ fmt_hex_width 4 (unat (dev_device d)) @
     ''  class='' @ fmt_hex_width 2 (unat (dev_class d)) @ ''.'' @ fmt_hex_width 2 (unat (dev_subclass d)) @ ''.'' @
     fmt_hex_width 2 (unat (dev_prog_if d)) @ '' ('' @ class_name (dev_class d) (dev_subclass d) @ '')'')"

definition boot_pci :: "env \<Rightarrow> (pci_device list, 'z machine_scheme) prog" where
  "boot_pci E =
     seq (serial_println E ''[ ok ] M6a PCI bus scan  [* * *]'')
     (bind (enumerate_pci E) (\<lambda>devices.
     seq (serial_println E (''[ ok ] '' @ fmt_dec (length devices) @ '' PCI device(s) found:''))
     (seq (for_each devices (log_device E))
     (return devices))))"

text \<open>
  At the end of its scope the controller is dropped: the boxes it owns are freed, in the order
  of its fields, with the layout of their contents.
\<close>

definition drop_controller :: "controller \<Rightarrow> (unit, 'z machine_scheme) prog" where
  "drop_controller C = run_all [
     emit (Dealloc (trbs_ptr (cmd_ring C)) (trbs_len (cmd_ring C) * 16) 16),
     emit (Dealloc (trbs_ptr (event_ring C)) (trbs_len (event_ring C) * 16) 16),
     emit (Dealloc (ptrs_ptr (ctrl_dcbaa C)) (ptrs_len (ctrl_dcbaa C) * 8) 8)]"

definition xhci_session :: "env \<Rightarrow> x86_crate \<Rightarrow> mmu \<Rightarrow> u64 \<Rightarrow> u64 \<Rightarrow> (unit, 'z machine_scheme) prog" where
  "xhci_session E X M mmio phys_offset =
     seq (serial_println E ''[ ok ] M6b xHCI init  [* * *]'')
     (bind (controller_init E X M mmio phys_offset) (\<lambda>ctrl.
     bind (noop E ctrl) (\<lambda>(_, ctrl).
     bind (initialise_ports E ctrl) (\<lambda>connected.
     seq (serial_println E (''[xhci] '' @ fmt_dec (unat connected) @ '' port(s) with device attached''))
     (seq (serial_println E ''[ ok ] M6b complete'')
     (drop_controller ctrl))))))"

definition log_bar :: "env \<Rightarrow> nat \<times> bar option \<Rightarrow> (unit, 'z machine_scheme) prog" where
  "log_bar E = (\<lambda>(i, b). case Option.bind b memory_base of
     Some addr \<Rightarrow> serial_println E (''  BAR'' @ fmt_dec i @ '' mmio base = '' @ fmt_hex_alt (unat addr))
   | None \<Rightarrow> return ())"

text \<open>The loop over the controllers, left by \<open>break\<close> after the first one that has a memory BAR0.\<close>

primrec xhci_loop :: "env \<Rightarrow> x86_crate \<Rightarrow> mmu \<Rightarrow> u64 \<Rightarrow> pci_device list \<Rightarrow> (unit, 'z machine_scheme) prog" where
  "xhci_loop E X M phys_offset [] = return ()"
| "xhci_loop E X M phys_offset (xd # rest) =
     seq (serial_println E (''[ ok ] xHCI at '' @ fmt_hex_width 2 (unat (cfg_bus (dev_config xd))) @ '':'' @
       fmt_hex_width 2 (unat (cfg_device (dev_config xd))) @ ''.'' @ fmt_dec (unat (cfg_function (dev_config xd))) @
       '' vendor='' @ fmt_hex_width 4 (unat (dev_vendor xd)) @ '' device='' @ fmt_hex_width 4 (unat (dev_device xd))))
     (seq (for_each (enumerate 0 (dev_bars xd)) (log_bar E))
     (case Option.bind (dev_bars xd ! 0) memory_base of
        Some mmio \<Rightarrow> xhci_session E X M mmio phys_offset
      | None \<Rightarrow> xhci_loop E X M phys_offset rest))"

definition boot_usb :: "env \<Rightarrow> x86_crate \<Rightarrow> mmu \<Rightarrow> u64 \<Rightarrow> pci_device list \<Rightarrow> (unit, 'z machine_scheme) prog" where
  "boot_usb E X M phys_offset devices =
     seq (let xhci_devs = find_xhci devices in
          if xhci_devs = [] then
            serial_println E (''[!!] no xHCI controller found '' @ EM_DASH @ '' is qemu-xhci attached?'')
          else xhci_loop E X M phys_offset xhci_devs)
     (serial_println E ''[ ok ] M6a complete'')"

definition boot_keyboard :: "env \<Rightarrow> (unit, 'z kernel_scheme) prog" where
  "boot_keyboard E =
     seq init_keyboard
     (seq (serial_println E ''[ ok ] keyboard IRQ1 handler registered'')
     (seq (serial_print E ([CHR 0x0A] @ ''> ''))
     (bind (read_line E) (\<lambda>line.
     seq (serial_println E '''')
     (seq (serial_println E (''[ ok ] you typed: '' @ line))
     (serial_println E (''[ ok ] M5 complete '' @ EM_DASH @ '' keyboard working'')))))))"

text \<open>\<open>n\<close> bounds the passes of the last loop, the animation or \<open>hcf\<close>, that are observed.\<close>

definition boot_render :: "env \<Rightarrow> boot_info \<Rightarrow> nat \<Rightarrow> (unit, screen) prog" where
  "boot_render E B n =
     seq (serial_println E ''[ ok ] M4 rendering acid build-bubbles  [* * *]'')
     (if has_framebuffer B then render_run E n
      else seq (serial_println E ''[!!] no framebuffer to render into'') (hcf n E))"

definition kernel_main :: "env \<Rightarrow> 'm platform \<Rightarrow> boot_info \<Rightarrow> nat \<Rightarrow> (unit, screen) prog" where
  "kernel_main E P B n =
     seq (boot_banner E)
     (seq (boot_screen E B)
     (seq (boot_tables E P)
     (bind (boot_memory E P B) (\<lambda>(phys_offset, pg).
     seq (boot_heap_check E)
     (seq (boot_timer E)
     (bind (boot_pci E) (\<lambda>devices.
     seq (boot_usb E (x86 P) (tables P (mapper pg)) phys_offset devices)
     (seq (boot_keyboard E)
     (boot_render E B n)))))))))"

text \<open>
  The panic handler, and the entry point with panics handled by it. A panic of an exception
  handler is handled with interrupts off.
\<close>

definition panic_handler :: "env \<Rightarrow> nat \<Rightarrow> panic \<Rightarrow> ('a, 'z kernel_scheme) prog" where
  "panic_handler E n p = (\<lambda>s.
     seq (serial_println E (''[!!] panic: '' @ debug_text E (trace s) ''info''))
     (case p of FaultPanic m \<Rightarrow> hcf_masked | _ \<Rightarrow> hcf n E) s)"

definition kernel_entry :: "env \<Rightarrow> 'm platform \<Rightarrow> boot_info \<Rightarrow> nat \<Rightarrow> (unit, screen) prog" where
  "kernel_entry E P B n = (\<lambda>s. case kernel_main E P B n s of
     Panic p s' \<Rightarrow> panic_handler E n p s'
   | r \<Rightarrow> r)"

text \<open>
  The configuration linked into the kernel. \<open>bootloader_api\<close> supplies the default; the record is
  extensible because only the mapping of the physical memory is named by the sources. The
  bootloader reads it and calls the entry point with what it has set up.
\<close>

datatype mapping_request = Dynamic | FixedAddress u64

record bootloader_config =
  physical_memory :: "mapping_request option"

definition CONFIG :: "'c bootloader_config_scheme \<Rightarrow> 'c bootloader_config_scheme" where
  "CONFIG new_default = new_default\<lparr>physical_memory := Some Dynamic\<rparr>"

definition entry_point :: "env \<Rightarrow> 'm platform \<Rightarrow> ('c bootloader_config_scheme \<Rightarrow> boot_info) \<Rightarrow>
    'c bootloader_config_scheme \<Rightarrow> nat \<Rightarrow> (unit, screen) prog" where
  "entry_point E P load new_default n = kernel_entry E P (load (CONFIG new_default)) n"

text \<open>
  With a bootloader that reports the offset of a mapping it was asked for, the \<open>expect\<close> of the
  memory stage is met: the entry point then fails there only for another reason.
\<close>

definition maps_as_asked :: "('c bootloader_config_scheme \<Rightarrow> boot_info) \<Rightarrow> bool" where
  "maps_as_asked load \<longleftrightarrow> (\<forall>c. physical_memory_offset (load c) = None \<longleftrightarrow> physical_memory c = None)"

lemma configured_memory_map:
  assumes "maps_as_asked load"
  shows "\<exists>po. expect (physical_memory_offset (load (CONFIG new_default))) e s = Ret po s"
proof -
  obtain po where "physical_memory_offset (load (CONFIG new_default)) = Some po"
    using assms by (fastforce simp: maps_as_asked_def CONFIG_def)
  then show ?thesis by (simp add: run_simps)
qed

section \<open>The entry point never returns\<close>

text \<open>Programs of type \<open>!\<close>.\<close>

definition diverges :: "('a, 's) prog \<Rightarrow> bool" where
  "diverges m \<longleftrightarrow> (\<forall>s x s'. m s \<noteq> Ret x s')"

lemma divergesD: "diverges m \<Longrightarrow> m s \<noteq> Ret x s'"
  by (simp add: diverges_def)

lemma diverges_bind: "(\<And>x. diverges (f x)) \<Longrightarrow> diverges (bind m f)"
  by (simp add: diverges_def run_simps split: outcome.splits)

lemma diverges_seq: "diverges k \<Longrightarrow> diverges (seq m k)"
  unfolding seq_def by (rule diverges_bind)

lemma diverges_hcf: "diverges (hcf n E)"
proof (induction n)
  case (Suc n)
  then show ?case unfolding hcf.simps by (rule diverges_seq)
qed (simp add: diverges_def)

lemma diverges_render_loop: "diverges (render_loop n E l a b)"
proof (induction n)
  case (Suc n)
  then show ?case unfolding render_loop.simps by (rule diverges_seq)
qed (simp add: diverges_def)

lemma diverges_render_run: "diverges (render_run E n)"
  unfolding render_run_def by (rule diverges_bind) (auto simp: diverges_render_loop split: prod.splits)

lemma diverges_kernel_main: "diverges (kernel_main E P B n)"
  unfolding kernel_main_def boot_render_def
  by (intro diverges_seq diverges_bind) (auto simp: diverges_render_run diverges_hcf intro!: diverges_seq diverges_bind)

section \<open>The timer stage\<close>

text \<open>Every halt is ended by timer or keyboard interrupts, at most \<open>b\<close>, at least one of them from the timer.\<close>

definition timer_live :: "env \<Rightarrow> nat \<Rightarrow> bool" where
  "timer_live E b \<longleftrightarrow> irqs_bounded E b \<and> b < 2 ^ 63 \<and> (\<forall>t. as_u8 Timer \<in> set (irqs E t))"

lemma hlt_ticks:
  fixes s :: "'z kernel_scheme"
  assumes "kernel_ok s" and "interrupts_on s" and "timer_live E b"
  shows "\<exists>s' k. hlt E s = Ret () s' \<and> kernel_ok s' \<and> kernel.more s' = kernel.more s \<and>
    ring_cap (BUF s') = ring_cap (BUF s) \<and> hlts (trace s') = Suc (hlts (trace s)) \<and>
    TICKS s' = TICKS s + of_nat k \<and> 0 < k \<and> k < 2 ^ 63 \<and> (\<exists>u. trace s' = trace s @ u)"
proof -
  let ?vs = "irqs E (trace s @ [Cpu Hlt])"
  have vs: "list_all irq_vector ?vs" "length ?vs \<le> b" "as_u8 Timer \<in> set ?vs"
    using assms(3) by (auto simp: timer_live_def irqs_bounded_def)
  let ?k = "length (filter (\<lambda>v. v = as_u8 Timer) ?vs)"
  obtain s' where s': "hlt E s = Ret () s'" "kernel_ok s'" "kernel.more s' = kernel.more s"
      "hlts (trace s') = Suc (hlts (trace s))"
    using hlt_keeps [OF assms(1,2) vs(1)] by blast
  have "TICKS s' = TICKS s + of_nat ?k" "ring_cap (BUF s') = ring_cap (BUF s)" "\<exists>u. trace s' = trace s @ u"
    using serve_irqs [of "s\<lparr>trace := trace s @ [Cpu Hlt]\<rparr>" ?vs E] assms(1) vs(1) s'(1)
    unfolding hlt_on [OF assms(2)] by auto
  moreover have "0 < ?k" using vs(3) by (auto simp: filter_empty_conv)
  moreover have "?k < 2 ^ 63"
    using length_filter_le [of "\<lambda>v. v = as_u8 Timer" ?vs] vs(2) assms(3) unfolding timer_live_def by linarith
  ultimately show ?thesis using s' by blast
qed

lemma wait_ticks_run:
  fixes s :: "'z kernel_scheme"
  assumes "timer_live E b"
  shows "\<lbrakk>kernel_ok s; interrupts_on s; 10 - unat (TICKS s) < m\<rbrakk> \<Longrightarrow>
    \<exists>s'. wait_ticks m E 10 s = Ret () s' \<and> kernel_ok s' \<and> kernel.more s' = kernel.more s \<and>
      ring_cap (BUF s') = ring_cap (BUF s) \<and> 10 \<le> TICKS s' \<and> hlts (trace s') \<le> hlts (trace s) + (10 - unat (TICKS s)) \<and>
      (\<exists>u. trace s' = trace s @ u)"
proof (induction m arbitrary: s)
  case (Suc m)
  show ?case
  proof (cases "TICKS s < 10")
    case False
    then show ?thesis using Suc.prems(1) by (intro exI [of _ s]) (simp add: ticks_def run_simps)
  next
    case True
    then have lt: "unat (TICKS s) < 10" by (simp add: word_less_nat_alt)
    obtain s1 k where s1: "hlt E s = Ret () s1" "kernel_ok s1" "kernel.more s1 = kernel.more s"
        "ring_cap (BUF s1) = ring_cap (BUF s)" "hlts (trace s1) = Suc (hlts (trace s))"
        "TICKS s1 = TICKS s + of_nat k" "0 < k" "k < 2 ^ 63" "\<exists>u. trace s1 = trace s @ u"
      using hlt_ticks [OF Suc.prems(1,2) assms] by blast
    have "unat (TICKS s1) = unat (TICKS s) + k"
      unfolding s1(6) using lt s1(8) by (simp add: unat_word_ariths unat_of_nat)
    with lt s1(7) have step: "Suc (10 - unat (TICKS s1)) \<le> 10 - unat (TICKS s)" by simp
    then have "10 - unat (TICKS s1) < m" using Suc.prems(3) by linarith
    moreover have "interrupts_on s1" using s1(9) Suc.prems(2) by auto
    ultimately obtain s' where s': "wait_ticks m E 10 s1 = Ret () s'" "kernel_ok s'"
        "kernel.more s' = kernel.more s1" "ring_cap (BUF s') = ring_cap (BUF s1)" "10 \<le> TICKS s'"
        "hlts (trace s') \<le> hlts (trace s1) + (10 - unat (TICKS s1))" "\<exists>u. trace s' = trace s1 @ u"
      using Suc.IH [OF s1(2)] by blast
    have "wait_ticks (Suc m) E 10 s = Ret () s'"
      using True s1(1) s'(1) by (simp add: ticks_def run_simps)
    then show ?thesis using s' s1 step by auto
  qed
qed simp

lemma println_run:
  assumes "uart_drains E n" and "n < fuel E"
  obtains t where "serial_println E m s = Ret () (s\<lparr>trace := trace s @ t\<rparr>)" "uart_only t"
    "uart_out t = bytes (m @ [CHR 0x0A])"
  using serial_print_run [OF assms] unfolding serial_println_def by blast

lemma interrupts_init_run:
  "\<not> PICS_locked s \<Longrightarrow> \<exists>t. interrupts_init s = Ret () (s\<lparr>trace := trace s @ t\<rparr>) \<and> hlts t = 0 \<and> Cpu Sti \<in> set t"
  by (simp add: interrupts_init_def run_simps with_PICS_run init_pit_def Let_def access_defs)
    (intro exI conjI, rule refl, simp_all add: hlts_def)

lemma boot_timer_run:
  fixes s :: "'z kernel_scheme"
  assumes "kernel_ok s" and "uart_drains E n" and "n < fuel E" and "timer_live E b" and "10 < fuel E"
  shows "\<exists>s'. boot_timer E s = Ret () s' \<and> kernel_ok s' \<and> 10 \<le> TICKS s' \<and>
    hlts (trace s') \<le> hlts (trace s) + 10 \<and> kernel.more s' = kernel.more s \<and> ring_cap (BUF s') = ring_cap (BUF s) \<and>
    interrupts_on s'"
proof -
  have free: "\<not> PICS_locked s" using assms(1) by (simp add: kernel_ok_def)
  obtain t where t: "interrupts_init s = Ret () (s\<lparr>trace := trace s @ t\<rparr>)" "hlts t = 0" "Cpu Sti \<in> set t"
    using interrupts_init_run [OF free] by blast
  let ?s1 = "s\<lparr>trace := trace s @ t\<rparr>"
  obtain u where u: "serial_println E ''[ ok ] PIC + PIT up, interrupts enabled (~100 Hz)'' ?s1 =
      Ret () (?s1\<lparr>trace := trace ?s1 @ u\<rparr>)" "uart_only u"
    using println_run [OF assms(2,3)] by metis
  let ?s2 = "?s1\<lparr>trace := trace ?s1 @ u\<rparr>"
  have "kernel_ok ?s2" "interrupts_on ?s2" "10 - unat (TICKS ?s2) < fuel E" using assms(1,5) t(3) by simp_all
  from wait_ticks_run [OF assms(4) this] obtain s3 where s3: "wait_ticks (fuel E) E 10 ?s2 = Ret () s3" "kernel_ok s3"
      "kernel.more s3 = kernel.more ?s2" "ring_cap (BUF s3) = ring_cap (BUF ?s2)" "10 \<le> TICKS s3"
      "hlts (trace s3) \<le> hlts (trace ?s2) + (10 - unat (TICKS ?s2))" "\<exists>u. trace s3 = trace ?s2 @ u" by blast
  let ?msg = "''[ ok ] M3 complete '' @ EM_DASH @ '' timer ticking: '' @ fmt_dec (unat (TICKS s3)) @ '' ticks''"
  obtain w where w: "serial_println E ?msg s3 = Ret () (s3\<lparr>trace := trace s3 @ w\<rparr>)" "uart_only w"
    using println_run [OF assms(2,3)] by metis
  let ?s4 = "s3\<lparr>trace := trace s3 @ w\<rparr>"
  have "boot_timer E s = Ret () ?s4"
    unfolding boot_timer_def seq_run bind_run ticks_def t(1) outcome.case u(1) s3(1) w(1) ..
  moreover have "hlts (trace ?s4) \<le> hlts (trace s) + 10" using s3(6) hlts_uart [OF u(2)] hlts_uart [OF w(2)] t(2) by simp
  moreover have "kernel.more ?s4 = kernel.more s" "ring_cap (BUF ?s4) = ring_cap (BUF s)" "interrupts_on ?s4"
    using s3(3,4,7) t(3) by auto
  ultimately show ?thesis using s3 by auto
qed

text \<open>
  C11. The timer stage. If every halt is ended by at least one timer interrupt, the stage that
  programs the timer and waits for ten ticks returns after at most ten halts, with at least ten
  ticks counted, interrupts enabled and everything outside the interrupt state unchanged.
\<close>

theorem boot_timer_live:
  fixes s :: "'z kernel_scheme"
  assumes "kernel_ok s" and "uart_drains E n" and "n < fuel E" and "timer_live E b" and "10 < fuel E"
  shows "\<exists>s'. boot_timer E s = Ret () s' \<and> kernel_ok s' \<and> 10 \<le> TICKS s' \<and>
    hlts (trace s') \<le> hlts (trace s) + 10 \<and> kernel.more s' = kernel.more s \<and> ring_cap (BUF s') = ring_cap (BUF s) \<and>
    interrupts_on s'"
  using assms by (rule boot_timer_run)

definition ticking_env :: env where
  "ticking_env = ready_env\<lparr>fuel := 20, irqs := \<lambda>_. [32]\<rparr>"

theorem boot_timer_live_witness:
  "\<exists>s'. boot_timer ticking_env kernel_start = Ret () s' \<and> 10 \<le> TICKS s' \<and> hlts (trace s') \<le> 10"
proof -
  have uart: "uart_drains ticking_env 0" "0 < fuel ticking_env" "10 < fuel ticking_env"
    by (simp_all add: uart_drains_def thr_empty_def ticking_env_def ready_env_def)
  have live: "timer_live ticking_env 1"
    by (simp add: timer_live_def irqs_bounded_def ticking_env_def irq_vector_def as_u8.simps PIC_1_OFFSET_def)
  have "hlts (trace kernel_start) = 0" by (simp add: kernel_start_def hlts_def)
  with boot_timer_live [OF kernel_start_ok uart(1,2) live uart(3)] show ?thesis by auto
qed

section \<open>The USB stage\<close>

text \<open>Writes to other registers than the command register change neither it nor a register of the controller they do not name.\<close>

definition writes_elsewhere :: "registers \<Rightarrow> u64 set \<Rightarrow> bus_event list \<Rightarrow> bool" where
  "writes_elsewhere R A w \<longleftrightarrow> (\<forall>e\<in>set w. \<exists>a v. e = MWrite32 a v \<and> a \<noteq> op_base R \<and> a \<notin> A)"

lemma written_elsewhere: "writes_elsewhere R A w \<Longrightarrow> x \<in> A \<Longrightarrow> written (fold (xhci_step R) w d) x = written d x"
  by (induction w arbitrary: d) (auto simp: writes_elsewhere_def)

lemma last_cmd_elsewhere: "writes_elsewhere R A w \<Longrightarrow> last_cmd (op_base R) (w' @ w) = last_cmd (op_base R) w'"
  by (induction w rule: rev_induct) (auto simp: writes_elsewhere_def last_cmd_def append_assoc [symmetric] simp del: append_assoc)

lemma last_cmd_writes: "last_cmd a (mmio_writes t) = last_cmd a t"
proof -
  let ?f = "\<lambda>e r. case e of MWrite32 b v \<Rightarrow> if b = a then Some v else r | _ \<Rightarrow> r"
  have "fold ?f (mmio_writes t) r = fold ?f t r" for r
  proof (induction t arbitrary: r)
    case (Cons e t)
    then show ?case by (cases e) auto
  qed simp
  then show ?thesis by (simp add: last_cmd_def)
qed

text \<open>The doorbells lie above the operational registers.\<close>

definition doorbells_above :: "env \<Rightarrow> registers \<Rightarrow> bool" where
  "doorbells_above E R \<longleftrightarrow> unat (base R) + 2 ^ 32 \<le> 2 ^ 64 \<and>
     (\<forall>t. unat (op_offset R) + 0x40 \<le> unat (mmio32 E t (base R + 0x14) AND NOT 3))"

lemma unat_op_base: "window_ok R \<Longrightarrow> unat x < 0x1400 \<Longrightarrow> unat (op_base R + x) = unat (base R) + unat (op_offset R) + unat x"
proof -
  assume w: "window_ok R" "unat x < 0x1400"
  then have "unat (op_base R) = unat (base R) + unat (op_offset R)"
    unfolding op_base_def by (intro unat_add_fits) (simp add: window_ok_def)
  with w show ?thesis by (subst unat_add_fits) (simp_all add: window_ok_def)
qed

lemma portsc_elsewhere:
  assumes "window_ok R" and "p \<noteq> 0" and "unat x < 0x40"
  shows "portsc_at R p \<noteq> op_base R + x"
  using portsc_at_unat [OF assms(1,2)] unat_op_base [OF assms(1), of x] assms(3) by (auto simp: word_unat_eq_iff)

lemma doorbell_elsewhere:
  assumes "window_ok R" and "doorbells_above E R" and "unat x < 0x40"
  shows "base R + ucast (mmio32 E t (base R + 0x14) AND NOT 3) \<noteq> op_base R + x"
proof -
  define v where "v = mmio32 E t (base R + 0x14) AND NOT 3"
  have v: "unat (base R) + 2 ^ 32 \<le> 2 ^ 64" "unat (op_offset R) + 0x40 \<le> unat v" "unat v < 2 ^ 32"
    using assms(2) unsigned_less [of v, where ?'a = nat] by (simp_all only: doorbells_above_def v_def) simp
  then have u: "unat (ucast v :: u64) = unat v" by (simp add: unat_ucast)
  have "unat (base R + ucast v) = unat (base R) + unat v"
    using u v by (subst unat_add_fits) simp_all
  with v unat_op_base [OF assms(1), of x] assms(3) show ?thesis
    unfolding v_def [symmetric] by (auto simp: word_unat_eq_iff)
qed

abbreviation CRCR_regs :: "registers \<Rightarrow> u64 set" where
  "CRCR_regs R \<equiv> {op_base R + 0x18, op_base R + 0x1c}"

lemma session_writes_elsewhere:
  assumes "window_ok R" and "doorbells_above E R" and "\<exists>t. v = mmio32 E t (base R + 0x14)"
    and "\<forall>e\<in>set w. \<exists>p v. p \<noteq> 0 \<and> e = MWrite32 (portsc_at R p) v"
  shows "writes_elsewhere R (CRCR_regs R) (MWrite32 (base R + ucast (v AND NOT 3)) 0 # w)"
proof -
  have "base R + ucast (v AND NOT 3) \<noteq> op_base R + y" if "unat y < 0x40" for y
    using doorbell_elsewhere [OF assms(1,2) that] assms(3) by metis
  from this [of 0] this [of "0x18"] this [of "0x1c"]
  have db: "writes_elsewhere R (CRCR_regs R) [MWrite32 (base R + ucast (v AND NOT 3)) 0]"
    by (simp add: writes_elsewhere_def)
  have "portsc_at R p \<noteq> op_base R \<and> portsc_at R p \<noteq> op_base R + 0x18 \<and> portsc_at R p \<noteq> op_base R + 0x1c" if "p \<noteq> 0" for p
    using portsc_elsewhere [OF assms(1) that, of 0] portsc_elsewhere [OF assms(1) that, of "0x18"]
      portsc_elsewhere [OF assms(1) that, of "0x1c"] by simp
  with assms(4) db show ?thesis unfolding writes_elsewhere_def by fastforce
qed

text \<open>The last lines of the session: two messages, then the rings and the array are freed.\<close>

lemma session_end_run:
  fixes s :: "'z machine_scheme"
  assumes "uart_drains E n" and "n < fuel E"
  shows "\<exists>t. seq (serial_println E m1) (seq (serial_println E m2) (drop_controller C)) s = Ret () (s\<lparr>trace := trace s @ t\<rparr>) \<and>
    mmio_writes t = [] \<and> Dealloc (trbs_ptr (cmd_ring C)) (trbs_len (cmd_ring C) * 16) 16 \<in> set t"
proof -
  obtain t1 where t1: "serial_println E m1 s = Ret () (s\<lparr>trace := trace s @ t1\<rparr>)" "uart_only t1"
    using println_run [OF assms] by metis
  let ?s1 = "s\<lparr>trace := trace s @ t1\<rparr>"
  obtain t2 where t2: "serial_println E m2 ?s1 = Ret () (?s1\<lparr>trace := trace ?s1 @ t2\<rparr>)" "uart_only t2"
    using println_run [OF assms] by metis
  let ?d = "[Dealloc (trbs_ptr (cmd_ring C)) (trbs_len (cmd_ring C) * 16) 16,
    Dealloc (trbs_ptr (event_ring C)) (trbs_len (event_ring C) * 16) 16,
    Dealloc (ptrs_ptr (ctrl_dcbaa C)) (ptrs_len (ctrl_dcbaa C) * 8) 8]"
  have "seq (serial_println E m1) (seq (serial_println E m2) (drop_controller C)) s =
      Ret () (s\<lparr>trace := trace s @ t1 @ t2 @ ?d\<rparr>)"
    unfolding seq_run t1(1) t2(1) outcome.case by (simp add: drop_controller_def emit_def run_simps)
  then show ?thesis
    using uart_only_no_mmio [OF t1(2)] uart_only_no_mmio [OF t2(2)] by (intro exI [of _ "t1 @ t2 @ ?d"]) simp
qed

lemma xhci_session_run:
  fixes s :: "'z machine_scheme"
  assumes "xhci_setting E X M po bar R hcs1" and "ports_respond E R attached k" and "k < fuel E"
    and "doorbells_above E R"
  shows "\<exists>(C :: controller) t cmd seg p w. xhci_session E X M bar po s = Ret () (s\<lparr>trace := trace s @ t\<rparr>) \<and>
    mmio_writes t = bring_up_writes R cmd (ucast hcs1) (cmd_ring C) (event_ring C) (ctrl_dcbaa C) seg @ w \<and>
    writes_elsewhere R (CRCR_regs R) w \<and> fresh_ring X M po 256 p (cmd_ring C) \<and>
    Alloc 4160 64 p \<in> set t \<and> Dealloc (trbs_ptr (cmd_ring C)) 4096 16 \<in> set t"
proof -
  obtain n where uart: "uart_drains E n" "n < fuel E" using assms(1) by (auto simp: xhci_setting_def)
  note W = settingD(4) [OF assms(1)]
  obtain t0 where t0: "serial_println E ''[ ok ] M6b xHCI init  [* * *]'' s = Ret () (s\<lparr>trace := trace s @ t0\<rparr>)" "uart_only t0"
    using println_run [OF uart] by metis
  let ?s1 = "s\<lparr>trace := trace s @ t0\<rparr>"
  obtain C t1 cmd seg p q where c: "controller_init E X M bar po ?s1 = Ret C (?s1\<lparr>trace := trace ?s1 @ t1\<rparr>)"
      "mmio_writes t1 = bring_up_writes R cmd (ucast hcs1) (cmd_ring C) (event_ring C) (ctrl_dcbaa C) seg" "regs C = R"
      "fresh_ring X M po 256 p (cmd_ring C)" "fresh_ring X M po 256 q (event_ring C)" "Alloc 4160 64 p \<in> set t1"
    using controller_init_run [OF assms(1), of ?s1] by blast
  let ?s2 = "?s1\<lparr>trace := trace ?s1 @ t1\<rparr>"
  let ?C = "C\<lparr>cmd_ring := (cmd_ring C)\<lparr>enqueue := (enqueue (cmd_ring C) + 1) mod trbs_len (cmd_ring C)\<rparr>\<rparr>"
  have "is_power_of_two 256" unfolding is_power_of_two_iff by (rule exI [of _ 8]) simp
  then have ok: "ring_ok (cmd_ring C)" "0 < trbs_len (event_ring C)" "window_ok (regs C)" "unat (base (regs C)) + 2 ^ 32 \<le> 2 ^ 64"
    using fresh_ring_ok [OF c(4)] c(3,5) W assms(4) by (simp_all add: fresh_ring_def doorbells_above_def)
  obtain b x u and v :: u32 where noop: "noop E C ?s2 = Ret (b, ?C) (?s2\<lparr>trace := trace ?s2 @
        trb_stores (trb_slot (trbs_ptr (cmd_ring C)) (enqueue (cmd_ring C))) x @ u\<rparr>)"
      "mmio_writes u = [MWrite32 (base R + ucast (v AND NOT 3)) 0]" "\<exists>t. v = mmio32 E t (base R + 0x14)"
    using noop_run [OF ok] c(3) by metis
  let ?t2 = "trb_stores (trb_slot (trbs_ptr (cmd_ring C)) (enqueue (cmd_ring C))) x @ u"
  let ?s3 = "?s2\<lparr>trace := trace ?s2 @ ?t2\<rparr>"
  have C: "regs ?C = R" "trbs_ptr (cmd_ring ?C) = trbs_ptr (cmd_ring C)" "trbs_len (cmd_ring ?C) = 256"
    using c(3,4) by (simp_all add: fresh_ring_def)
  obtain n' t3 where ports: "initialise_ports E ?C ?s3 = Ret n' (?s3\<lparr>trace := trace ?s3 @ t3\<rparr>)"
      "\<forall>e\<in>set (mmio_writes t3). \<exists>p v. p \<noteq> 0 \<and> e = MWrite32 (portsc_at R p) v"
    using initialise_ports_run [OF uart, of ?C attached k] assms(2,3) W unfolding C(1) by blast
  let ?s4 = "?s3\<lparr>trace := trace ?s3 @ t3\<rparr>"
  obtain t4 where t4: "seq (serial_println E (''[xhci] '' @ fmt_dec (unat n') @ '' port(s) with device attached''))
      (seq (serial_println E ''[ ok ] M6b complete'') (drop_controller ?C)) ?s4 = Ret () (?s4\<lparr>trace := trace ?s4 @ t4\<rparr>)"
      "mmio_writes t4 = []" "Dealloc (trbs_ptr (cmd_ring C)) 4096 16 \<in> set t4"
    using session_end_run [OF uart, where C = ?C and s = ?s4] C by auto
  have "xhci_session E X M bar po s = Ret () (?s4\<lparr>trace := trace ?s4 @ t4\<rparr>)"
    unfolding xhci_session_def seq_run [of "serial_println E ''[ ok ] M6b xHCI init  [* * *]''"] bind_run t0(1) c(1) noop(1) ports(1)
      outcome.case prod.case by (rule t4(1))
  then have run: "xhci_session E X M bar po s = Ret () (s\<lparr>trace := trace s @ t0 @ t1 @ ?t2 @ t3 @ t4\<rparr>)"
    by simp
  let ?w = "MWrite32 (base R + ucast (v AND NOT 3)) 0 # mmio_writes t3"
  have mw: "mmio_writes (t0 @ t1 @ ?t2 @ t3 @ t4) =
      bring_up_writes R cmd (ucast hcs1) (cmd_ring C) (event_ring C) (ctrl_dcbaa C) seg @ ?w"
    using uart_only_no_mmio [OF t0(2)] c(2) noop(2) t4(2) by (simp add: trb_stores_def)
  with run c(4,6) t4(3) session_writes_elsewhere [OF W assms(4) noop(3) ports(2)] show ?thesis
    by (intro exI [of _ C] exI [of _ "t0 @ t1 @ ?t2 @ t3 @ t4"] exI [of _ cmd] exI [of _ seg] exI [of _ p] exI [of _ ?w]) simp
qed

text \<open>
  C32. The USB stage frees memory the controller uses. When a session with a responding
  controller ends, the controller has been left running (the last command written sets
  Run/Stop), its command ring pointer names the physical address of the command ring, and the
  ring has been returned to the heap; moreover the address and layout freed are not those that
  were allocated: 4160 bytes aligned to 64 at \<open>p\<close> against 4096 bytes aligned to 16 at the
  rounded-up address.
\<close>

theorem xhci_session_frees_live_rings:
  fixes s :: "'z machine_scheme"
  assumes "xhci_setting E X M po bar R hcs1" and "ports_respond E R attached k" and "k < fuel E"
    and "doorbells_above E R"
  shows "\<exists>s' t a pa p. xhci_session E X M bar po s = Ret () s' \<and> trace s' = trace s @ t \<and>
    last_cmd (op_base R) t = Some (RS OR INTE OR HSEE) \<and>
    reg64 (fold (xhci_step R) t d) (op_base R + 0x18) = pa OR 1 \<and> phys_of X M po a = Some pa \<and>
    Dealloc a 4096 16 \<in> set t \<and> Alloc 4160 64 p \<in> set t \<and> in_block p 4096 a"
proof -
  obtain C :: controller and t cmd seg p w where
    run: "xhci_session E X M bar po s = Ret () (s\<lparr>trace := trace s @ t\<rparr>)" and
    mw: "mmio_writes t = bring_up_writes R cmd (ucast hcs1) (cmd_ring C) (event_ring C) (ctrl_dcbaa C) seg @ w" and
    w: "writes_elsewhere R (CRCR_regs R) w" and
    r: "fresh_ring X M po 256 p (cmd_ring C)" "Alloc 4160 64 p \<in> set t" "Dealloc (trbs_ptr (cmd_ring C)) 4096 16 \<in> set t"
    using xhci_session_run [OF assms] by blast
  let ?b = "bring_up_writes R cmd (ucast hcs1) (cmd_ring C) (event_ring C) (ctrl_dcbaa C) seg"
  have cmd: "last_cmd (op_base R) t = Some (RS OR INTE OR HSEE)"
    unfolding last_cmd_writes [of _ t, symmetric] mw last_cmd_elsewhere [OF w]
    by (simp add: last_cmd_def bring_up_writes_def)
  have "fold (xhci_step R) t d = fold (xhci_step R) w (fold (xhci_step R) ?b d)"
    unfolding xhci_step_writes [of R t] mw by simp
  then have "reg64 (fold (xhci_step R) t d) (op_base R + 0x18) = reg64 (fold (xhci_step R) ?b d) (op_base R + 0x18)"
    using written_elsewhere [OF w] by (simp add: reg64_def add.assoc)
  also have "\<dots> = ring_phys (cmd_ring C) OR 1"
    using bring_up_device(1) [OF settingD(3) [OF assms(1)], of "cmd_ring C" "event_ring C" "ctrl_dcbaa C" "ucast hcs1" _ seg cmd d]
    by (simp add: configured_def)
  finally have crcr: "reg64 (fold (xhci_step R) t d) (op_base R + 0x18) = ring_phys (cmd_ring C) OR 1" .
  show ?thesis
    using cmd crcr r run
    by (intro exI [of _ "s\<lparr>trace := trace s @ t\<rparr>"] exI [of _ t] exI [of _ "trbs_ptr (cmd_ring C)"]
        exI [of _ "ring_phys (cmd_ring C)"] exI [of _ p]) (simp add: fresh_ring_def)
qed

lemma xhci_env_ports: "ports_respond xhci_env demo_regs (\<lambda>_. False) 0" "doorbells_above xhci_env demo_regs"
proof -
  have at: "portsc_at demo_regs p \<noteq> x" if "p \<noteq> 0" "unat x < 0xFEBF0440" for p x
    using portsc_at_unat [OF demo_regs_ok that(1)] that(2) by (auto simp: demo_regs_def)
  have read: "mmio32 xhci_env t (portsc_at demo_regs p) = PRC" if "p \<noteq> 0" for t p
    using at [OF that, of "0xFEBF0018"] at [OF that, of "0xFEBF0004"] at [OF that, of "0xFEBF0014"] at [OF that, of "0xFEBF0044"]
    by (simp add: xhci_env_def)
  then show "ports_respond xhci_env demo_regs (\<lambda>_. False) 0"
    by (simp add: ports_respond_def settles_def) (simp add: PRC_def CCS_def)
  show "doorbells_above xhci_env demo_regs" by (simp add: doorbells_above_def xhci_env_def demo_regs_def)
qed

theorem xhci_session_frees_live_rings_witness:
  "\<exists>s' a. xhci_session xhci_env x86_reference demo_mmu 0xFEBF0000 0 \<lparr>trace = []\<rparr> = Ret () s' \<and>
     last_cmd 0xFEBF0040 (trace s') = Some 0xD \<and> Dealloc a 4096 16 \<in> set (trace s')"
proof -
  have "0 < fuel xhci_env" by (simp add: xhci_env_def heap_env_def ready_env_def)
  moreover have "op_base demo_regs = 0xFEBF0040" "RS OR INTE OR HSEE = 0xD"
    by (simp_all add: op_base_def demo_regs_def RS_def INTE_def HSEE_def)
  ultimately show ?thesis
    using xhci_session_frees_live_rings [OF xhci_env_setting xhci_env_ports(1) _ xhci_env_ports(2), of "\<lparr>trace = []\<rparr>"]
    by fastforce
qed

end
