(* ===== verification/Boot_Stages.thy ===== *)
theory Boot_Stages
  imports Boot "HOL-Library.Sublist"
begin

text \<open>
  What each stage of \<open>kernel_main\<close> does on a machine whose parts answer: it returns, leaves the
  screen and the interrupt state well formed, and writes its lines to the log.
\<close>

section \<open>The log\<close>

text \<open>
  The strings \<open>ms\<close> were among those written to the serial port in the events \<open>t\<close>, in this
  order: the bytes sent are those of a list of strings of which \<open>ms\<close> is a subsequence.
\<close>

definition said :: "string list \<Rightarrow> bus_event list \<Rightarrow> bool" where
  "said ms t \<longleftrightarrow> (\<exists>ws. uart_out t = concat (map bytes ws) \<and> subseq ms ws)"

abbreviation as_line :: "string \<Rightarrow> string" where
  "as_line m \<equiv> m @ [CHR 0x0A]"

lemma said_append: "said ms t \<Longrightarrow> said ns u \<Longrightarrow> said (ms @ ns) (t @ u)"
proof -
  assume "said ms t" "said ns u"
  then obtain vs ws where "uart_out t = concat (map bytes vs)" "subseq ms vs" "uart_out u = concat (map bytes ws)" "subseq ns ws"
    by (auto simp: said_def)
  then show ?thesis unfolding said_def by (intro exI [of _ "vs @ ws"]) (simp add: list_emb_append_mono)
qed

lemma said_nothing: "said [] t"
proof -
  have "bytes (map (\<lambda>w. char_of (unat w)) b) = b" for b
  proof -
    have "of_char (char_of (unat w)) = w" for w :: u8
    proof -
      have "of_char (char_of (unat w)) = (of_nat (of_char (char_of (unat w)) :: nat) :: u8)" by (simp only: of_nat_of_char)
      also have "\<dots> = of_nat (unat w mod 256)" by (simp only: of_char_of)
      finally show ?thesis using unsigned_less [of w, where ?'a = nat] by simp
    qed
    then show ?thesis by (simp add: bytes_def map_idI)
  qed
  then show ?thesis unfolding said_def by (intro exI [of _ "[map (\<lambda>w. char_of (unat w)) (uart_out t)]"]) simp
qed

lemma said_text: "uart_out t = bytes m \<Longrightarrow> said [m] t"
  unfolding said_def by (intro exI [of _ "[m]"]) simp

section \<open>Stages\<close>

text \<open>
  What the stages between the clearing of the screen and the animation leave alone, and what they
  log.
\<close>

definition steady :: "string list \<Rightarrow> 'z kernel_scheme \<Rightarrow> 'z kernel_scheme \<Rightarrow> bool" where
  "steady ms s s' \<longleftrightarrow> kernel_ok s' \<and> kernel.more s' = kernel.more s \<and> ring_cap (BUF s') = ring_cap (BUF s) \<and>
     (\<exists>t. trace s' = trace s @ t \<and> said ms t)"

text \<open>
  From every well-formed state with room for \<open>N\<close> characters, and with interrupts enabled if \<open>on\<close>,
  \<open>m\<close> returns, with a result in \<open>Q\<close>.
\<close>

definition at_stage :: "bool \<Rightarrow> nat \<Rightarrow> 'z kernel_scheme \<Rightarrow> bool" where
  "at_stage on N s \<longleftrightarrow> kernel_ok s \<and> ring_cap (BUF s) = N \<and> (on \<longrightarrow> interrupts_on s)"

definition completes :: "bool \<Rightarrow> nat \<Rightarrow> string list \<Rightarrow> ('a, 'z kernel_scheme) prog \<Rightarrow> ('a \<Rightarrow> bool) \<Rightarrow> bool" where
  "completes on N ms m Q \<longleftrightarrow> returns_within (at_stage on N) (steady ms) m Q"

interpretation stage: graded "at_stage on N" steady for on N
proof unfold_locales
  show "steady [] s s" if "at_stage on N s" for s :: "'z kernel_scheme"
    using that by (simp add: at_stage_def steady_def said_nothing)
  show "steady (ms @ ns) s u" if "steady ms s t" "steady ns t u" for ms ns and s t u :: "'z kernel_scheme"
    using that by (auto simp: steady_def intro: said_append)
qed (auto simp: at_stage_def steady_def)

named_theorems completes_intros \<open>rules for stages that complete\<close>

lemma completesI:
  "(\<And>s. kernel_ok s \<Longrightarrow> ring_cap (BUF s) = N \<Longrightarrow> (on \<Longrightarrow> interrupts_on s) \<Longrightarrow>
     \<exists>x s'. m s = Ret x s' \<and> steady ms s s' \<and> Q x) \<Longrightarrow> completes on N ms m Q"
  unfolding completes_def by (rule returns_withinI) (simp add: at_stage_def)

lemma completesD:
  assumes "completes False (ring_cap (BUF s)) ms m Q" and "kernel_ok s"
  obtains x s' where "m s = Ret x s'" "steady ms s s'" "Q x"
  using assms unfolding completes_def by (auto simp: at_stage_def elim: returns_withinD)

lemmas completes_seq [completes_intros] = stage.graded_seq [folded completes_def]
lemmas completes_bind [completes_intros] = stage.graded_bind [folded completes_def]
lemmas completes_return [completes_intros] = stage.silent.within_return [folded completes_def]
lemmas completes_for_each [completes_intros] = stage.silent.within_for_each [folded completes_def]

lemma completes_as: "completes on N ms m Q \<Longrightarrow> ms = ns \<Longrightarrow> completes on N ns m Q"
  by simp

lemma completes_quiet: "completes on N ms m Q \<Longrightarrow> completes on N [] m Q"
  unfolding completes_def returns_within_def by (fastforce simp: steady_def said_nothing)

lemma completes_traced:
  assumes "\<And>s :: 'z kernel_scheme. kernel_ok s \<Longrightarrow> \<exists>x t. m s = Ret x (s\<lparr>trace := trace s @ t\<rparr>) \<and> Q x"
  shows "completes on N [] m Q"
proof (rule completesI)
  fix s :: "'z kernel_scheme"
  assume "kernel_ok s"
  moreover from assms [OF this] obtain x t where "m s = Ret x (s\<lparr>trace := trace s @ t\<rparr>)" "Q x" by blast
  ultimately show "\<exists>x s'. m s = Ret x s' \<and> steady [] s s' \<and> Q x" by (auto simp: steady_def said_nothing)
qed

lemma completes_emit [completes_intros]: "completes on N [] (emit e) (\<lambda>_. True)"
  by (rule completes_traced) (auto simp: emit_def)

lemma completes_here: "(\<And>s. m s = f s s) \<Longrightarrow> (\<And>s. completes on N ms (f s) Q) \<Longrightarrow> completes on N ms m Q"
  unfolding completes_def returns_within_def by simp

text \<open>The same, but \<open>m\<close> enables interrupts; what follows it runs with them enabled.\<close>

definition wakes :: "nat \<Rightarrow> string list \<Rightarrow> ('a, 'z kernel_scheme) prog \<Rightarrow> ('a \<Rightarrow> bool) \<Rightarrow> bool" where
  "wakes N ms m Q \<longleftrightarrow> returns_within (at_stage False N) (\<lambda>s s'. steady ms s s' \<and> interrupts_on s') m Q"

lemma wakesD:
  assumes "wakes (ring_cap (BUF s)) ms m Q" and "kernel_ok s"
  obtains x s' where "m s = Ret x s'" "steady ms s s'" "interrupts_on s'" "Q x"
  using assms unfolding wakes_def by (auto simp: at_stage_def elim: returns_withinD)

lemma wakes_as: "wakes N ms m Q \<Longrightarrow> ms = ns \<Longrightarrow> wakes N ns m Q"
  by simp

lemma bind_wakes:
  fixes m :: "('a, 'z kernel_scheme) prog"
  assumes "completes False N ms m P" and "\<And>x. P x \<Longrightarrow> wakes N ns (f x) Q"
  shows "wakes N (ms @ ns) (bind m f) Q"
  unfolding wakes_def
proof (rule returns_withinI)
  fix s :: "'z kernel_scheme"
  assume s: "at_stage False N s"
  obtain x s1 where s1: "m s = Ret x s1" "steady ms s s1" "P x"
    using returns_withinD [OF assms(1) [unfolded completes_def] s] by blast
  obtain y s2 where "f x s1 = Ret y s2" "steady ns s1 s2 \<and> interrupts_on s2" "Q y"
    using returns_withinD [OF assms(2) [OF s1(3), unfolded wakes_def] stage.account_ok [OF s s1(2)]] by blast
  with s1 show "\<exists>y s2. bind m f s = Ret y s2 \<and> (steady (ms @ ns) s s2 \<and> interrupts_on s2) \<and> Q y"
    by (auto simp: bind_run intro: stage.account)
qed

lemma seq_wakes: "completes False N ms m (\<lambda>_. True) \<Longrightarrow> wakes N ns k Q \<Longrightarrow> wakes N (ms @ ns) (seq m k) Q"
  unfolding seq_def by (rule bind_wakes)

lemma wakes_seq:
  fixes m :: "(unit, 'z kernel_scheme) prog"
  assumes "wakes N ms m (\<lambda>_. True)" and "completes True N ns k Q"
  shows "wakes N (ms @ ns) (seq m k) Q"
  unfolding wakes_def
proof (rule returns_withinI)
  fix s :: "'z kernel_scheme"
  assume s: "at_stage False N s"
  obtain x s1 where s1: "m s = Ret x s1" "steady ms s s1" "interrupts_on s1"
    using returns_withinD [OF assms(1) [unfolded wakes_def] s] by blast
  then have "at_stage True N s1" using stage.account_ok [OF s s1(2)] by (simp add: at_stage_def)
  then obtain y s2 where s2: "k s1 = Ret y s2" "steady ns s1 s2" "Q y"
    using returns_withinD [OF assms(2) [unfolded completes_def]] by blast
  have "interrupts_on s2" using s1(3) s2(2) by (auto simp: steady_def)
  with s1 s2 show "\<exists>y s2. seq m k s = Ret y s2 \<and> (steady (ms @ ns) s s2 \<and> interrupts_on s2) \<and> Q y"
    by (auto simp: seq_run intro: stage.account)
qed

section \<open>The console\<close>

text \<open>
  A console that works, for a keyboard buffer with room for \<open>N\<close> characters: the UART drains, every
  halt is ended by the timer and at most \<open>b\<close> interrupts arrive in it, and in any \<open>k\<close> halts the
  user presses Enter; the polling budget exceeds all of these.
\<close>

definition console_live :: "env \<Rightarrow> nat \<Rightarrow> nat \<Rightarrow> nat \<Rightarrow> bool" where
  "console_live E N b k \<longleftrightarrow> (\<exists>n < fuel E. uart_drains E n) \<and> timer_live E b \<and> b \<le> N \<and> 10 < fuel E \<and>
     N + k * b < fuel E \<and> k < fuel E \<and>
     (\<forall>t sh. CHR 0x0A \<in> set (typed sh (scancodes (drop (length t) ((hlt_trace E ^^ k) t)))))"

lemma completes_print:
  assumes "console_live E N b k"
  shows "completes on M [m] (serial_print E m) (\<lambda>_. True)" "completes on M [as_line m] (serial_println E m) (\<lambda>_. True)"
proof -
  obtain n where u: "uart_drains E n" "n < fuel E" using assms by (auto simp: console_live_def)
  show "completes on M [m] (serial_print E m) (\<lambda>_. True)" for m
  proof (rule completesI)
    fix s :: "'z kernel_scheme"
    assume "kernel_ok s"
    moreover obtain t where "serial_print E m s = Ret () (s\<lparr>trace := trace s @ t\<rparr>)" "uart_out t = bytes m"
      using serial_print_run [OF u] by blast
    ultimately show "\<exists>x s'. serial_print E m s = Ret x s' \<and> steady [m] s s' \<and> True"
      by (auto simp: steady_def said_text)
  qed
  then show "completes on M [as_line m] (serial_println E m) (\<lambda>_. True)" unfolding serial_println_def .
qed

lemma completes_mute:
  assumes "console_live E N b k"
  shows "completes on M [] (serial_println E m) (\<lambda>_. True)"
  by (rule completes_quiet [OF completes_print(2) [OF assms]])

lemma read_char_keeps:
  assumes "kernel_ok s" and "read_char s = Ret r s'"
  shows "kernel.more s' = kernel.more s"
proof (cases "ring_items (BUF s)")
  case Nil
  then show ?thesis using read_char_run(1) [OF assms(1)] assms(2) by simp
next
  case (Cons c cs)
  have "\<not> BUF_locked s" using assms(1) by (simp add: kernel_ok_def kbd_ok_def)
  with assms(2) show ?thesis
    by (auto simp: read_char_def with_BUF_def lock_BUF_def unlock_BUF_def on_BUF_def run_simps split: outcome.splits)
qed

lemma reader_hlt_keeps:
  assumes "reader_ok E n s" and "hlt E s = Ret () s'"
  shows "kernel.more s' = kernel.more s"
  using hlt_keeps [of s E] assms by (auto simp: reader_ok_def irqs_bounded_def)

lemma read_char_blocking_keeps:
  "reader_ok E n s \<Longrightarrow> read_char_blocking_loop m E s = Ret c s' \<Longrightarrow> kernel.more s' = kernel.more s"
proof (induction m arbitrary: s)
  case (Suc m)
  from Suc.prems(1) have ok: "kernel_ok s" "interrupts_on s" "irqs_bounded E n" "n \<le> ring_cap (BUF s)" by (auto simp: reader_ok_def)
  show ?case
  proof (cases "ring_items (BUF s)")
    case Nil
    obtain s1 where s1: "hlt E s = Ret () s1" "consumed s [] s1" using hlt_run [OF ok Nil] by blast
    have "read_char_blocking_loop m E s1 = Ret c s'"
      using Suc.prems(2) s1(1) read_char_run(1) [OF ok(1) Nil] by (simp add: run_simps)
    from Suc.IH [OF reader_ok_consumed [OF Suc.prems(1) s1(2)] this] reader_hlt_keeps [OF Suc.prems(1) s1(1)]
    show ?thesis by simp
  next
    case (Cons d ds)
    then show ?thesis
      using read_char_run(2) [OF ok(1) Cons] Suc.prems(2) read_char_keeps [OF ok(1)] by (auto simp: run_simps)
  qed
qed simp

lemma read_line_keeps:
  "reader_ok E n s \<Longrightarrow> read_line_loop m E acc s = Ret line s' \<Longrightarrow> kernel.more s' = kernel.more s"
proof (induction m arbitrary: acc s)
  case (Suc m)
  obtain c s1 where s1: "read_char_blocking E s = Ret c s1"
    using Suc.prems(2) by (auto simp: run_simps split: outcome.splits)
  note rd = Suc.prems(1) s1 [unfolded read_char_blocking_def]
  note ok = reader_ok_consumed [OF Suc.prems(1) read_char_blocking_consumes [OF rd]]
  from Suc.IH [OF ok] read_char_blocking_keeps [OF rd] Suc.prems(2) s1 show ?case
    by (fastforce simp: run_simps split: if_splits)
qed simp

text \<open>The scancodes that arrive in \<open>k\<close> halts.\<close>

lemma hlt_scancodes:
  assumes "irqs_bounded E b"
  shows "length (scancodes (hlt_trace E t)) \<le> length (scancodes t) + b"
proof -
  have "length (scancodes (fold (\<lambda>v t. t @ irq_events E t v) vs t)) \<le> length (scancodes t) + length vs" for vs t
  proof (induction vs arbitrary: t)
    case (Cons v vs)
    have "length (scancodes (irq_events E t v)) \<le> 1" by (simp add: irq_events_def scancodes_def)
    with Cons.IH [of "t @ irq_events E t v"] show ?case by simp
  qed simp
  from this [of "irqs E (t @ [Cpu Hlt])" "t @ [Cpu Hlt]"] assms show ?thesis
    by (simp add: hlt_trace_def irqs_bounded_def scancodes_def) (meson le_trans nat_add_left_cancel_le)
qed

lemma hlts_scancodes:
  assumes "irqs_bounded E b"
  shows "length (scancodes ((hlt_trace E ^^ k) t)) \<le> length (scancodes t) + k * b"
proof (induction k)
  case (Suc k)
  with hlt_scancodes [OF assms, of "(hlt_trace E ^^ k) t"] show ?case by simp
qed simp

lemma input_within_bound:
  assumes "irqs_bounded E b" and "kernel_ok s"
  shows "length (input_within E k s) \<le> ring_cap (BUF s) + k * b"
proof -
  obtain w where w: "(hlt_trace E ^^ k) (trace s) = trace s @ w" using hlt_traces_extend by blast
  have "length (scancodes w) \<le> k * b" using hlts_scancodes [OF assms(1), of k "trace s"] by (simp add: w)
  moreover have "length (ring_items (BUF s)) \<le> ring_cap (BUF s)"
    using assms(2) by (intro kq.bounded) (simp add: kernel_ok_def kbd_ok_def)
  ultimately show ?thesis using length_typed [of "SHIFT s" "scancodes w"] by (simp add: input_within_def w)
qed

lemma completes_read_line:
  assumes "console_live E N b k"
  shows "completes True N [] (read_line E) (\<lambda>_. True)"
proof (rule completesI)
  fix s :: "'z kernel_scheme"
  assume s: "kernel_ok s" "ring_cap (BUF s) = N" "True \<Longrightarrow> interrupts_on s"
  have c: "irqs_bounded E b" "b \<le> N" "N + k * b < fuel E" "k < fuel E"
    using assms by (simp_all add: console_live_def timer_live_def)
  have ok: "reader_ok E b s" using c(1,2) s by (simp add: reader_ok_def)
  have enter: "CHR 0x0A \<in> set (input_within E k s)" using assms by (simp add: console_live_def input_within_def)
  have "length (takeWhile (\<lambda>c. c \<noteq> CHR 0x0A) (input_within E k s)) < fuel E"
    using input_within_bound [OF c(1) s(1), of k] c(3) s(2) length_takeWhile_le [of _ "input_within E k s"]
    by (metis (no_types, lifting) le_less_trans)
  from read_line_live [OF ok enter c(4) this] obtain l s' where r: "read_line_loop (fuel E) E [] s = Ret l s'" by blast
  have "steady [] s s'"
    using read_line_consumes [OF ok r] read_line_keeps [OF ok r] by (auto simp: steady_def consumed_def said_nothing)
  with r show "\<exists>x s'. read_line E s = Ret x s' \<and> steady [] s s' \<and> True" by (auto simp: read_line_def)
qed

section \<open>The stages one by one\<close>

definition banner_log :: "string list" where
  "banner_log = map as_line [[], ''punk.science // punkos'', ''build dots loading  [* * *]'',
     ''[ ok ] kernel reached long mode and the entry point'']"

lemma completes_banner:
  assumes "console_live E N b k"
  shows "completes on N banner_log (boot_banner E) (\<lambda>_. True)"
  unfolding boot_banner_def serial_init_def out8_def run_all.simps banner_log_def
  by (rule completes_as, (rule completes_print [OF assms] completes_intros TrueI)+) simp_all

lemma completes_gdt_init:
  assumes "x86_documented X" and "gdt_documented G" and "canonical stack"
    and "canonical (stack + 20480)" and "unat stack + 20480 < 2 ^ 64"
  shows "completes on N [] (gdt_init X G stack tss :: (unit, 'z kernel_scheme) prog) (\<lambda>_. True)"
proof (rule completes_traced)
  fix s :: "'z kernel_scheme"
  obtain tab sel where "GDT X G stack tss s = Ret (tab, sel) s"
    using GDT_run [OF assms(2) TSS_run [OF assms(1,3-5)], of tss s] by blast
  then show "\<exists>x t. gdt_init X G stack tss s = Ret x (s\<lparr>trace := trace s @ t\<rparr>) \<and> True"
    by (simp add: gdt_init_def run_simps emit_def) blast
qed

lemma completes_int3:
  assumes "console_live E N b k"
  shows "completes on N [] (int3 E :: (unit, 'z kernel_scheme) prog) (\<lambda>_. True)"
proof -
  have "deliver E 3 = (breakpoint_handler E :: (unit, 'z kernel_scheme) prog)"
    by (simp add: deliver_def IDT_def run_handler_def PIC_1_OFFSET_def as_u8.simps)
  moreover have "completes on N [] (breakpoint_handler E :: (unit, 'z kernel_scheme) prog) (\<lambda>_. True)"
    by (rule completes_here [OF _ completes_mute [OF assms]]) (simp add: breakpoint_handler_def)
  ultimately show ?thesis
    unfolding int3_def using stage.silent.within_seq [folded completes_def] completes_emit by metis
qed

definition heap_log :: "string list" where
  "heap_log = map as_line [''[ ok ] heap works: box=0xdeadbeef, sum(0..500)=124750'',
     ''[ ok ] M2 complete '' @ EM_DASH @ '' memory management online'']"

lemma completes_heap_check:
  assumes "console_live E N b k"
  shows "completes on N heap_log (boot_heap_check E :: (unit, 'z kernel_scheme) prog) (\<lambda>_. True)"
proof -
  have push: "for_fold is (\<lambda>i v. return (v @ [i])) v0 = return (v0 @ is)" for v0 and "is" :: "u64 list"
    by (induction "is" arbitrary: v0) (simp_all add: fun_eq_iff run_simps)
  have sum: "for_fold (map word_of_nat [a..<n]) (\<lambda>x acc. u64_add acc x) acc =
      (return (acc + word_of_nat (\<Sum>{a..<n})) :: (u64, 'z kernel_scheme) prog)"
    if "unat acc + \<Sum>{a..<n} < 2 ^ 64" for a n acc
    using that
  proof (induction "n - a" arbitrary: a acc)
    case (Suc d)
    then have a: "a < n" "[a..<n] = a # [Suc a..<n]" "\<Sum>{a..<n} = a + \<Sum>{Suc a..<n}"
      by (simp_all add: upt_conv_Cons sum.atLeast_Suc_lessThan)
    have u: "unat (word_of_nat a :: u64) = a" using a Suc.prems by (simp add: unat_of_nat)
    have "u64_add acc (word_of_nat a) = (return (acc + word_of_nat a) :: (u64, 'z kernel_scheme) prog)"
      by (rule u64_add_return) (use a Suc.prems u in simp)
    moreover have "unat (acc + word_of_nat a) = unat acc + a"
      using unat_add_fits [of acc "word_of_nat a"] a(3) Suc.prems u by simp
    ultimately show ?case using Suc.hyps(1) [of "Suc a" "acc + word_of_nat a"] Suc.hyps(2) Suc.prems a
      by (simp add: fun_eq_iff run_simps add.assoc)
  qed (simp add: fun_eq_iff run_simps)
  have "\<Sum>{0..<500} = (124750 :: nat)" by (simp add: Sum_Ico_nat)
  then have "sum_u64 (map word_of_nat [0..<500]) = (return 124750 :: (u64, 'z kernel_scheme) prog)"
    using sum [of 0 0 500] by (simp add: sum_u64_def)
  moreover have "fmt_dec 124750 = ''124750''" "fmt_hex_alt 0xDEADBEEF = ''0xdeadbeef''"
    by (simp_all add: fmt_dec_def fmt_hex_alt_def fmt_hex_def to_base.simps digit_char_def char_of_def bit_numeral_rec bit_0)
  moreover have "unat (124750 :: u64) = 124750" "unat (0xDEADBEEF :: u64) = 0xDEADBEEF" by simp_all
  ultimately have "boot_heap_check E =
      (seq (serial_println E (''[ ok ] heap works: box='' @ ''0xdeadbeef'' @ '', sum(0..500)='' @ ''124750''))
        (serial_println E (''[ ok ] M2 complete '' @ EM_DASH @ '' memory management online'')) :: (unit, 'z kernel_scheme) prog)"
    unfolding boot_heap_check_def Let_def push return_bind append_Nil by (simp only: return_bind)
  then show ?thesis
    by (simp only:) (rule completes_as [OF completes_seq [OF completes_print(2) [OF assms] completes_print(2) [OF assms]]],
        simp add: heap_log_def)
qed

definition timer_log :: "string list" where
  "timer_log = map as_line [''[ ok ] PIC + PIT up, interrupts enabled (~100 Hz)'']"

lemma wakes_timer:
  assumes "console_live E N b k"
  shows "wakes N timer_log (boot_timer E :: (unit, 'z kernel_scheme) prog) (\<lambda>_. True)"
proof -
  have live: "timer_live E b" "10 < fuel E" using assms by (simp_all add: console_live_def)
  have init: "wakes N [] (interrupts_init :: (unit, 'z kernel_scheme) prog) (\<lambda>_. True)"
    unfolding wakes_def
  proof (rule returns_withinI)
    fix s :: "'z kernel_scheme"
    assume s: "at_stage False N s"
    then have "\<not> PICS_locked s" by (simp add: at_stage_def kernel_ok_def)
    from interrupts_init_run [OF this] s
    show "\<exists>x s'. interrupts_init s = Ret x s' \<and> (steady [] s s' \<and> interrupts_on s') \<and> True"
      by (auto simp: at_stage_def steady_def said_nothing)
  qed
  have wait: "completes True N [] (wait_ticks (fuel E) E 10 :: (unit, 'z kernel_scheme) prog) (\<lambda>_. True)"
  proof (rule completesI)
    fix s :: "'z kernel_scheme"
    assume "kernel_ok s" "True \<Longrightarrow> interrupts_on s"
    moreover have "10 - unat (TICKS s) < fuel E" using live(2) by simp
    ultimately show "\<exists>x s'. wait_ticks (fuel E) E 10 s = Ret x s' \<and> steady [] s s' \<and> True"
      using wait_ticks_run [OF live(1), of s "fuel E"] by (auto simp: steady_def said_nothing)
  qed
  have read: "completes True N [] (ticks :: (u64, 'z kernel_scheme) prog) (\<lambda>_. True)"
    by (rule completes_traced) (auto simp: ticks_def intro!: exI [of _ "[]"])
  note rest = completes_seq [OF completes_print(2) [OF assms] completes_seq [OF wait completes_bind [OF read completes_mute [OF assms]]]]
  show ?thesis
    unfolding boot_timer_def timer_log_def list.map append_Nil
    by (rule wakes_as [OF wakes_seq [OF init rest]]) simp
qed

text \<open>The statics of \<^verbatim>\<open>gdt.rs\<close> lie in the canonical address space.\<close>

definition tables_ready :: "'m platform \<Rightarrow> bool" where
  "tables_ready P \<longleftrightarrow> x86_documented (x86 P) \<and> gdt_documented (gdt_api P) \<and> canonical (stack_addr P) \<and>
     canonical (stack_addr P + 20480) \<and> unat (stack_addr P) + 20480 < 2 ^ 64"

definition tables_log :: "string list" where
  "tables_log = map as_line [''[ ok ] GDT + IDT installed'', ''[ ok ] returned from breakpoint exception'']"

lemma completes_tables:
  assumes "console_live E N b k" and "tables_ready P"
  shows "completes on N tables_log (boot_tables E P) (\<lambda>_. True)"
proof -
  have gdt: "completes on N [] (gdt_init (x86 P) (gdt_api P) (stack_addr P) (tss_addr P)) (\<lambda>_. True)"
    using assms(2) by (simp add: tables_ready_def completes_gdt_init)
  show ?thesis
    unfolding boot_tables_def init_idt_def run_all.simps tables_log_def
    by (rule completes_as, (rule gdt completes_int3 [OF assms(1)] completes_print(2) [OF assms(1)] completes_intros TrueI)+) simp_all
qed

text \<open>
  What the bootloader leaves: physical memory mapped at \<open>po\<close>, a well-formed memory map with at
  least 8192 usable frames (32 MiB) from 2 MiB up, page tables that a documented mapper can edit and
  that do not map the heap yet.
\<close>

definition memory_ready :: "'m platform \<Rightarrow> boot_info \<Rightarrow> ('m \<Rightarrow> u64 \<Rightarrow> (u64 \<times> page_table_flag set) option) \<Rightarrow> u64 \<Rightarrow> bool" where
  "memory_ready P B mappings po \<longleftrightarrow> x86_documented (x86 P) \<and> physical_memory_offset B = Some po \<and> canonical po \<and>
     canonical (po + cr3 (boot_mmu P)) \<and> unat po + unat (cr3 (boot_mmu P)) < 2 ^ 64 \<and>
     map_ok (boot_memory_regions B) \<and> mapper_documented (paging_api P) mappings frame_supply (allocator_ok (x86 P)) \<and>
     (\<forall>p\<in>set heap_pages. mappings (offset_page_table P (po + cr3 (boot_mmu P)) po) p = None) \<and>
     8192 \<le> length (filter (\<lambda>f. 0x200000 \<le> f) (usable_addrs (boot_memory_regions B)))"

lemma memory_init_run:
  assumes "memory_ready P B mappings po"
  shows "memory_init P po s = Ret (offset_page_table P (po + cr3 (boot_mmu P)) po) s"
proof -
  have "virt_add (x86 P) po (cr3 (boot_mmu P)) = Some (po + cr3 (boot_mmu P))"
    by (rule x86_virt_add) (use assms in \<open>simp_all add: memory_ready_def\<close>)
  then show ?thesis by (simp add: memory_init_def active_level_4_table_def pt_at_def run_simps)
qed

lemma boot_frames_run:
  assumes "memory_ready P B mappings po"
  obtains a where "skip_below (x86 P) 0x200000 (frame_allocator_init (boot_memory_regions B)) = Ret () a"
    "memory_regions a = boot_memory_regions B" "8192 \<le> length (frame_supply a)"
proof -
  let ?f0 = "frame_allocator_init (boot_memory_regions B)" and ?us = "usable_addrs (boot_memory_regions B)"
  let ?low = "\<lambda>f. f < (0x200000 :: u64)"
  have r: "memory_regions ?f0 = boot_memory_regions B" by (simp add: frame_allocator_init_def)
  have "allocator_ok (x86 P) ?f0" using assms by (simp add: allocator_ok_def r memory_ready_def)
  note run = skip_below_run [OF this, of "0x200000", unfolded r]
  let ?a = "?f0\<lparr>next_index := length (takeWhile ?low ?us)\<rparr>"
  have "filter (\<lambda>f. 0x200000 \<le> f) (takeWhile ?low ?us) = []"
    by (auto simp: filter_empty_conv dest!: set_takeWhileD)
  then have "filter (\<lambda>f. 0x200000 \<le> f) ?us = filter (\<lambda>f. 0x200000 \<le> f) (dropWhile ?low ?us)"
    by (metis append_Nil filter_append takeWhile_dropWhile_id)
  moreover have "8192 \<le> length (filter (\<lambda>f. 0x200000 \<le> f) ?us)" using assms by (simp add: memory_ready_def)
  ultimately have "8192 \<le> length (filter (\<lambda>f. 0x200000 \<le> f) (dropWhile ?low ?us))" by simp
  then have "8192 \<le> length (dropWhile ?low ?us)" by (rule order_trans [OF _ length_filter_le])
  then have "8192 \<le> length (frame_supply ?a)" by (simp add: frame_supply_def r dropWhile_eq_drop)
  with that [OF run] r show ?thesis by simp
qed

lemma completes_memory:
  assumes "console_live E N b k" and "memory_ready P B mappings po"
  shows "completes on N [as_line ''[ ok ] paging + 8192 KiB heap online''] (boot_memory E P B :: (_, 'z kernel_scheme) prog)
    (\<lambda>(po', pg). po' = po \<and> (\<forall>p\<in>set heap_pages. mappings (mapper pg) p \<noteq> None))"
proof -
  let ?m0 = "offset_page_table P (po + cr3 (boot_mmu P)) po"
  obtain a where a: "skip_below (x86 P) 0x200000 (frame_allocator_init (boot_memory_regions B)) = Ret () a"
      "memory_regions a = boot_memory_regions B" "8192 \<le> length (frame_supply a)"
    using boot_frames_run [OF assms(2)] .
  let ?s = "\<lparr>mapper = ?m0, falloc = a, heap_region = None\<rparr>"
  have m: "x86_documented (x86 P)" "map_ok (memory_regions (falloc ?s))"
      "mapper_documented (paging_api P) mappings frame_supply (allocator_ok (x86 P))"
      "\<forall>p\<in>set heap_pages. mappings (mapper ?s) p = None" "8192 \<le> length (frame_supply (falloc ?s))"
    using assms(2) a by (simp_all add: memory_ready_def)
  obtain pg fs where h: "init_heap (x86 P) (paging_api P) (allocate_frame (x86 P)) ?s = Ret (Inr ()) pg" "length fs = 2048"
      "mappings (mapper pg) = (mappings (mapper ?s))(heap_pages [\<mapsto>] map (\<lambda>f. (f, {PRESENT, WRITABLE})) fs)"
    using init_heap_total [OF m(1-3)] m(4,5) by force
  have "dom (mappings (mapper pg)) = set heap_pages \<union> dom (mappings (mapper ?s))"
    unfolding h(3) by (subst dom_map_upds) (simp add: h(2) length_heap_pages)
  then have mapped: "\<forall>p\<in>set heap_pages. mappings (mapper pg) p \<noteq> None" by (metis UnCI domIff)
  have "virt_new (x86 P) po = Some po" "physical_memory_offset B = Some po"
    using assms(2) x86_virt_new [OF m(1)] by (simp_all add: memory_ready_def)
  moreover have "fmt_dec (HEAP_SIZE div 1024) = ''8192''"
    by (simp add: fmt_dec_def HEAP_SIZE_def to_base.simps digit_char_def char_of_def bit_numeral_rec bit_0)
  ultimately have "boot_memory E P B = (seq (serial_println E ''[ ok ] paging + 8192 KiB heap online'')
      (return (po, pg)) :: (_, 'z kernel_scheme) prog)"
    by (simp add: fun_eq_iff boot_memory_def run_simps memory_init_run [OF assms(2)] run_local_def a(1) h(1))
  then show ?thesis
    by (simp only:) (rule completes_as, (rule completes_print(2) [OF assms(1)] completes_intros)+, use mapped in simp_all)
qed

text \<open>The PCI stage finds the functions that answer on the bus.\<close>

definition bus_devices :: "(u32 \<Rightarrow> u32) \<Rightarrow> pci_device list" where
  "bus_devices cs = map (the_device cs) (filter (visible cs) all_functions)"

definition pci_log :: "(u32 \<Rightarrow> u32) \<Rightarrow> string list" where
  "pci_log cs = map as_line [''[ ok ] M6a PCI bus scan  [* * *]'',
     ''[ ok ] '' @ fmt_dec (length (bus_devices cs)) @ '' PCI device(s) found:'']"

lemma completes_pci:
  assumes "console_live E N b k" and "config_mechanism E cs"
  shows "completes on N (pci_log cs) (boot_pci E) (\<lambda>ds. ds = bus_devices cs)"
proof -
  have scan: "completes on N [] (enumerate_pci E) (\<lambda>ds. ds = bus_devices cs)"
    by (rule completes_traced)
      (use readsD [OF reads_enumerate [OF assms(2)]] in \<open>fastforce simp: bus_devices_def only_reads_def\<close>)
  have log: "completes on N [] (for_each ds (log_device E)) (\<lambda>_. True)" for ds
    unfolding log_device_def by (intro completes_for_each completes_mute [OF assms(1)])
  show ?thesis
    unfolding boot_pci_def pci_log_def
    by (rule completes_as, rule completes_seq [OF completes_print(2) [OF assms(1)]], rule completes_bind [OF scan],
        simp only:, (rule log completes_print(2) [OF assms(1)] completes_intros refl)+, simp)
qed

text \<open>
  Every xHCI controller on the bus whose first base address register is a memory address is a
  controller that responds there, once the heap is mapped.
\<close>

definition usb_ready :: "env \<Rightarrow> 'm platform \<Rightarrow> ('m \<Rightarrow> u64 \<Rightarrow> (u64 \<times> page_table_flag set) option) \<Rightarrow> u64 \<Rightarrow> (u32 \<Rightarrow> u32) \<Rightarrow> bool" where
  "usb_ready E P mappings po cs \<longleftrightarrow> (\<forall>m d mmio. (\<forall>p\<in>set heap_pages. mappings m p \<noteq> None) \<longrightarrow>
     d \<in> set (find_xhci (bus_devices cs)) \<longrightarrow> Option.bind (dev_bars d ! 0) memory_base = Some mmio \<longrightarrow>
     (\<exists>R hcs1 attached k. xhci_setting E (x86 P) (tables P m) po mmio R hcs1 \<and> ports_respond E R attached k \<and>
        k < fuel E \<and> doorbells_above E R))"

lemma completes_xhci_loop:
  assumes "console_live E N b k" and "usb_ready E P mappings po cs" and "\<forall>p\<in>set heap_pages. mappings m p \<noteq> None"
  shows "set ds \<subseteq> set (find_xhci (bus_devices cs)) \<Longrightarrow>
    completes on N [] (xhci_loop E (x86 P) (tables P m) po ds :: (unit, 'z kernel_scheme) prog) (\<lambda>_. True)"
proof (induction ds)
  case (Cons d ds)
  have bars: "completes on N [] (for_each bs (log_bar E) :: (unit, 'z kernel_scheme) prog) (\<lambda>_. True)" for bs
    by (rule completes_for_each)
      (auto simp: log_bar_def intro!: completes_return completes_mute [OF assms(1)] split: option.splits)
  have session: "completes on N [] (xhci_session E (x86 P) (tables P m) mmio po :: (unit, 'z kernel_scheme) prog) (\<lambda>_. True)"
    if mmio: "Option.bind (dev_bars d ! 0) memory_base = Some mmio" for mmio
  proof (rule completes_traced)
    fix s :: "'z kernel_scheme"
    obtain R hcs1 attached j where
      r: "xhci_setting E (x86 P) (tables P m) po mmio R hcs1" "ports_respond E R attached j" "j < fuel E" "doorbells_above E R"
      using assms(2,3) Cons.prems mmio unfolding usb_ready_def by (meson list.set_intros(1) subsetD)
    from xhci_session_run [OF this, of s]
    show "\<exists>x t. xhci_session E (x86 P) (tables P m) mmio po s = Ret x (s\<lparr>trace := trace s @ t\<rparr>) \<and> True" by blast
  qed
  have rest: "completes on N [] (xhci_loop E (x86 P) (tables P m) po ds :: (unit, 'z kernel_scheme) prog) (\<lambda>_. True)"
    by (rule Cons.IH) (use Cons.prems in simp)
  show ?case
    unfolding xhci_loop.simps
    by (intro stage.silent.within_seq [folded completes_def] completes_mute [OF assms(1)] bars)
      (auto intro: session rest split: option.split)
qed (simp add: completes_return)

lemma completes_usb:
  assumes "console_live E N b k" and "usb_ready E P mappings po cs" and "\<forall>p\<in>set heap_pages. mappings m p \<noteq> None"
  shows "completes on N [as_line ''[ ok ] M6a complete'']
    (boot_usb E (x86 P) (tables P m) po (bus_devices cs) :: (unit, 'z kernel_scheme) prog) (\<lambda>_. True)"
proof -
  have "completes on N [] (if xs = [] then serial_println E msg else xhci_loop E (x86 P) (tables P m) po xs :: (unit, 'z kernel_scheme) prog) (\<lambda>_. True)"
    if "xs = find_xhci (bus_devices cs)" for xs msg
    using that by (simp add: completes_mute [OF assms(1)] completes_xhci_loop [OF assms])
  note first = this [OF refl]
  show ?thesis
    unfolding boot_usb_def Let_def
    by (rule completes_as [OF completes_seq [OF first completes_print(2) [OF assms(1)]]]) simp
qed

definition keyboard_log :: "string list" where
  "keyboard_log = [as_line ''[ ok ] keyboard IRQ1 handler registered'', [CHR 0x0A] @ ''> '', as_line [],
     as_line (''[ ok ] M5 complete '' @ EM_DASH @ '' keyboard working'')]"

lemma completes_keyboard:
  assumes "console_live E N b k"
  shows "completes True N keyboard_log (boot_keyboard E) (\<lambda>_. True)"
  unfolding boot_keyboard_def init_keyboard_def keyboard_log_def
  by (rule completes_as, rule completes_seq [OF completes_return], rule TrueI,
      rule completes_seq [OF completes_print(2) [OF assms]], rule completes_seq [OF completes_print(1) [OF assms]],
      rule completes_bind [OF completes_read_line [OF assms]], rule completes_seq [OF completes_print(2) [OF assms]],
      rule completes_seq [OF completes_mute [OF assms]], rule completes_print(2) [OF assms]) simp

end
