(* ===== verification/Boot_Complete.thy ===== *)
theory Boot_Complete
  imports Boot_Stages
begin

text \<open>
  The stages of \<open>kernel_main\<close> together: on a machine whose parts answer, the kernel gets through
  every stage of the boot and reaches the animation, without a panic and without getting stuck;
  and what it does when the bootloader leaves something out.
\<close>

section \<open>The whole boot\<close>

text \<open>The framebuffer, if the bootloader provides one, is as it describes it.\<close>

definition screen_ready :: "boot_info \<Rightarrow> screen \<Rightarrow> bool" where
  "screen_ready B s \<longleftrightarrow> (has_framebuffer B \<longrightarrow> framebuffer_ok (fb s))"

text \<open>From \<open>s\<close> to \<open>s'\<close> the kernel logged \<open>ms\<close>; a screen there is black.\<close>

definition advanced :: "boot_info \<Rightarrow> string list \<Rightarrow> screen \<Rightarrow> screen \<Rightarrow> bool" where
  "advanced B ms s s' \<longleftrightarrow> kernel_ok s' \<and> ring_cap (BUF s') = ring_cap (BUF s) \<and> (\<exists>t. trace s' = trace s @ t \<and> said ms t) \<and>
     (has_framebuffer B \<longrightarrow> framebuffer_ok (fb s') \<and> all_black (fb s'))"

lemma advanced_steady:
  assumes "advanced B ms s s'" and "steady ns s' s''"
  shows "advanced B (ms @ ns) s s''"
proof -
  have "fb s'' = fb s'" by (rule screen_fields) (use assms(2) in \<open>simp add: steady_def\<close>)
  with assms show ?thesis by (auto simp: advanced_def steady_def intro: said_append)
qed

lemma logs_line:
  assumes "console_live E N b k" and "advanced B ms s s0"
  obtains s1 where "serial_println E m s0 = Ret () s1" "advanced B (ms @ [as_line m]) s s1"
    "interrupts_on s0 \<longrightarrow> interrupts_on s1"
proof -
  have "kernel_ok s0" using assms(2) by (simp add: advanced_def)
  then obtain x s1 where s1: "serial_println E m s0 = Ret x s1" "steady [as_line m] s0 s1"
    using completesD [OF completes_print(2) [OF assms(1)]] by blast
  show ?thesis
    by (rule that [OF _ advanced_steady [OF assms(2) s1(2)]]) (use s1 in \<open>auto simp: steady_def\<close>)
qed

lemma clear_black:
  assumes "framebuffer_ok f"
  shows "\<exists>buf. clear_framebuffer HARDCORE_BLACK f = Ret () (f\<lparr>buffer := buf\<rparr>) \<and>
    framebuffer_ok (f\<lparr>buffer := buf\<rparr>) \<and> all_black (f\<lparr>buffer := buf\<rparr>)"
proof -
  let ?c = "(canvas_new (info f))\<lparr>c_buf := buffer f\<rparr>"
  have ok: "canvas_ok ?c" using assms by (simp add: framebuffer_ok_def canvas_ok_def canvas_new_simps)
  obtain buf where b: "canvas_clear HARDCORE_BLACK ?c = Ret () (?c\<lparr>c_buf := buf\<rparr>)" "length buf = length (buffer f)"
      "shows_picture ?c buf (\<lambda>_ _. HARDCORE_BLACK)"
    using canvas_clear_run [OF ok, of HARDCORE_BLACK] by auto
  have "for_chunks_exact (bytes_per_pixel (info f)) (write_pixel (pixel_format (info f)) HARDCORE_BLACK) (buffer f) = Ret () buf"
    using b(1) by (auto simp: canvas_clear_def on_buf_def canvas_new_simps canvas_new_def split: outcome.splits)
  then show ?thesis
    using assms b(2,3) by (intro exI [of _ buf]) (simp add: clear_framebuffer_def framebuffer_ok_def all_black_def)
qed

lemma boot_screen_run:
  assumes "console_live E N b k" and "screen_ready B s" and "kernel_ok s"
  shows "\<exists>s'. boot_screen E B s = Ret () s' \<and> advanced B [] s s'"
proof -
  obtain n where uart: "uart_drains E n" "n < fuel E" using assms(1) by (auto simp: console_live_def)
  have print: "\<exists>t. serial_println E m u = Ret () (u\<lparr>trace := trace u @ t\<rparr>)" for m and u :: screen
    using println_run [OF uart] by metis
  show ?thesis
  proof (cases "has_framebuffer B")
    case True
    with assms(2) obtain buf where f: "clear_framebuffer HARDCORE_BLACK (fb s) = Ret () ((fb s)\<lparr>buffer := buf\<rparr>)"
        "framebuffer_ok ((fb s)\<lparr>buffer := buf\<rparr>)" "all_black ((fb s)\<lparr>buffer := buf\<rparr>)"
      using clear_black [of "fb s"] by (auto simp: screen_ready_def)
    let ?s1 = "s\<lparr>fb := (fb s)\<lparr>buffer := buf\<rparr>\<rparr>"
    obtain t where "boot_screen E B s = Ret () (?s1\<lparr>trace := trace ?s1 @ t\<rparr>)"
      using True print [of _ ?s1] by (auto simp: boot_screen_def seq_run on_fb_def f(1))
    moreover have "kernel_ok ?s1" using assms(3) by (simp add: kernel_ok_def kbd_ok_def)
    ultimately show ?thesis
      using f(2,3) by (intro exI [of _ "?s1\<lparr>trace := trace ?s1 @ t\<rparr>"]) (simp add: advanced_def said_nothing)
  next
    case False
    then obtain t where "boot_screen E B s = Ret () (s\<lparr>trace := trace s @ t\<rparr>)"
      using print by (auto simp: boot_screen_def)
    with False assms(3) show ?thesis by (simp add: advanced_def said_nothing)
  qed
qed

text \<open>The stages up to the first one that needs the memory the bootloader mapped.\<close>

definition early_log :: "string list" where
  "early_log = banner_log @ tables_log"

lemma early_stages_run:
  fixes s :: screen
  assumes "kernel_ok s" and "console_live E (ring_cap (BUF s)) b k" and "screen_ready B s" and "tables_ready P"
  shows "\<exists>s'. (\<forall>K. seq (boot_banner E) (seq (boot_screen E B) (seq (boot_tables E P) K)) s = (K s' :: (unit, screen) outcome)) \<and>
    advanced B early_log s s'"
proof -
  obtain s0 where s0: "boot_banner E s = Ret () s0" "steady banner_log s s0"
    using completesD [OF completes_banner [OF assms(2)] assms(1)] by auto
  have f0: "kernel.more s0 = kernel.more s" "kernel_ok s0" "ring_cap (BUF s0) = ring_cap (BUF s)"
    using s0(2) by (simp_all add: steady_def)
  obtain s1 where s1: "boot_screen E B s0 = Ret () s1" "advanced B [] s0 s1"
    using boot_screen_run [OF assms(2) _ f0(2), of B] assms(3) screen_fields(1) [OF f0(1)] by (auto simp: screen_ready_def)
  have a1: "advanced B (banner_log @ []) s s1"
    using s0(2) s1(2) by (auto simp: advanced_def steady_def dest: said_append)
  have "console_live E (ring_cap (BUF s1)) b k" "kernel_ok s1" using assms(2) a1 by (simp_all add: advanced_def)
  from completesD [OF completes_tables [OF this(1) assms(4)] this(2)] obtain s2 where
    s2: "boot_tables E P s1 = Ret () s2" "steady tables_log s1 s2" by auto
  with s0(1) s1(1) advanced_steady [OF a1 s2(2)] show ?thesis by (auto simp: seq_run early_log_def)
qed

definition late_log :: "(u32 \<Rightarrow> u32) \<Rightarrow> string list" where
  "late_log cs = [as_line ''[ ok ] paging + 8192 KiB heap online''] @ heap_log @ timer_log @ pci_log cs @
     [as_line ''[ ok ] M6a complete''] @ keyboard_log"

lemma wakes_late:
  assumes "console_live E N b k" and "memory_ready P B mappings po" and "config_mechanism E cs" and "usb_ready E P mappings po cs"
  shows "wakes N (late_log cs) (bind (boot_memory E P B) (\<lambda>(po, pg).
     seq (boot_heap_check E) (seq (boot_timer E) (bind (boot_pci E) (\<lambda>ds.
     seq (boot_usb E (x86 P) (tables P (mapper pg)) po ds) (boot_keyboard E :: (unit, 'z kernel_scheme) prog)))))) (\<lambda>_. True)"
  unfolding late_log_def
proof (rule bind_wakes [OF completes_memory [OF assms(1,2)]])
  fix x assume "case x of (po', pg) \<Rightarrow> po' = po \<and> (\<forall>p\<in>set heap_pages. mappings (mapper pg) p \<noteq> None)"
  then obtain pg where x: "x = (po, pg)" "\<forall>p\<in>set heap_pages. mappings (mapper pg) p \<noteq> None" by (cases x) simp
  have "completes True N ([as_line ''[ ok ] M6a complete''] @ keyboard_log)
      (seq (boot_usb E (x86 P) (tables P (mapper pg)) po ds) (boot_keyboard E :: (unit, 'z kernel_scheme) prog)) (\<lambda>_. True)"
    if "ds = bus_devices cs" for ds
    unfolding that by (rule completes_seq [OF completes_usb [OF assms(1,4) x(2)] completes_keyboard [OF assms(1)]])
  from seq_wakes [OF completes_heap_check [OF assms(1)] wakes_seq [OF wakes_timer [OF assms(1)]
      completes_bind [OF completes_pci [OF assms(1,3)] this]]]
  show "wakes N (heap_log @ timer_log @ pci_log cs @ [as_line ''[ ok ] M6a complete''] @ keyboard_log)
      (case x of (po, pg) \<Rightarrow> seq (boot_heap_check E) (seq (boot_timer E) (bind (boot_pci E) (\<lambda>ds.
        seq (boot_usb E (x86 P) (tables P (mapper pg)) po ds) (boot_keyboard E :: (unit, 'z kernel_scheme) prog))))) (\<lambda>_. True)"
    unfolding x(1) prod.case .
qed

lemma kernel_main_run:
  fixes s :: screen
  assumes "kernel_ok s" and "console_live E (ring_cap (BUF s)) b k" and "screen_ready B s" and "tables_ready P"
    and "memory_ready P B mappings po" and "config_mechanism E cs" and "usb_ready E P mappings po cs"
  shows "\<exists>s1. kernel_main E P B n s = boot_render E B n s1 \<and> advanced B (early_log @ late_log cs) s s1 \<and>
    interrupts_on s1"
proof -
  obtain s0 where s0: "\<And>K. seq (boot_banner E) (seq (boot_screen E B) (seq (boot_tables E P) K)) s = (K s0 :: (unit, screen) outcome)"
      "advanced B early_log s s0"
    using early_stages_run [OF assms(1-4)] by blast
  have ok: "console_live E (ring_cap (BUF s0)) b k" "kernel_ok s0" using assms(2) s0(2) by (simp_all add: advanced_def)
  let ?late = "bind (boot_memory E P B) (\<lambda>(po, pg). seq (boot_heap_check E) (seq (boot_timer E) (bind (boot_pci E) (\<lambda>ds.
     seq (boot_usb E (x86 P) (tables P (mapper pg)) po ds) (boot_keyboard E :: (unit, screen) prog)))))"
  obtain s1 where s1: "?late s0 = Ret () s1" "steady (late_log cs) s0 s1" "interrupts_on s1"
    using wakesD [OF wakes_late [OF ok(1) assms(5-7)] ok(2)] by auto
  have assoc: "seq (seq m k) r = seq m (seq k r)" "seq (bind f g) r = bind f (\<lambda>x. seq (g x) r)"
      "seq (case_prod h p) r = (case p of (x, y) \<Rightarrow> seq (h x y) r)"
    for m k r :: "(unit, screen) prog" and f :: "('x, screen) prog" and g and p :: "'y \<times> 'w" and h
    by (auto simp: fun_eq_iff run_simps split: outcome.split prod.split)
  have "kernel_main E P B n = seq (boot_banner E) (seq (boot_screen E B) (seq (boot_tables E P) (seq ?late (boot_render E B n))))"
    unfolding kernel_main_def assoc ..
  then have "kernel_main E P B n s = seq ?late (boot_render E B n) s0" by (simp only: s0(1))
  then have "kernel_main E P B n s = boot_render E B n s1" by (simp only: seq_run s1(1) outcome.case)
  with advanced_steady [OF s0(2) s1(2)] s1(3) show ?thesis by blast
qed

text \<open>
  C1. The kernel boots. On a machine with a console that works, a framebuffer, the documented
  crates, enough memory, a PCI bus and USB controllers that respond, the entry point gets through
  every stage without a panic and reaches the renderer, with the screen black and the lines of
  \<open>early_log\<close> and \<open>late_log\<close>, which has some of every stage but the clearing of the screen, written
  to the log in order; after \<open>n\<close> passes of the renderer's loop, each ended by a halt, the
  framebuffer shows the bubbles of the frame last drawn.
\<close>

theorem kernel_boots:
  fixes s :: screen
  assumes "kernel_ok s" and "console_live E (ring_cap (BUF s)) b k" and "has_framebuffer B" and "framebuffer_ok (fb s)"
    and "tables_ready P" and "memory_ready P B mappings po" and "config_mechanism E cs" and "usb_ready E P mappings po cs"
    and "0 < n"
  shows "\<exists>s1 s' t. kernel_entry E P B n s = render_run E n s1 \<and> all_black (fb s1) \<and> trace s1 = trace s @ t \<and>
    said (early_log @ late_log cs @ [as_line ''[ ok ] M4 rendering acid build-bubbles  [* * *]'']) t \<and>
    kernel_entry E P B n s = Hang s' \<and> displays s' (last_frame s') \<and> kernel_ok s' \<and> hlts (trace s') = hlts (trace s1) + n \<and>
    screen_ok s'"
proof -
  have "screen_ready B s" using assms(4) by (simp add: screen_ready_def)
  from kernel_main_run [OF assms(1,2) this assms(5-8)] obtain s0 where
    s0: "kernel_main E P B n s = boot_render E B n s0" "advanced B (early_log @ late_log cs) s s0"
      "interrupts_on s0" by blast
  obtain s1 where s1: "serial_println E ''[ ok ] M4 rendering acid build-bubbles  [* * *]'' s0 = Ret () s1"
      "advanced B ((early_log @ late_log cs) @ [as_line ''[ ok ] M4 rendering acid build-bubbles  [* * *]'']) s s1"
      "interrupts_on s0 \<longrightarrow> interrupts_on s1"
    by (rule logs_line [OF assms(2) s0(2)])
  note adv = s1(2) [unfolded append_assoc]
  then have fb: "framebuffer_ok (fb s1)" "all_black (fb s1)" "kernel_ok s1" "ring_cap (BUF s1) = ring_cap (BUF s)"
    using assms(3) by (simp_all add: advanced_def)
  have c: "ring_cap (BUF s1) < fuel E" "env_live E"
    using assms(2) fb(4) by (auto simp: console_live_def env_live_def timer_live_def irqs_bounded_def)
  obtain s' where s': "(render_run E n s1 :: (unit, screen) outcome) = Hang s'" "displays s' (last_frame s')" "kernel_ok s'"
      "hlts (trace s') = hlts (trace s1) + n" "screen_ok s'"
    using render_run_total [OF fb(1-3) mp [OF s1(3) s0(3)] c assms(9)] by blast
  have run: "kernel_main E P B n s = render_run E n s1" by (simp add: s0(1) boot_render_def assms(3) seq_run s1(1))
  then have "kernel_entry E P B n s = Hang s'" "kernel_entry E P B n s = render_run E n s1"
    by (simp_all add: kernel_entry_def s'(1))
  with s' fb(2) adv show ?thesis unfolding advanced_def by blast
qed

section \<open>Boots that cannot finish\<close>

text \<open>
  Parked: the log was written, and after that the processor went to sleep a number of times in \<open>J\<close>
  and printed nothing.
\<close>

definition parked_after :: "nat set \<Rightarrow> string list \<Rightarrow> screen \<Rightarrow> (unit, screen) outcome \<Rightarrow> bool" where
  "parked_after J ms s r \<longleftrightarrow> (\<exists>s' t u. r = Hang s' \<and> kernel_ok s' \<and> trace s' = trace s @ t @ u \<and> said ms t \<and>
     uart_out u = [] \<and> hlts u \<in> J)"

lemma parked_after_mono: "parked_after J ms s r \<Longrightarrow> J \<subseteq> K \<Longrightarrow> parked_after K ms s r"
  unfolding parked_after_def by blast

lemma print_then_hcf:
  assumes "console_live E N b k" and "advanced B ms s s0"
  shows "parked_after (if interrupts_on s0 then {n} else {min n 1..n}) (ms @ [as_line m]) s
    (seq (serial_println E m) (hcf n E) s0)"
proof -
  obtain s1 where s1: "serial_println E m s0 = Ret () s1" "advanced B (ms @ [as_line m]) s s1"
      "interrupts_on s0 \<longrightarrow> interrupts_on s1"
    by (rule logs_line [OF assms])
  have ok: "kernel_ok s1" "\<And>t. list_all irq_vector (irqs E t)"
    using s1(2) assms(1) by (auto simp: advanced_def console_live_def timer_live_def irqs_bounded_def)
  obtain s2 u where s2: "hcf n E s1 = (Hang s2 :: (unit, screen) outcome)" "kernel_ok s2" "trace s2 = trace s1 @ u"
      "uart_out u = []" "hlts u = (if interrupts_on s1 then n else min n 1)"
    using hcf_run [OF ok] by blast
  have "hlts u \<in> (if interrupts_on s0 then {n} else {min n 1..n})" using s1(3) s2(5) by auto
  moreover obtain t where "trace s1 = trace s @ t" "said (ms @ [as_line m]) t" using s1(2) by (auto simp: advanced_def)
  ultimately show ?thesis
    unfolding parked_after_def seq_run s1(1) outcome.case using s2(1-4) by (metis append_assoc)
qed

text \<open>
  C38. No physical memory map. If the bootloader did not map physical memory, the kernel gets as
  far as the tables, panics, logs the panic after the lines of the stages before it, and parks the
  processor: it halts, and however long the loop of halts is observed nothing more is printed.
\<close>

theorem boot_without_memory_map:
  fixes s :: screen
  assumes "kernel_ok s" and "console_live E (ring_cap (BUF s)) b k" and "screen_ready B s" and "tables_ready P"
    and "physical_memory_offset B = None" and "0 < n"
  shows "\<exists>text. parked_after {1..n} (early_log @ [as_line (''[!!] panic: '' @ text)]) s (kernel_entry E P B n s)"
proof -
  obtain s0 where s0: "\<And>K. seq (boot_banner E) (seq (boot_screen E B) (seq (boot_tables E P) K)) s = (K s0 :: (unit, screen) outcome)"
      "advanced B early_log s s0"
    using early_stages_run [OF assms(1-4)] by blast
  have "kernel_main E P B n s = Panic (ExpectFailed ''bootloader did not map physical memory'') s0"
    unfolding kernel_main_def s0(1) by (simp add: boot_memory_def run_simps assms(5))
  then have "kernel_entry E P B n s =
      seq (serial_println E (''[!!] panic: '' @ debug_text E (trace s0) ''info'')) (hcf n E) s0"
    by (simp add: kernel_entry_def panic_handler_def)
  moreover have "(if interrupts_on s0 then {n} else {min n 1..n}) \<subseteq> {1..n}" using assms(6) by auto
  ultimately show ?thesis using parked_after_mono [OF print_then_hcf [OF assms(2) s0(2)]] by (metis (no_types))
qed

text \<open>
  C39. No framebuffer. Without a framebuffer the kernel still brings everything else up, with the
  same log, says that it has nothing to render into, and parks the processor: each of \<open>n\<close> passes of
  the final loop halts once, interrupts are serviced, and nothing more is printed.
\<close>

theorem boot_without_framebuffer:
  fixes s :: screen
  assumes "kernel_ok s" and "console_live E (ring_cap (BUF s)) b k" and "\<not> has_framebuffer B" and "tables_ready P"
    and "memory_ready P B mappings po" and "config_mechanism E cs" and "usb_ready E P mappings po cs"
  shows "parked_after {n} (early_log @ late_log cs @ map as_line
    [''[ ok ] M4 rendering acid build-bubbles  [* * *]'', ''[!!] no framebuffer to render into'']) s (kernel_entry E P B n s)"
proof -
  let ?park = "seq (serial_println E ''[!!] no framebuffer to render into'') (hcf n E) :: (unit, screen) prog"
  have "screen_ready B s" using assms(3) by (simp add: screen_ready_def)
  from kernel_main_run [OF assms(1,2) this assms(4-7)] obtain s0 where
    s0: "kernel_main E P B n s = boot_render E B n s0" "advanced B (early_log @ late_log cs) s s0" "interrupts_on s0" by blast
  obtain s1 where s1: "serial_println E ''[ ok ] M4 rendering acid build-bubbles  [* * *]'' s0 = Ret () s1"
      "advanced B ((early_log @ late_log cs) @ [as_line ''[ ok ] M4 rendering acid build-bubbles  [* * *]'']) s s1"
      "interrupts_on s0 \<longrightarrow> interrupts_on s1"
    by (rule logs_line [OF assms(2) s0(2)])
  have "kernel_main E P B n s = ?park s1" using assms(3) s1(1) by (simp add: s0(1) boot_render_def seq_run)
  moreover note parked = print_then_hcf [OF assms(2) s1(2), of n "''[!!] no framebuffer to render into''"]
  ultimately have "kernel_entry E P B n s = ?park s1"
    by (auto simp: kernel_entry_def parked_after_def)
  with parked mp [OF s1(3) s0(3)] show ?thesis by simp
qed

section \<open>A machine that boots\<close>

text \<open>
  One xHCI controller at 00:04.0 with its registers at 0xFEBF0000, a timer and a keyboard
  interrupt in every halt, the keyboard reporting the Enter key, and 64 MiB of memory.
\<close>

definition boot_space :: "u32 \<Rightarrow> u32" where
  "boot_space a = (if a = 0x80002014 then 0 else demo_space a)"

definition boot_env :: env where
  "boot_env = xhci_env\<lparr>fuel := 600, port8 := (\<lambda>t p. if p = 0x60 then 0x1C else 0x60),
     port32 := (\<lambda>t p. case last t of Out32 q a \<Rightarrow> boot_space a | _ \<Rightarrow> 0), irqs := (\<lambda>_. [32, 33])\<rparr>"

definition demo_platform :: "(u64 \<Rightarrow> (u64 \<times> page_table_flag set) option) platform" where
  "demo_platform = \<lparr>x86 = x86_reference, gdt_api = gdt_reference, paging_api = flat_mapper, boot_mmu = demo_mmu,
     offset_page_table = (\<lambda>_ _. Map.empty), tables = (\<lambda>_. demo_mmu), stack_addr = 0x10000, tss_addr = 0x8000\<rparr>"

definition demo_boot_info :: boot_info where
  "demo_boot_info = \<lparr>has_framebuffer = True, physical_memory_offset = Some 0, boot_memory_regions = big_region\<rparr>"

lemma boot_env_simps [simp]:
  "fuel boot_env = 600" "irqs boot_env t = [32, 33]" "port8 boot_env t p = (if p = 0x60 then 0x1C else 0x60)"
  "mmio8 boot_env = mmio8 xhci_env" "mmio32 boot_env = mmio32 xhci_env" "heap_alloc boot_env = heap_alloc heap_env"
  by (simp_all add: boot_env_def xhci_env_def heap_env_def)

lemma boot_env_uart: "uart_drains boot_env 0"
  by (simp add: uart_drains_def thr_empty_def COM1_def)

lemma boot_env_console: "console_live boot_env 255 2 1"
proof -
  have "CHR 0x0A \<in> set (typed sh (scancodes (drop (length t) (hlt_trace boot_env t))))" for t sh
    by (simp add: hlt_trace_def irq_events_def scancodes_def as_u8.simps PIC_1_OFFSET_def
        typed.simps shift_after.simps scancode_to_char_def scancode_table_def)
  moreover have "timer_live boot_env 2"
    by (simp add: timer_live_def irqs_bounded_def irq_vector_def as_u8.simps PIC_1_OFFSET_def)
  ultimately show ?thesis using boot_env_uart by (auto simp: console_live_def intro!: exI [of _ "0 :: nat"])
qed

lemma boot_space_bars:
  assumes "visible boot_space c"
  shows "bar_raw boot_space c 0 = 0xFEBF0004" "bar_raw boot_space c (Suc 0) = 0"
proof -
  obtain b d f where c: "c = PciConfig b d f" by (cases c)
  have ca: "config_address b d f r = config_address b d f 0 + ucast r" if "unat r mod 4 = 0" for r
  proof -
    have "unat r div 4 * 4 = unat r" "unat r < 256" using that unsigned_less [of r, where ?'a = nat] by auto
    then have sum: "unat (config_address b d f 0) + unat (ucast r :: u32) = unat (config_address b d f r)"
      by (simp add: config_address_value unat_ucast)
    moreover have "unat (config_address b d f r) < 2 ^ 32"
      using unsigned_less [of "config_address b d f r", where ?'a = nat] by simp
    ultimately have "unat (config_address b d f 0 + ucast r) = unat (config_address b d f r)"
      by (subst unat_add_lem [THEN iffD1]) simp_all
    then show ?thesis by (simp only: word_unat_eq_iff)
  qed
  have m: "unat (config_address b d f 0) mod 256 = 0"
    by (simp add: config_address_value mod_add_eq [symmetric] mod_mult_right_eq)
  have "boot_space (config_address b d f 0) \<noteq> 0xFFFFFFFF"
    using assms by (auto simp: visible_def present_def reg_vendor_def reg_def c)
  then have "config_address b d f 0 = 0x80002000"
    using m by (auto simp: boot_space_def demo_space_def split: if_splits)
  then show "bar_raw boot_space c 0 = 0xFEBF0004" "bar_raw boot_space c (Suc 0) = 0"
    using ca [of "0x10"] ca [of "0x14"] by (simp_all add: bar_raw_def reg_def c boot_space_def demo_space_def)
qed

lemma boot_env_xhci:
  "xhci_setting boot_env x86_reference demo_mmu 0 0xFEBF0000 demo_regs 0x08001040"
  "ports_respond boot_env demo_regs (\<lambda>_. False) 0" "doorbells_above boot_env demo_regs"
proof -
  have still: "settles boot_env a 0 t Q = settles xhci_env a 0 t Q" for a t Q by (simp add: settles_def)
  have "xhci_responds boot_env demo_regs 0"
    by (auto simp: xhci_responds_def settles_def xhci_env_def HCH_def CNR_def PRC_def HCRST_def op_base_def demo_regs_def)
  moreover have "xhci_at boot_env 0xFEBF0000 0 demo_regs 0x08001040"
    using settingD(3) [OF xhci_env_setting] unfolding xhci_at_def boot_env_simps .
  moreover have "dma_heap boot_env x86_reference demo_mmu 0" by (rule demo_dma_heap) simp
  ultimately show "xhci_setting boot_env x86_reference demo_mmu 0 0xFEBF0000 demo_regs 0x08001040"
    using boot_env_uart x86_reference_documented by (auto simp: xhci_setting_def intro!: exI [of _ "0 :: nat"])
  show "ports_respond boot_env demo_regs (\<lambda>_. False) 0" "doorbells_above boot_env demo_regs"
    using xhci_env_ports by (simp_all add: ports_respond_def doorbells_above_def still)
qed

lemma boot_env_usb: "usb_ready boot_env demo_platform (\<lambda>m. m) 0 boot_space"
proof -
  have "mmio = 0xFEBF0000"
    if d: "d \<in> set (find_xhci (bus_devices boot_space))" and base: "Option.bind (dev_bars d ! 0) memory_base = Some mmio" for d mmio
  proof -
    obtain c where c: "visible boot_space c" "d = the_device boot_space c"
      using d by (auto simp: find_xhci_def bus_devices_def)
    have "dev_bars d ! 0 = Some (decode_bar (bar_raw boot_space c 0) (bar_raw boot_space c (Suc 0)))"
      using bars_upto_nth [of 0 6 boot_space c] by (simp add: c(2) the_device_def split: prod.splits)
    then have "dev_bars d ! 0 = Some (Memory64 0xFEBF0000 False)"
      by (simp add: boot_space_bars [OF c(1)] decode_bar_def bit_numeral_rec)
    with base show ?thesis by simp
  qed
  note only = this
  show ?thesis
    unfolding usb_ready_def
  proof (intro allI impI)
    fix m d mmio
    assume "d \<in> set (find_xhci (bus_devices boot_space))" "Option.bind (dev_bars d ! 0) memory_base = Some mmio"
    then have "mmio = 0xFEBF0000" by (rule only)
    moreover have "x86 demo_platform = x86_reference" "tables demo_platform m = demo_mmu"
      by (simp_all add: demo_platform_def)
    ultimately show "\<exists>R hcs1 attached k. xhci_setting boot_env (x86 demo_platform) (tables demo_platform m) 0 mmio R hcs1 \<and>
        ports_respond boot_env R attached k \<and> k < fuel boot_env \<and> doorbells_above boot_env R"
      using boot_env_xhci by (metis boot_env_simps(1) zero_less_numeral)
  qed
qed

lemma demo_platform_ready:
  "tables_ready demo_platform" "memory_ready demo_platform demo_boot_info (\<lambda>m. m) 0"
proof -
  show "tables_ready demo_platform"
    by (simp add: tables_ready_def demo_platform_def x86_reference_documented gdt_reference_documented canonical_def)
  have map: "map_ok big_region"
    by (simp add: map_ok_def big_region_def region_ok_def page_aligned_def)
  have doc: "mapper_documented flat_mapper (\<lambda>m. m) frame_supply (allocator_ok x86_reference)"
    by (auto simp: mapper_documented_def flat_mapper_def intro!: exI [of _ "0 :: nat"])
  have "filter (\<lambda>f. 0x200000 \<le> f) (usable_addrs big_region) = usable_addrs big_region"
    using usable_addrs_props [OF map] by (intro filter_True) (auto simp: in_usable_def big_region_def word_le_nat_alt)
  then have "length (filter (\<lambda>f. 0x200000 \<le> f) (usable_addrs big_region)) = 16384"
    by (simp add: usable_addrs_def big_region_def step_range_def)
  then show "memory_ready demo_platform demo_boot_info (\<lambda>m. m) 0"
    by (simp add: memory_ready_def demo_platform_def demo_boot_info_def x86_reference_documented map doc demo_mmu_def canonical_def)
qed

lemma demo_screen_ready:
  "kernel_ok demo_screen" "framebuffer_ok (fb demo_screen)" "console_live boot_env (ring_cap (BUF demo_screen)) 2 1"
proof -
  show "kernel_ok demo_screen" "framebuffer_ok (fb demo_screen)"
    by (simp_all add: kernel_ok_def kbd_ok_def demo_screen_def ring_new_def BUF_SIZE_def ring_inv_def ring_cap_def
        framebuffer_ok_def canvas_ok_def canvas_new_def)
  have "ring_cap (BUF demo_screen) = 255"
    by (simp add: demo_screen_def ring_new_def BUF_SIZE_def ring_cap_def)
  then show "console_live boot_env (ring_cap (BUF demo_screen)) 2 1" using boot_env_console by simp
qed

lemma boot_env_config: "config_mechanism boot_env boot_space"
  by (simp add: config_mechanism_def boot_env_def)

theorem kernel_boots_witness:
  "\<exists>s1 s'. kernel_entry boot_env demo_platform demo_boot_info 5 demo_screen = render_run boot_env 5 s1 \<and>
     kernel_entry boot_env demo_platform demo_boot_info 5 demo_screen = Hang s' \<and> displays s' (last_frame s') \<and>
     hlts (trace s') = hlts (trace s1) + 5"
proof -
  have "has_framebuffer demo_boot_info" by (simp add: demo_boot_info_def)
  then show ?thesis
    using kernel_boots [OF demo_screen_ready(1,3) _ demo_screen_ready(2) demo_platform_ready boot_env_config boot_env_usb, of 5]
    by auto
qed

theorem boot_without_memory_map_witness:
  "\<exists>text. parked_after {1..5} (early_log @ [as_line (''[!!] panic: '' @ text)]) demo_screen
     (kernel_entry boot_env demo_platform (demo_boot_info\<lparr>physical_memory_offset := None\<rparr>) 5 demo_screen)"
proof (rule boot_without_memory_map [OF demo_screen_ready(1,3) _ demo_platform_ready(1)])
  show "screen_ready (demo_boot_info\<lparr>physical_memory_offset := None\<rparr>) demo_screen"
    using demo_screen_ready(2) by (simp add: screen_ready_def)
qed simp_all

theorem boot_without_framebuffer_witness:
  "parked_after {5} (early_log @ late_log boot_space @ map as_line
     [''[ ok ] M4 rendering acid build-bubbles  [* * *]'', ''[!!] no framebuffer to render into'']) demo_screen
     (kernel_entry boot_env demo_platform (demo_boot_info\<lparr>has_framebuffer := False\<rparr>) 5 demo_screen)"
proof (rule boot_without_framebuffer [OF demo_screen_ready(1,3) _ demo_platform_ready(1) _ boot_env_config boot_env_usb])
  show "memory_ready demo_platform (demo_boot_info\<lparr>has_framebuffer := False\<rparr>) (\<lambda>m. m) 0"
    using demo_platform_ready(2) by (simp add: memory_ready_def)
qed simp

end
