(* ===== verification/Launcher.thy ===== *)
theory Launcher
  imports Main
begin

text \<open>
  \<^verbatim>\<open>os/src/main.rs\<close>: the host program that starts QEMU on a disk image. The host is a
  parameter: its environment variables, which files exist, and what starting a process does.
  The two image paths are fixed when the program is built.
\<close>

section \<open>The program\<close>

text \<open>The result of \<open>Command::status\<close>: an exit status, without a code after a signal, or an error.\<close>

datatype spawn_result = Exited "int option" | SpawnError string

record host =
  env_var :: "string \<Rightarrow> string option"
  path_exists :: "string \<Rightarrow> bool"
  spawn :: "string \<Rightarrow> string list \<Rightarrow> spawn_result"

record images =
  BIOS_IMAGE :: string
  UEFI_IMAGE :: string

text \<open>What a run shows: the lines on standard error, the process started, the exit code.\<close>

record run_log =
  stderr :: "string list"
  launched :: "(string \<times> string list) option"
  exit_code :: int

abbreviation bslash :: string where
  "bslash \<equiv> [CHR 0x5C]"

definition qemu_candidates :: "string list" where
  "qemu_candidates = [
     ''C:'' @ bslash @ ''msys64'' @ bslash @ ''clangarm64'' @ bslash @ ''bin'' @ bslash @ ''qemu-system-x86_64.exe'',
     ''C:'' @ bslash @ ''Program Files'' @ bslash @ ''qemu'' @ bslash @ ''qemu-system-x86_64.exe'']"

definition find_qemu :: "host \<Rightarrow> string" where
  "find_qemu H = (case env_var H ''QEMU'' of
     Some q \<Rightarrow> q
   | None \<Rightarrow> (case find (path_exists H) qemu_candidates of
       Some c \<Rightarrow> c
     | None \<Rightarrow> ''qemu-system-x86_64''))"

text \<open>The arguments common to both modes.\<close>

definition device_args :: "bool \<Rightarrow> string list" where
  "device_args headless = [''-device'', ''qemu-xhci'', ''-device'', ''usb-kbd'', ''-serial'', ''stdio'', ''-no-reboot''] @
     (if headless then [''-display'', ''none''] else [])"

definition run_qemu :: "host \<Rightarrow> string list \<Rightarrow> string \<Rightarrow> string list \<Rightarrow> run_log" where
  "run_qemu H err qemu cmd =
     (let err = err @ [''punkos :: launching '' @ qemu @ '' ...''] in
      case spawn H qemu cmd of
        Exited code \<Rightarrow> \<lparr>stderr = err, launched = Some (qemu, cmd),
          exit_code = (case code of Some c \<Rightarrow> c | None \<Rightarrow> 0)\<rparr>
      | SpawnError e \<Rightarrow> \<lparr>stderr = err @ [
          ''punkos :: could not launch QEMU ('' @ qemu @ ''): '' @ e,
          ''punkos :: install QEMU (qemu-system-x86_64) and put it on PATH, or set QEMU=<path>.'',
          ''punkos :: the disk images above are already built and bootable.''],
          launched = Some (qemu, cmd), exit_code = 1\<rparr>)"

definition launcher_main :: "host \<Rightarrow> images \<Rightarrow> string list \<Rightarrow> run_log" where
  "launcher_main H img argv =
     (let args = drop 1 argv;
          uefi = list_ex (\<lambda>a. a = ''--uefi'') args;
          headless = list_ex (\<lambda>a. a = ''--headless'') args;
          qemu = find_qemu H;
          err = [''punkos :: BIOS image = '' @ BIOS_IMAGE img, ''punkos :: UEFI image = '' @ UEFI_IMAGE img] in
      if uefi then
        (case env_var H ''OVMF_PATH'' of
           Some ovmf \<Rightarrow> run_qemu H err qemu
             ([''-bios'', ovmf, ''-drive'', ''format=raw,file='' @ UEFI_IMAGE img] @ device_args headless)
         | None \<Rightarrow> \<lparr>stderr = err @ [''--uefi needs an OVMF firmware: set OVMF_PATH=<BOOTX64 OVMF .fd>''],
             launched = None, exit_code = 2\<rparr>)
      else run_qemu H err qemu ([''-drive'', ''format=raw,file='' @ BIOS_IMAGE img] @ device_args headless))"

section \<open>What QEMU is told\<close>

text \<open>QEMU's reading of an argument list: every option used here takes a value, except \<open>-no-reboot\<close>.\<close>

fun options :: "string list \<Rightarrow> (string \<times> string option) list" where
  "options [] = []"
| "options [a] = [(a, None)]"
| "options (a # b # xs) =
     (if a = ''-no-reboot'' then (a, None) # options (b # xs) else (a, Some b) # options xs)"

lemma options_two: "a \<noteq> ''-no-reboot'' \<Longrightarrow> options (a # b # xs) = (a, Some b) # options xs"
  by simp

lemma options_device_args:
  "options (device_args headless) =
     [(''-device'', Some ''qemu-xhci''), (''-device'', Some ''usb-kbd''), (''-serial'', Some ''stdio''), (''-no-reboot'', None)] @
     (if headless then [(''-display'', Some ''none'')] else [])"
  by (simp add: device_args_def)

lemma run_qemu_launched:
  "launched (run_qemu H err q cmd) = Some (q, cmd)"
  "exit_code (run_qemu H err q cmd) = (case spawn H q cmd of Exited (Some c) \<Rightarrow> c | Exited None \<Rightarrow> 0 | SpawnError e \<Rightarrow> 1)"
  by (simp_all add: run_qemu_def Let_def split: spawn_result.splits option.splits)

lemma launcher_main_run:
  fixes H :: host and img :: images and argv :: "string list"
  defines "r \<equiv> launcher_main H img argv"
    and "uefi \<equiv> ''--uefi'' \<in> set (tl argv)" and "headless \<equiv> ''--headless'' \<in> set (tl argv)"
  shows "if uefi \<and> env_var H ''OVMF_PATH'' = None then launched r = None \<and> exit_code r = 2
    else \<exists>cmd. launched r = Some (find_qemu H, cmd) \<and>
      options cmd = (if uefi then [(''-bios'', env_var H ''OVMF_PATH'')] else []) @
        [(''-drive'', Some (''format=raw,file='' @ (if uefi then UEFI_IMAGE img else BIOS_IMAGE img))),
         (''-device'', Some ''qemu-xhci''), (''-device'', Some ''usb-kbd''), (''-serial'', Some ''stdio''),
         (''-no-reboot'', None)] @ (if headless then [(''-display'', Some ''none'')] else []) \<and>
      exit_code r = (case spawn H (find_qemu H) cmd of
        Exited (Some c) \<Rightarrow> c | Exited None \<Rightarrow> 0 | SpawnError e \<Rightarrow> 1)"
proof -
  have flags: "list_ex (\<lambda>a. a = f) (drop 1 argv) \<longleftrightarrow> f \<in> set (tl argv)" for f
    by (simp add: list_ex_iff drop_Suc)
  show ?thesis
    unfolding r_def launcher_main_def Let_def flags uefi_def headless_def
    by (cases "env_var H ''OVMF_PATH''"; cases "''--uefi'' \<in> set (tl argv)")
      (simp_all add: run_qemu_launched options_device_args)
qed

text \<open>
  C37. The launcher starts nothing and exits with code 2 exactly when UEFI is asked for and no
  firmware is configured. Otherwise it starts one process, the QEMU that \<open>find_qemu\<close> names, with
  the disk image of the mode asked for, the firmware in UEFI mode only, an xHCI controller and a
  USB keyboard, the serial port on standard output, no reboot, and no display when headless; its
  exit code is QEMU's, 0 when QEMU was killed by a signal, 1 when it could not be started.
\<close>

theorem launcher_main_correct:
  fixes H :: host and img :: images and argv :: "string list"
  defines "r \<equiv> launcher_main H img argv"
    and "uefi \<equiv> ''--uefi'' \<in> set (tl argv)" and "headless \<equiv> ''--headless'' \<in> set (tl argv)"
  shows "if uefi \<and> env_var H ''OVMF_PATH'' = None then launched r = None \<and> exit_code r = 2
    else \<exists>cmd. launched r = Some (find_qemu H, cmd) \<and>
      options cmd = (if uefi then [(''-bios'', env_var H ''OVMF_PATH'')] else []) @
        [(''-drive'', Some (''format=raw,file='' @ (if uefi then UEFI_IMAGE img else BIOS_IMAGE img))),
         (''-device'', Some ''qemu-xhci''), (''-device'', Some ''usb-kbd''), (''-serial'', Some ''stdio''),
         (''-no-reboot'', None)] @ (if headless then [(''-display'', Some ''none'')] else []) \<and>
      exit_code r = (case spawn H (find_qemu H) cmd of
        Exited (Some c) \<Rightarrow> c | Exited None \<Rightarrow> 0 | SpawnError e \<Rightarrow> 1)"
  unfolding r_def uefi_def headless_def by (rule launcher_main_run)

definition demo_host :: host where
  "demo_host = \<lparr>env_var = (\<lambda>v. if v = ''OVMF_PATH'' then Some ''ovmf.fd'' else None), path_exists = (\<lambda>_. False),
     spawn = (\<lambda>_ _. Exited None)\<rparr>"

theorem launcher_main_correct_witness:
  "\<exists>cmd. launched (launcher_main demo_host \<lparr>BIOS_IMAGE = ''bios.img'', UEFI_IMAGE = ''uefi.img''\<rparr> [''os'', ''--uefi'']) =
       Some (''qemu-system-x86_64'', cmd) \<and>
     (''-bios'', Some ''ovmf.fd'') \<in> set (options cmd) \<and> (''-drive'', Some ''format=raw,file=uefi.img'') \<in> set (options cmd)"
  using launcher_main_correct [where H = demo_host and img = "\<lparr>BIOS_IMAGE = ''bios.img'', UEFI_IMAGE = ''uefi.img''\<rparr>"
      and argv = "[''os'', ''--uefi'']"]
  by (auto simp: demo_host_def find_qemu_def qemu_candidates_def)

text \<open>
  The order in which QEMU is looked for: the variable, the first known location that exists,
  then whatever the search path has.
\<close>

lemma find_qemu_order:
  "env_var H ''QEMU'' = Some q \<Longrightarrow> find_qemu H = q"
  "env_var H ''QEMU'' = None \<Longrightarrow> path_exists H (qemu_candidates ! 0) \<Longrightarrow> find_qemu H = qemu_candidates ! 0"
  "env_var H ''QEMU'' = None \<Longrightarrow> \<not> path_exists H (qemu_candidates ! 0) \<Longrightarrow> path_exists H (qemu_candidates ! 1) \<Longrightarrow>
     find_qemu H = qemu_candidates ! 1"
  "env_var H ''QEMU'' = None \<Longrightarrow> \<not> path_exists H (qemu_candidates ! 0) \<Longrightarrow> \<not> path_exists H (qemu_candidates ! 1) \<Longrightarrow>
     find_qemu H = ''qemu-system-x86_64''"
  by (simp_all add: find_qemu_def qemu_candidates_def)

end
