(* ===== verification/Image_Builder.thy ===== *)
theory Image_Builder
  imports Prelude Launcher
begin

text \<open>
  \<^verbatim>\<open>os/build.rs\<close>: the build script that turns the compiled kernel into two disk images and
  tells Cargo their paths, which the launcher of \<open>Launcher\<close> has compiled in. The environment of
  the script and the \<^verbatim>\<open>bootloader\<close> crate, which makes the images, are parameters.
\<close>

section \<open>The script\<close>

text \<open>
  The host of the build: its variables (\<open>var_os\<close>), its path conventions (\<open>is_separator\<close>,
  \<open>MAIN_SEPARATOR\<close>, and which paths are a Windows drive without a root, such as \<^verbatim>\<open>C:\<close>), how a
  path is displayed, and the crate's \<open>create_disk_image\<close> for the two kinds of image, from the
  path of the kernel to the path of the image.
\<close>

type_synonym file_system = "string \<Rightarrow> string option"

record build_host =
  var_os :: "string \<Rightarrow> string option"
  is_separator :: "char \<Rightarrow> bool"
  main_separator :: char
  bare_drive :: "string \<Rightarrow> bool"
  display :: "string \<Rightarrow> string"
  bios_create :: "string \<Rightarrow> string \<Rightarrow> file_system \<Rightarrow> (string + unit) \<times> file_system"
  uefi_create :: "string \<Rightarrow> string \<Rightarrow> file_system \<Rightarrow> (string + unit) \<times> file_system"

record build_state =
  files :: file_system
  stdout :: "string list"

text \<open>\<open>Path::join\<close> with a relative file name.\<close>

definition join_path :: "build_host \<Rightarrow> string \<Rightarrow> string \<Rightarrow> string" where
  "join_path H dir name =
     (if dir = [] \<or> is_separator H (last dir) \<or> bare_drive H dir then dir @ name
      else dir @ [main_separator H] @ name)"

definition create_image :: "(string \<Rightarrow> string \<Rightarrow> file_system \<Rightarrow> (string + unit) \<times> file_system) \<Rightarrow>
    string \<Rightarrow> string \<Rightarrow> string \<Rightarrow> (unit, build_state) prog" where
  "create_image create kp path msg = (\<lambda>s. case create kp path (files s) of
     (Inr _, fs) \<Rightarrow> Ret () (s\<lparr>files := fs\<rparr>)
   | (Inl e, fs) \<Rightarrow> Panic (ExpectFailed msg) (s\<lparr>files := fs\<rparr>))"

definition println_out :: "string \<Rightarrow> (unit, build_state) prog" where
  "println_out l = (\<lambda>s. Ret () (s\<lparr>stdout := stdout s @ [l]\<rparr>))"

definition build_main :: "build_host \<Rightarrow> (unit, build_state) prog" where
  "build_main H =
     bind (expect (var_os H ''CARGO_BIN_FILE_KERNEL_kernel'')
       ''kernel artifact dependency not found (need nightly + bindeps)'') (\<lambda>kernel_path.
     bind (case var_os H ''OUT_DIR'' of
         None \<Rightarrow> fail (ExplicitPanic ''called `Option::unwrap()` on a `None` value'') | Some d \<Rightarrow> return d) (\<lambda>out_dir.
     let bios = join_path H out_dir ''punkos-bios.img'' in
     seq (create_image (bios_create H) kernel_path bios ''failed to create BIOS disk image'')
     (let uefi = join_path H out_dir ''punkos-uefi.img'' in
      seq (create_image (uefi_create H) kernel_path uefi ''failed to create UEFI disk image'')
      (run_all [
         println_out (''cargo:rustc-env=BIOS_IMAGE='' @ display H bios),
         println_out (''cargo:rustc-env=UEFI_IMAGE='' @ display H uefi),
         println_out (''cargo:rerun-if-changed='' @ display H kernel_path)]))))"

section \<open>From the build to the launcher\<close>

text \<open>What Cargo makes of the script's output: the value of the last \<open>rustc-env\<close> line for a variable.\<close>

definition env_line :: "string \<Rightarrow> string" where
  "env_line v = ''cargo:rustc-env='' @ v @ ''=''"

definition rustc_env :: "string list \<Rightarrow> string \<Rightarrow> string option" where
  "rustc_env ls v = (case filter (\<lambda>l. take (length (env_line v)) l = env_line v) ls of
     [] \<Rightarrow> None | hits \<Rightarrow> Some (drop (length (env_line v)) (last hits)))"

text \<open>The paths \<open>env!\<close> compiles into the launcher.\<close>

definition built_images :: "build_state \<Rightarrow> images option" where
  "built_images s = (case (rustc_env (stdout s) ''BIOS_IMAGE'', rustc_env (stdout s) ''UEFI_IMAGE'') of
     (Some b, Some u) \<Rightarrow> Some \<lparr>BIOS_IMAGE = b, UEFI_IMAGE = u\<rparr> | _ \<Rightarrow> None)"

text \<open>
  What the crate documents: \<open>create_disk_image\<close> reads the kernel and writes the image to the given
  path; \<open>mk\<close> is the image it makes of a kernel. It touches no other file. It fails when there is no
  kernel, and may fail otherwise.
\<close>

definition creates :: "(string \<Rightarrow> string \<Rightarrow> file_system \<Rightarrow> (string + unit) \<times> file_system) \<Rightarrow> (string \<Rightarrow> string) \<Rightarrow> bool" where
  "creates create mk \<longleftrightarrow> (\<forall>kp path fs r fs'. create kp path fs = (r, fs') \<longrightarrow>
     (\<forall>q. q \<noteq> path \<longrightarrow> fs' q = fs q) \<and> (r = Inr () \<longrightarrow> (\<exists>k. fs kp = Some k \<and> fs' path = Some (mk k))))"

lemma join_path_names: "join_path H d n = join_path H d m \<longleftrightarrow> n = m"
  by (simp add: join_path_def)

lemma rustc_env_lines:
  "rustc_env [env_line ''BIOS_IMAGE'' @ b, env_line ''UEFI_IMAGE'' @ u, ''cargo:rerun-if-changed='' @ k] ''BIOS_IMAGE'' = Some b"
  "rustc_env [env_line ''BIOS_IMAGE'' @ b, env_line ''UEFI_IMAGE'' @ u, ''cargo:rerun-if-changed='' @ k] ''UEFI_IMAGE'' = Some u"
  by (simp_all add: rustc_env_def env_line_def)

lemma built_images_lines:
  assumes "stdout s = [env_line ''BIOS_IMAGE'' @ b, env_line ''UEFI_IMAGE'' @ u, ''cargo:rerun-if-changed='' @ k]"
  shows "built_images s = Some \<lparr>BIOS_IMAGE = b, UEFI_IMAGE = u\<rparr>"
  unfolding built_images_def assms rustc_env_lines by simp

lemma create_image_run:
  assumes "creates create mk" and "create_image create kp path msg s = Ret () s'"
  obtains k where "files s kp = Some k" "files s' path = Some (mk k)" "stdout s' = stdout s"
    "\<And>q. q \<noteq> path \<Longrightarrow> files s' q = files s q"
  using assms unfolding create_image_def creates_def
  by (auto split: prod.splits sum.splits) metis

lemma create_image_succeeds:
  "fst (create kp path (files s)) = Inr () \<Longrightarrow> \<exists>s'. create_image create kp path msg s = Ret () s'"
  by (cases "create kp path (files s)") (simp add: create_image_def)

text \<open>
  C40. What is built is what is launched. If the crate makes both images of the kernel, the script
  returns, Cargo is told two paths at which the file system then holds the BIOS and the UEFI image
  of the kernel, and a launcher built with these paths hands QEMU a drive whose file is the image of
  the mode it was asked for.
\<close>

theorem build_images_launched:
  fixes L :: host
  assumes "var_os H ''CARGO_BIN_FILE_KERNEL_kernel'' = Some kp" and "var_os H ''OUT_DIR'' = Some out"
    and "files s kp = Some k" and "stdout s = []" and "\<And>p. display H p = p"
    and "creates (bios_create H) mkb" and "creates (uefi_create H) mku"
    and "\<And>path fs. fs kp = Some k \<Longrightarrow> fst (bios_create H kp path fs) = Inr () \<and> fst (uefi_create H kp path fs) = Inr ()"
    and "kp \<noteq> join_path H out ''punkos-bios.img''" and "env_var L ''OVMF_PATH'' = Some ovmf"
  shows "\<exists>s' img cmd f. build_main H s = Ret () s' \<and> built_images s' = Some img \<and>
    files s' (BIOS_IMAGE img) = Some (mkb k) \<and> files s' (UEFI_IMAGE img) = Some (mku k) \<and>
    launched (launcher_main L img argv) = Some (find_qemu L, cmd) \<and>
    (''-drive'', Some (''format=raw,file='' @ f)) \<in> set (options cmd) \<and>
    files s' f = Some (if ''--uefi'' \<in> set (tl argv) then mku k else mkb k)"
proof -
  define b u where "b = join_path H out ''punkos-bios.img''" and "u = join_path H out ''punkos-uefi.img''"
  have bu: "u \<noteq> b" by (simp add: b_def u_def join_path_names)
  obtain s1 where s1: "create_image (bios_create H) kp b ''failed to create BIOS disk image'' s = Ret () s1"
    using create_image_succeeds assms(8) [where fs = "files s" and path = b] assms(3) by blast
  obtain fb: "files s1 b = Some (mkb k)" "stdout s1 = []" "files s1 kp = Some k"
    using create_image_run [OF assms(6) s1] assms(3,4,9) by (metis b_def option.inject)
  obtain s2 where s2: "create_image (uefi_create H) kp u ''failed to create UEFI disk image'' s1 = Ret () s2"
    using create_image_succeeds assms(8) [where fs = "files s1" and path = u] fb(3) by blast
  obtain fu: "files s2 u = Some (mku k)" "stdout s2 = []" "files s2 b = Some (mkb k)"
    using create_image_run [OF assms(7) s2] fb bu by (metis option.inject)
  let ?out = "[env_line ''BIOS_IMAGE'' @ b, env_line ''UEFI_IMAGE'' @ u, ''cargo:rerun-if-changed='' @ kp]"
  let ?s' = "s2\<lparr>stdout := ?out\<rparr>" and ?img = "\<lparr>BIOS_IMAGE = b, UEFI_IMAGE = u\<rparr>"
  have run: "build_main H s = Ret () ?s'"
    using assms(1,2,5) s1 s2 fu(2)
    by (simp add: build_main_def run_simps b_def [symmetric] u_def [symmetric] println_out_def env_line_def)
  have img: "built_images ?s' = Some ?img" by (rule built_images_lines) simp
  from launcher_main_run [of argv L ?img] assms(10) obtain cmd where
    "launched (launcher_main L ?img argv) = Some (find_qemu L, cmd)"
    "(''-drive'', Some (''format=raw,file='' @ (if ''--uefi'' \<in> set (tl argv) then u else b))) \<in> set (options cmd)"
    by (auto split: if_splits)
  with run img fu show ?thesis
    by (intro exI [of _ ?s'] exI [of _ ?img] exI [of _ cmd] exI [of _ "if ''--uefi'' \<in> set (tl argv) then u else b"]) simp
qed

text \<open>A failing script tells Cargo nothing: the lines come last.\<close>

lemma build_main_fails_silently: "build_main H s = Panic p s' \<Longrightarrow> stdout s' = stdout s"
  by (auto simp: build_main_def create_image_def println_out_def run_simps Let_def expect_def fail_def return_def
      split: option.splits prod.splits sum.splits)

text \<open>A crate that prefixes the kernel with a word for the kind of image.\<close>

definition tag_image :: "string \<Rightarrow> string \<Rightarrow> string \<Rightarrow> file_system \<Rightarrow> (string + unit) \<times> file_system" where
  "tag_image tag kp path fs = (case fs kp of
     Some k \<Rightarrow> (Inr (), fs(path \<mapsto> tag @ k)) | None \<Rightarrow> (Inl ''no such file'', fs))"

definition demo_build :: build_host where
  "demo_build = \<lparr>var_os = [''CARGO_BIN_FILE_KERNEL_kernel'' \<mapsto> ''kernel'', ''OUT_DIR'' \<mapsto> ''out''],
     is_separator = (\<lambda>c. c = CHR 0x2F), main_separator = CHR 0x2F, bare_drive = (\<lambda>_. False), display = (\<lambda>p. p),
     bios_create = tag_image ''bios:'', uefi_create = tag_image ''uefi:''\<rparr>"

theorem build_images_launched_witness:
  "\<exists>s' img. build_main demo_build \<lparr>files = [''kernel'' \<mapsto> ''elf''], stdout = []\<rparr> = Ret () s' \<and>
     built_images s' = Some img \<and> files s' (UEFI_IMAGE img) = Some ''uefi:elf''"
proof -
  have c: "creates (tag_image t) (\<lambda>k. t @ k)" for t
    by (auto simp: creates_def tag_image_def split: option.splits)
  let ?s = "\<lparr>files = [''kernel'' \<mapsto> ''elf''], stdout = []\<rparr>"
  have h: "var_os demo_build ''CARGO_BIN_FILE_KERNEL_kernel'' = Some ''kernel''" "var_os demo_build ''OUT_DIR'' = Some ''out''"
      "files ?s ''kernel'' = Some ''elf''" "stdout ?s = []" "\<And>p. display demo_build p = p"
      "creates (bios_create demo_build) (\<lambda>k. ''bios:'' @ k)" "creates (uefi_create demo_build) (\<lambda>k. ''uefi:'' @ k)"
      "\<And>path fs. fs ''kernel'' = Some ''elf'' \<Longrightarrow> fst (bios_create demo_build ''kernel'' path fs) = Inr () \<and>
         fst (uefi_create demo_build ''kernel'' path fs) = Inr ()"
      "''kernel'' \<noteq> join_path demo_build ''out'' ''punkos-bios.img''" "env_var demo_host ''OVMF_PATH'' = Some ''ovmf.fd''"
    using c [of "''bios:''"] c [of "''uefi:''"] by (simp_all add: demo_build_def tag_image_def join_path_def demo_host_def)
  from build_images_launched [OF h, of "[]"] show ?thesis by force
qed

end
