(* ===== verification/Typing.thy ===== *)
theory Typing
  imports Console
begin

text \<open>
  Typing and reading as a round trip (\<open>src/kernel/src/keyboard.rs\<close>): how a user produces a
  text on the keyboard the table describes, and that the line reader gives the text back. The
  theory adds no model of code; it composes the key map, the interrupt handler, the ring buffer
  and \<open>read_line\<close>.
\<close>

section \<open>The keys of a text\<close>

text \<open>The key that produces a character, and whether shift is needed.\<close>

definition key_of :: "char \<Rightarrow> (u8 \<times> bool) option" where
  "key_of c = (case find (\<lambda>(k, plain, up). plain = c) scancode_table of
     Some (k, _) \<Rightarrow> Some (k, False)
   | None \<Rightarrow> map_option (\<lambda>(k, _). (k, True)) (find (\<lambda>(k, plain, up). up = c) scancode_table))"

text \<open>
  A keystroke: make code and break code of the key, between those of the left shift key when
  the character needs it.
\<close>

fun keystroke :: "char \<Rightarrow> u8 list" where
  "keystroke c = (case key_of c of
     None \<Rightarrow> []
   | Some (k, False) \<Rightarrow> [k, k OR 0x80]
   | Some (k, True) \<Rightarrow> [0x2A, k, k OR 0x80, 0xAA])"

definition keystrokes :: "string \<Rightarrow> u8 list" where
  "keystrokes text = concat (map keystroke text)"

lemma key_of_sound: "key_of c = Some (k, sh) \<Longrightarrow> scancode_to_char k sh = Some c"
  by (auto simp: key_of_def scancode_to_char_Some find_Some_iff split: option.splits dest!: nth_mem)

lemma key_of_typable: "c \<in> set typable \<Longrightarrow> key_of c \<noteq> None"
  using find_None_iff [of "\<lambda>(k, plain, up). up = c" scancode_table]
  by (cases "find (\<lambda>(k, plain, up). up = c) scancode_table")
    (auto simp: key_of_def typable_def find_None_iff split: option.splits)

text \<open>The keys of the table are make codes and none of them is a shift key.\<close>

lemma key_of_plain_key:
  assumes "key_of c = Some (k, sh)"
  shows "k AND 0x80 = 0" "k \<notin> {0x2A, 0x36, 0xAA, 0xB6}" "k OR 0x80 \<notin> {0x2A, 0x36, 0xAA, 0xB6}"
proof -
  have table: "list_all (\<lambda>(k, _). k AND 0x80 = 0 \<and> k \<notin> {0x2A, 0x36, 0xAA, 0xB6} \<and>
      k OR 0x80 \<notin> {0x2A, 0x36, 0xAA, 0xB6 :: u8}) scancode_table"
    by (simp add: scancode_table_def)
  obtain a b where "(k, a, b) \<in> set scancode_table"
    using key_of_sound [OF assms] by (auto simp: scancode_to_char_Some)
  with table show "k AND 0x80 = 0" "k \<notin> {0x2A, 0x36, 0xAA, 0xB6}" "k OR 0x80 \<notin> {0x2A, 0x36, 0xAA, 0xB6}"
    by (auto simp: list_all_iff)
qed

lemma keystroke_types:
  assumes "c \<in> set typable"
  shows "typed False (keystroke c) = [c]" "shift_after False (keystroke c) = False"
proof -
  obtain k sh where k: "key_of c = Some (k, sh)" using key_of_typable [OF assms] by fastforce
  have "scancode_to_char (k OR 0x80) sh' = None" for sh'
  proof (rule scancode_to_char_break)
    have "bit ((k OR 0x80) AND 0x80) 7" by (simp add: bit_simps)
    then show "(k OR 0x80) AND 0x80 \<noteq> 0" by auto
  qed
  with key_of_sound [OF k] key_of_plain_key [OF k] k
  show "typed False (keystroke c) = [c]" "shift_after False (keystroke c) = False"
    by (cases sh; simp add: typed.simps shift_after.simps)+
qed

lemma keystrokes_type:
  assumes "set typing \<subseteq> set typable"
  shows "typed False (keystrokes typing) = typing" "shift_after False (keystrokes typing) = False"
proof -
  have "typed False (keystrokes typing) = typing \<and> shift_after False (keystrokes typing) = False"
    using assms
    by (induction typing) (simp_all add: keystrokes_def typed_append shift_after_append keystroke_types del: keystroke.simps)
  then show "typed False (keystrokes typing) = typing" "shift_after False (keystrokes typing) = False" by simp_all
qed

section \<open>The reader's result is determined by the input\<close>

lemma read_line_determined:
  assumes "reader_ok E n s" and "input_within E k s = typing @ later" and "edit acc typing = Some line"
    and "k < fuel E" and "length typing \<le> m"
  shows "\<exists>s'. read_line_loop m E acc s = Ret line s' \<and> consumed s typing s'"
  using assms
proof (induction m arbitrary: acc s k typing)
  case 0
  then show ?case by simp
next
  case (Suc m)
  obtain c cs where typing: "typing = c # cs" using Suc.prems(3) by (cases typing) auto
  obtain d s1 j where s1: "read_char_blocking E s = Ret d s1" "j \<le> k"
      "trace s1 = (hlt_trace E ^^ j) (trace s)" "consumed s [d] s1"
    using read_char_blocking_live [OF Suc.prems(1) _ Suc.prems(4)] Suc.prems(2) typing
    unfolding read_char_blocking_def by fastforce
  have "input_within E k s = d # input_within E (k - j) s1"
    by (rule input_within_consumed [OF s1(4,3,2)])
  then have d: "d = c" "input_within E (k - j) s1 = cs @ later" using Suc.prems(2) typing by auto
  show ?case
  proof (cases "c = CHR 0x0A")
    case True
    then show ?thesis using s1 d Suc.prems(3) typing by (auto simp: run_simps split: if_splits)
  next
    case False
    let ?acc = "if c = CHR 0x08 then butlast acc else acc @ [c]"
    have "\<exists>s'. read_line_loop m E ?acc s1 = Ret line s' \<and> consumed s1 cs s'"
      by (rule Suc.IH [OF reader_ok_consumed [OF Suc.prems(1) s1(4)] d(2)]) (use Suc.prems False typing in auto)
    then obtain s' where "read_line_loop m E ?acc s1 = Ret line s'" "consumed s1 cs s'" by blast
    with s1 d False consumed_trans [OF s1(4)] typing show ?thesis by (fastforce simp: run_simps)
  qed
qed

section \<open>Typing a line, mistakes included\<close>

text \<open>
  A line as it is typed: before each character some wrong ones may be typed and erased, and
  the Enter key ends it.
\<close>

definition drafted :: "(string \<times> char) list \<Rightarrow> string" where
  "drafted ds = concat (map (\<lambda>(slip, c). slip @ replicate (length slip) (CHR 0x08) @ [c]) ds) @ [CHR 0x0A]"

lemma edit_plain:
  "CHR 0x0A \<notin> set w \<Longrightarrow> CHR 0x08 \<notin> set w \<Longrightarrow> edit acc (w @ cs) = edit (acc @ w) cs"
  by (induction w arbitrary: acc) auto

lemma edit_erase: "length w = n \<Longrightarrow> edit (acc @ w) (replicate n (CHR 0x08) @ cs) = edit acc cs"
  by (induction n arbitrary: w) (auto simp: butlast_append length_Suc_conv_rev)

lemma edit_drafted:
  assumes "\<And>c. c \<in> set (concat (map (\<lambda>(slip, c). slip @ [c]) ds)) \<Longrightarrow> c \<noteq> CHR 0x0A \<and> c \<noteq> CHR 0x08"
  shows "edit acc (drafted ds) = Some (acc @ map snd ds)"
  using assms
proof (induction ds arbitrary: acc)
  case (Cons d ds)
  obtain slip c where d: "d = (slip, c)" by (cases d)
  have "edit acc (drafted (d # ds)) = edit acc (slip @ replicate (length slip) (CHR 0x08) @ c # drafted ds)"
    by (simp add: drafted_def d)
  also have "\<dots> = edit (acc @ slip) (replicate (length slip) (CHR 0x08) @ c # drafted ds)"
    by (rule edit_plain) (use Cons.prems d in force)+
  also have "\<dots> = edit (acc @ [c]) (drafted ds)"
    unfolding edit_erase [OF refl] using Cons.prems [of c] d by simp
  finally show ?case using Cons.IH [of "acc @ [c]"] Cons.prems d by force
qed (simp add: drafted_def)

definition printable :: "char \<Rightarrow> bool" where
  "printable c \<longleftrightarrow> of_char c \<in> {32..126} - {96, 126 :: nat}"

lemma printable_typable: "printable c \<Longrightarrow> c \<in> set typable"
  unfolding typable_codes printable_def by blast

lemma printable_plain: "printable c \<Longrightarrow> c \<noteq> CHR 0x0A \<and> c \<noteq> CHR 0x08"
  by (auto simp: printable_def of_char_def)

lemma drafted_typable:
  assumes "list_all (\<lambda>(slip, c). list_all printable slip \<and> printable c) ds"
  shows "set (drafted ds) \<subseteq> set typable"
proof -
  have "CHR 0x0A \<in> set typable" "CHR 0x08 \<in> set typable" by (simp_all add: typable_codes of_char_def)
  with assms show ?thesis by (fastforce simp: drafted_def list_all_iff printable_typable)
qed

text \<open>
  C3. What is typed is what is read. With interrupts enabled, the user types a line on the keyboard of the table, shift
  pressed where a character needs it, with any slips erased again by the backspace key, and ends
  it with Enter. However the scancodes spread over the next \<open>k\<close> halts, interleaved with timer
  interrupts and followed by anything, \<open>read_line\<close> returns exactly the line, and leaves the
  keyboard well formed with what was typed after the Enter key, if it has arrived, buffered.
\<close>

theorem typed_line_read_back:
  assumes "kernel_ok s" and "interrupts_on s" and "ring_items (BUF s) = []" and "\<not> SHIFT s"
    and "irqs_bounded E (ring_cap (BUF s))"
    and "scancodes (drop (length (trace s)) ((hlt_trace E ^^ k) (trace s))) = keystrokes (drafted ds) @ later"
    and "list_all (\<lambda>(slip, c). list_all printable slip \<and> printable c) ds"
    and "k < fuel E" and "length (drafted ds) \<le> fuel E"
  shows "\<exists>s' u. read_line E s = Ret (map snd ds) s' \<and> kernel_ok s' \<and> trace s' = trace s @ u \<and>
    typed False (scancodes u) = drafted ds @ ring_items (BUF s')"
proof -
  note keys = keystrokes_type [OF drafted_typable [OF assms(7)]]
  have "reader_ok E (ring_cap (BUF s)) s" using assms(1,2,5) by (simp add: reader_ok_def)
  moreover have "input_within E k s = drafted ds @ typed False later"
    using assms(3,4) by (simp add: input_within_def assms(6) typed_append keys)
  moreover have "edit [] (drafted ds) = Some (map snd ds)"
    using edit_drafted [of ds "[]"] assms(7) printable_plain by (fastforce simp: list_all_iff)
  ultimately obtain s' where "read_line E s = Ret (map snd ds) s'" "consumed s (drafted ds) s'"
    unfolding read_line_def using read_line_determined [OF _ _ _ assms(8,9)] by blast
  then show ?thesis using assms(3,4) by (auto simp: consumed_def)
qed

text \<open>``Ok'' typed with a slip, three interrupts to a halt.\<close>

theorem typed_line_read_back_witness:
  "\<exists>s' u. read_line (typing_env (keystrokes (drafted [([], CHR ''O''), (''l'', CHR ''k'')]))) kernel_awake = Ret ''Ok'' s' \<and>
     kernel_ok s' \<and> trace s' = Cpu Sti # u \<and> typed False (scancodes u) = ''Ol'' @ [CHR 0x08, CHR ''k'', CHR 0x0A] @ ring_items (BUF s')"
proof -
  let ?ds = "[([], CHR ''O''), (''l'', CHR ''k'')]"
  let ?E = "typing_env (keystrokes (drafted ?ds))"
  have draft: "drafted ?ds = [CHR ''O'', CHR ''l'', CHR 0x08, CHR ''k'', CHR 0x0A]" by (simp add: drafted_def)
  have keys: "keystrokes (drafted ?ds) = [0x2A, 0x18, 0x98, 0xAA, 0x26, 0xA6, 0x0E, 0x8E, 0x25, 0xA5, 0x1C, 0x9C]"
    by (simp add: draft keystrokes_def key_of_def scancode_table_def)
  have bounded: "irqs_bounded ?E (ring_cap (BUF kernel_awake))"
    by (simp add: irqs_bounded_def typing_env_def irq_vector_def as_u8.simps PIC_1_OFFSET_def
        kernel_awake_def kernel_start_def ring_cap_def ring_new_def BUF_SIZE_def)
  have start: "ring_items (BUF kernel_awake) = []" "SHIFT kernel_awake = False" "trace kernel_awake = [Cpu Sti]"
    by (simp_all add: kernel_awake_def kernel_start_def ring_items_def ring_count_def ring_new_def)
  have arrive: "scancodes (drop 1 ((hlt_trace ?E ^^ 4) [Cpu Sti])) = keystrokes (drafted ?ds) @ []"
    by (simp add: keys hlt_trace_def typing_env_def irq_events_def scancodes_def as_u8.simps PIC_1_OFFSET_def numeral_eq_Suc)
  have "list_all (\<lambda>(slip, c). list_all printable slip \<and> printable c) ?ds" by (simp add: printable_def of_char_def)
  moreover have "fuel ?E = 100" by (simp add: typing_env_def)
  ultimately show ?thesis
    using typed_line_read_back [OF kernel_awake_ok start(1) _ bounded, of 4 ?ds "[]"] arrive
    by (simp add: start draft)
qed

end
