(* ===== verification/Interleaving.thy ===== *)
theory Interleaving
  imports Console "HOL-Library.Sublist"
begin

text \<open>
  A reader of the keyboard buffer (\<^verbatim>\<open>kernel/src/keyboard.rs\<close>) and the interrupts of
  \<^verbatim>\<open>kernel/src/interrupts.rs\<close>, interleaved step by step: what holds in every reachable
  configuration, and the deadlock on the buffer's lock.
\<close>

section \<open>A reader interleaved with interrupts\<close>

text \<open>
  \<open>read_char\<close> takes the lock, pops and drops the guard, with interrupts enabled throughout:
  the processor may take an interrupt before or after each of the three. A configuration is
  where the reader is and the kernel state. A keyboard handler that found the buffer locked
  (\<open>Stuck\<close>) tries the lock again and again; the code it interrupted and further interrupts wait
  until it returns. When it gets the lock it pushes the character of the scancode it had read,
  drops the guard and acknowledges the interrupt.
\<close>

datatype reader_pc = Outside | Holding | Popped "char option"

datatype conf = Running reader_pc kernel | Stuck reader_pc kernel

inductive rstep :: "env \<Rightarrow> conf \<Rightarrow> conf \<Rightarrow> bool" for E where
  acquire: "lock_BUF s = Ret () s' \<Longrightarrow> rstep E (Running Outside s) (Running Holding s')"
| pop: "on_BUF ring_pop s = Ret r s' \<Longrightarrow> rstep E (Running Holding s) (Running (Popped r) s')"
| release: "unlock_BUF s = Ret () s' \<Longrightarrow> rstep E (Running (Popped r) s) (Running Outside s')"
| irq: "irq_vector v \<Longrightarrow> deliver E v s = Ret () s' \<Longrightarrow> rstep E (Running pc s) (Running pc s')"
| irq_stuck: "irq_vector v \<Longrightarrow> deliver E v s = Hang s' \<Longrightarrow> rstep E (Running pc s) (Stuck pc s')"
| spin: "lock_BUF s = Hang s' \<Longrightarrow> rstep E (Stuck pc s) (Stuck pc s')"
| resume: "lock_BUF s = Ret () s1 \<Longrightarrow> scancode_to_char (last (scancodes (trace s))) (SHIFT s) = Some ch \<Longrightarrow>
    run_all [on_BUF (ring_push ch), unlock_BUF, with_PICS (Eoi (as_u8 Keyboard))] s1 = Ret () s' \<Longrightarrow>
    rstep E (Stuck pc s) (Running pc s')"

inductive_cases rstep_StuckE: "rstep E (Stuck pc s) c"

text \<open>While somebody else holds the lock, trying it changes nothing.\<close>

lemma lock_BUF_taken: "BUF_locked s \<Longrightarrow> lock_BUF s = Hang s"
  by (simp add: lock_BUF_def)

abbreviation rsteps :: "env \<Rightarrow> conf \<Rightarrow> conf \<Rightarrow> bool" where
  "rsteps E \<equiv> (rstep E)\<^sup>*\<^sup>*"

fun conf_inv :: "conf \<Rightarrow> bool" where
  "conf_inv (Running pc s) \<longleftrightarrow>
     ring_inv (BUF s) \<and> \<not> PICS_locked s \<and> (BUF_locked s \<longleftrightarrow> pc \<noteq> Outside)"
| "conf_inv (Stuck pc s) \<longleftrightarrow> ring_inv (BUF s) \<and> BUF_locked s \<and> pc \<noteq> Outside"

text \<open>
  A keyboard interrupt that finds the buffer locked leaves it alone when the scancode types
  nothing, and spins for ever, after reading the scancode, when it types a character.
\<close>

lemma deliver_keyboard_locked:
  fixes s :: "'z kernel_scheme" and E :: env
  assumes "BUF_locked s" and "\<not> PICS_locked s"
  defines "k \<equiv> port8 E (trace s) 0x60"
  shows "typed (SHIFT s) [k] = [] \<Longrightarrow> deliver E (as_u8 Keyboard) s =
      Ret () (s\<lparr>SHIFT := shift_after (SHIFT s) [k], trace := trace s @ [In8 0x60 k, Eoi (as_u8 Keyboard)]\<rparr>)"
    and "typed (SHIFT s) [k] \<noteq> [] \<Longrightarrow> deliver E (as_u8 Keyboard) s = Hang (s\<lparr>trace := trace s @ [In8 0x60 k]\<rparr>)"
proof -
  have same: "s\<lparr>trace := t\<rparr> = s\<lparr>SHIFT := SHIFT s, trace := t\<rparr>" for t by (cases s) simp
  note run = keyboard_handler_def handle_scancode_def in8_def run_simps Let_def k_def [symmetric] store_SHIFT_def load_SHIFT_def
  show "deliver E (as_u8 Keyboard) s =
      Ret () (s\<lparr>SHIFT := shift_after (SHIFT s) [k], trace := trace s @ [In8 0x60 k, Eoi (as_u8 Keyboard)]\<rparr>)"
    if "typed (SHIFT s) [k] = []"
    using that assms(2) scancode_to_char_break [of k "SHIFT s"] same unfolding deliver_simps
    by (auto simp: run typed.simps shift_after.simps with_PICS_run split: option.splits if_splits)
  show "deliver E (as_u8 Keyboard) s = Hang (s\<lparr>trace := trace s @ [In8 0x60 k]\<rparr>)" if "typed (SHIFT s) [k] \<noteq> []"
    using that assms(1) scancode_to_char_break [of k "SHIFT s"] unfolding deliver_simps
    by (auto simp: run typed.simps with_BUF_def lock_BUF_def split: option.splits if_splits)
qed

lemma deliver_timer_locked:
  "\<not> PICS_locked s \<Longrightarrow> deliver E (as_u8 Timer) s =
     Ret () (s\<lparr>TICKS := TICKS s + 1, trace := trace s @ [Eoi (as_u8 Timer)]\<rparr>)"
  unfolding deliver_simps by (simp add: timer_handler_def run_simps with_PICS_run)

lemma deliver_keeps_inv:
  assumes "conf_inv (Running pc s)" and "irq_vector v"
  shows "(\<exists>s'. deliver E v s = Ret () s' \<and> conf_inv (Running pc s')) \<or>
    (\<exists>s'. deliver E v s = Hang s' \<and> conf_inv (Stuck pc s'))"
proof (cases "v = as_u8 Timer")
  case True
  then show ?thesis using assms by (auto simp: deliver_timer_locked)
next
  case False
  with assms(2) have v: "v = as_u8 Keyboard" by (simp add: irq_vector_def)
  show ?thesis
  proof (cases "BUF_locked s")
    case True
    then show ?thesis using assms deliver_keyboard_locked [OF True, of E] v by (cases "typed (SHIFT s) [port8 E (trace s) 0x60] = []") auto
  next
    case False
    then have "kernel_ok s" using assms by (auto simp: kernel_ok_def kbd_ok_def)
    then show ?thesis
      using deliver_keyboard [of s E] v False assms by (auto simp: kernel_ok_def kbd_ok_def)
  qed
qed

lemma rstep_inv: "rstep E c c' \<Longrightarrow> conf_inv c \<Longrightarrow> conf_inv c'"
proof (induction rule: rstep.induct)
  case (acquire s s')
  then show ?case by (auto simp: lock_BUF_def split: if_splits)
next
  case (pop s r s')
  then have inv: "ring_inv (BUF s)" by simp
  obtain b where "ring_pop (BUF s) = Ret r b" "s' = s\<lparr>BUF := b\<rparr>"
    using pop by (auto simp: on_BUF_def split: outcome.splits)
  moreover from this have "ring_inv b"
    using kq.pop_empty [OF inv] kq.pop_cons [OF inv] inv by (cases "ring_items (BUF s)") fastforce+
  ultimately show ?case using pop by simp
next
  case (release s s' r)
  then show ?case by (auto simp: unlock_BUF_def)
next
  case (irq v s s' pc)
  then show ?case using deliver_keeps_inv [OF irq.prems irq.hyps(1), of E] by auto
next
  case (irq_stuck v s s' pc)
  then show ?case using deliver_keeps_inv [OF irq_stuck.prems irq_stuck.hyps(1), of E] by auto
qed (simp_all add: lock_BUF_taken)

lemma rsteps_inv: "rsteps E c c' \<Longrightarrow> conf_inv c \<Longrightarrow> conf_inv c'"
  by (induction rule: rtranclp_induct) (auto intro: rstep_inv)

text \<open>A run of the reader with the characters it has popped.\<close>

fun got :: "conf \<Rightarrow> conf \<Rightarrow> string" where
  "got (Running Holding s) (Running (Popped (Some ch)) s') = [ch]"
| "got _ _ = []"

inductive reader_run :: "env \<Rightarrow> conf \<Rightarrow> string \<Rightarrow> conf \<Rightarrow> bool" for E c where
  start: "reader_run E c [] c"
| more: "reader_run E c cs c1 \<Longrightarrow> rstep E c1 c2 \<Longrightarrow> reader_run E c (cs @ got c1 c2) c2"

lemma reader_run_steps: "reader_run E c cs c' \<Longrightarrow> rsteps E c c'"
  by (induction rule: reader_run.induct) auto

text \<open>
  Where the characters are: \<open>cs\<close> popped, the rest buffered, none but those that were buffered in
  \<open>s\<close> or typed since, in that order, and all of them as long as they fit the buffer.
\<close>

abbreviation input_since :: "kernel \<Rightarrow> bus_event list \<Rightarrow> string" where
  "input_since s u \<equiv> ring_items (BUF s) @ typed (SHIFT s) (scancodes u)"

definition flow :: "kernel \<Rightarrow> string \<Rightarrow> kernel \<Rightarrow> bool" where
  "flow s cs t \<longleftrightarrow> ring_cap (BUF t) = ring_cap (BUF s) \<and> (\<exists>u. trace t = trace s @ u \<and>
     SHIFT t = shift_after (SHIFT s) (scancodes u) \<and> subseq (cs @ ring_items (BUF t)) (input_since s u) \<and>
     (length (input_since s u) \<le> ring_cap (BUF s) \<longrightarrow> cs @ ring_items (BUF t) = input_since s u))"

fun conf_flow :: "kernel \<Rightarrow> string \<Rightarrow> conf \<Rightarrow> bool" where
  "conf_flow s cs (Running pc t) \<longleftrightarrow> flow s cs t"
| "conf_flow s cs (Stuck pc t) \<longleftrightarrow> (\<exists>u. trace t = trace s @ u \<and> subseq (cs @ ring_items (BUF t)) (input_since s u))"

lemma flow_refl: "flow s [] s"
  by (simp add: flow_def scancodes_def)

lemma flow_same_buffer: "flow s cs t \<Longrightarrow> flow s cs (t\<lparr>BUF_locked := b\<rparr>)"
  by (simp add: flow_def)

lemma flow_pop:
  assumes "flow s cs t" and "ring_inv (BUF t)" and "ring_pop (BUF t) = Ret r b"
  shows "flow s (cs @ (case r of None \<Rightarrow> [] | Some ch \<Rightarrow> [ch])) (t\<lparr>BUF := b\<rparr>)"
proof (cases "ring_items (BUF t)")
  case Nil
  then have "t\<lparr>BUF := b\<rparr> = t" "r = None" using kq.pop_empty [OF assms(2) Nil] assms(3) by simp_all
  then show ?thesis using assms(1) by simp
next
  case (Cons ch chs)
  then have "r = Some ch" "ring_items b = chs" "ring_cap b = ring_cap (BUF t)"
    using kq.pop_cons [OF assms(2) Cons] assms(3) by auto
  then show ?thesis using assms(1) Cons by (simp add: flow_def)
qed

text \<open>What an interrupt adds to the input.\<close>

lemma deliver_input:
  assumes "conf_inv (Running pc s)" and "irq_vector v" and "deliver E v s = Ret () s'"
  shows "\<exists>w. trace s' = trace s @ w \<and> SHIFT s' = shift_after (SHIFT s) (scancodes w) \<and>
    ring_cap (BUF s') = ring_cap (BUF s) \<and> ring_items (BUF s') = take (ring_cap (BUF s)) (input_since s w)"
proof (cases "BUF_locked s")
  case False
  then have "kernel_ok s" using assms(1) by (auto simp: kernel_ok_def kbd_ok_def)
  from deliver_serviced [OF this assms(2), of E] assms(3) show ?thesis by (auto simp: serviced_def)
next
  case True
  have s: "\<not> PICS_locked s" "length (ring_items (BUF s)) \<le> ring_cap (BUF s)" using assms(1) kq.bounded [of "BUF s"] by auto
  from assms(2) consider "v = as_u8 Timer" | "v = as_u8 Keyboard" by (auto simp: irq_vector_def)
  then show ?thesis
  proof cases
    case 1
    then show ?thesis using assms(3) s by (auto simp: deliver_timer_locked scancodes_def)
  next
    case 2
    let ?k = "port8 E (trace s) 0x60"
    have k: "typed (SHIFT s) [?k] = []" using deliver_keyboard_locked(2) [OF True s(1), of E] assms(3) 2 by force
    from deliver_keyboard_locked(1) [OF True s(1) k] assms(3) 2 s(2) k show ?thesis
      by (intro exI [of _ "[In8 0x60 ?k, Eoi (as_u8 Keyboard)]"]) (auto simp: scancodes_def)
  qed
qed

lemma deliver_blocked:
  assumes "conf_inv (Running pc s)" and "irq_vector v" and "deliver E v s = Hang s'"
  shows "\<exists>w. trace s' = trace s @ w \<and> BUF s' = BUF s"
proof (cases "BUF_locked s")
  case False
  then have "kernel_ok s" using assms(1) by (auto simp: kernel_ok_def kbd_ok_def)
  from deliver_serviced [OF this assms(2), of E] assms(3) show ?thesis by auto
next
  case True
  have s: "\<not> PICS_locked s" using assms(1) by simp
  then have "v = as_u8 Keyboard" using assms(2,3) by (auto simp: irq_vector_def deliver_timer_locked)
  with deliver_keyboard_locked [OF True s, of E] assms(3) show ?thesis
    by (cases "typed (SHIFT s) [port8 E (trace s) 0x60] = []") auto
qed

lemma subseq_input_grows:
  "subseq (cs @ ring_items (BUF t)) (input_since s u) \<Longrightarrow> SHIFT t = shift_after (SHIFT s) (scancodes u) \<Longrightarrow>
   subseq (cs @ take n (input_since t w)) (input_since s (u @ w))"
proof -
  assume a: "subseq (cs @ ring_items (BUF t)) (input_since s u)" "SHIFT t = shift_after (SHIFT s) (scancodes u)"
  have "subseq (take n (input_since t w)) (input_since t w)" by (rule prefix_imp_subseq [OF take_is_prefix])
  then have "subseq (cs @ take n (input_since t w)) (cs @ input_since t w)"
    by (rule list_emb_append_mono [OF subseq_order.refl])
  also have "cs @ input_since t w = (cs @ ring_items (BUF t)) @ typed (SHIFT t) (scancodes w)" by simp
  also have "subseq \<dots> (input_since s u @ typed (SHIFT t) (scancodes w))"
    by (rule list_emb_append_mono [OF a(1) subseq_order.refl])
  finally show ?thesis using a(2) by (simp add: scancodes_append typed_append)
qed

lemma flow_irq:
  assumes "flow s cs t" and "trace t' = trace t @ w" and "SHIFT t' = shift_after (SHIFT t) (scancodes w)"
    and "ring_cap (BUF t') = ring_cap (BUF t)" and "ring_items (BUF t') = take (ring_cap (BUF t)) (input_since t w)"
  shows "flow s cs t'"
proof -
  obtain u where u: "trace t = trace s @ u" "SHIFT t = shift_after (SHIFT s) (scancodes u)"
      "subseq (cs @ ring_items (BUF t)) (input_since s u)" "ring_cap (BUF t) = ring_cap (BUF s)"
      "length (input_since s u) \<le> ring_cap (BUF s) \<longrightarrow> cs @ ring_items (BUF t) = input_since s u"
    using assms(1) by (auto simp: flow_def)
  have "cs @ ring_items (BUF t') = input_since s (u @ w)" if fits: "length (input_since s (u @ w)) \<le> ring_cap (BUF s)"
  proof -
    have all: "cs @ ring_items (BUF t) = input_since s u" using u(5) fits by (simp add: scancodes_append typed_append)
    have "input_since s (u @ w) = cs @ input_since t w"
      by (simp add: scancodes_append typed_append u(2)) (simp only: append_assoc [symmetric] all)
    then show ?thesis using fits by (simp add: assms(5) u(4))
  qed
  moreover have "subseq (cs @ ring_items (BUF t')) (input_since s (u @ w))"
    unfolding assms(5) by (rule subseq_input_grows [OF u(3,2)])
  moreover have "SHIFT t' = shift_after (SHIFT s) (scancodes (u @ w))"
    by (simp only: assms(3) u(2) scancodes_append shift_after_append)
  ultimately show ?thesis using assms(2,4) u(1,4) by (auto simp: flow_def intro!: exI [of _ "u @ w"])
qed

lemma rstep_flow: "rstep E c c' \<Longrightarrow> conf_inv c \<Longrightarrow> conf_flow s cs c \<Longrightarrow> conf_flow s (cs @ got c c') c'"
proof (induction rule: rstep.induct)
  case (acquire t t')
  then show ?case by (auto simp: lock_BUF_def flow_same_buffer split: if_splits)
next
  case (pop t r t')
  then obtain b where "ring_pop (BUF t) = Ret r b" "t' = t\<lparr>BUF := b\<rparr>"
    by (auto simp: on_BUF_def split: outcome.splits)
  then show ?case using flow_pop [of s cs t r b] pop by (cases r) auto
next
  case (release t t' r)
  then show ?case by (auto simp: unlock_BUF_def flow_same_buffer)
next
  case (irq v t t' pc)
  have "got (Running pc t) (Running pc t') = []" by (cases pc) auto
  with deliver_input [OF irq.prems(1) irq.hyps] irq.prems(2) show ?case by (auto intro: flow_irq)
next
  case (irq_stuck v t t' pc)
  obtain w where w: "trace t' = trace t @ w" "BUF t' = BUF t" using deliver_blocked [OF irq_stuck.prems(1) irq_stuck.hyps] by blast
  obtain u where u: "trace t = trace s @ u" "SHIFT t = shift_after (SHIFT s) (scancodes u)"
      "subseq (cs @ ring_items (BUF t)) (input_since s u)"
    using irq_stuck.prems(2) by (auto simp: flow_def)
  have "subseq (cs @ ring_items (BUF t)) (input_since s (u @ w))"
    using subseq_input_grows [OF u(3,2), of "length (ring_items (BUF t))" w] by simp
  then show ?case using w u(1) by (auto intro!: exI [of _ "u @ w"])
qed (simp_all add: lock_BUF_taken)

lemma reader_run_flow:
  assumes "reader_run E (Running Outside s) cs c" and "kernel_ok s"
  shows "conf_inv c" "conf_flow s cs c"
proof -
  have ok: "conf_inv (Running Outside s)" using assms(2) by (simp add: kernel_ok_def kbd_ok_def)
  then show "conf_inv c" using reader_run_steps [OF assms(1)] rsteps_inv by blast
  from assms(1) show "conf_flow s cs c"
  proof (induction rule: reader_run.induct)
    case start
    show ?case by (simp add: flow_refl)
  next
    case (more cs c1 c2)
    have "conf_inv c1" using reader_run_steps [OF more.hyps(1)] rsteps_inv ok by blast
    from rstep_flow [OF more.hyps(2) this more.IH] show ?case .
  qed
qed

text \<open>
  C18. However interrupts interleave with a reader that starts on a well-formed keyboard, in
  every reachable configuration the buffer is well formed and the lock is held exactly while the
  reader is between taking it and dropping the guard; no interrupt panics, and one can block only
  there. What the reader has popped, followed by what is buffered, is a subsequence of what was
  buffered at the start and typed since: nothing is invented, duplicated or reordered. As long as
  no interrupt has blocked and the input fits the buffer, it is all of it: nothing is lost.
\<close>

theorem reader_interrupt_safety:
  assumes "reader_run E (Running Outside s) cs c" and "kernel_ok s"
  shows "conf_inv c \<and>
    (\<forall>pc t v. c = Running pc t \<longrightarrow> irq_vector v \<longrightarrow>
       (\<exists>t'. deliver E v t = Ret () t') \<or> (pc \<noteq> Outside \<and> (\<exists>t'. deliver E v t = Hang t'))) \<and>
    (\<forall>pc t. c = Running pc t \<or> c = Stuck pc t \<longrightarrow> (\<exists>u. trace t = trace s @ u \<and>
       subseq (cs @ ring_items (BUF t)) (ring_items (BUF s) @ typed (SHIFT s) (scancodes u)) \<and>
       (c = Running pc t \<longrightarrow> length (ring_items (BUF s) @ typed (SHIFT s) (scancodes u)) \<le> ring_cap (BUF s) \<longrightarrow>
          cs @ ring_items (BUF t) = ring_items (BUF s) @ typed (SHIFT s) (scancodes u))))"
proof -
  note run = reader_run_flow [OF assms]
  have "(\<exists>t'. deliver E v t = Ret () t') \<or> (pc \<noteq> Outside \<and> (\<exists>t'. deliver E v t = Hang t'))"
    if "c = Running pc t" "irq_vector v" for pc t v
    using deliver_keeps_inv [of pc t v E] run(1) that by fastforce
  with run show ?thesis by (cases c) (auto simp: flow_def)
qed

text \<open>The key \<open>a\<close> is pressed before the reader takes the lock; the reader pops the character.\<close>

theorem reader_interrupt_safety_witness:
  "\<exists>c t. reader_run (scancode_env [0x1E]) (Running Outside kernel_start) ''a'' c \<and> kernel_ok kernel_start \<and>
     c = Running (Popped (Some CHR ''a'')) t \<and> ring_items (BUF t) = []"
proof -
  let ?E = "scancode_env [0x1E]"
  have k: "port8 ?E [] 0x60 = 0x1E" "typed False [0x1E] = ''a''" "ring_items (BUF kernel_start) = []"
      "ring_cap (BUF kernel_start) = 255" "SHIFT kernel_start = False" "trace kernel_start = []"
    by (simp_all add: scancode_env_def kernel_start_def typed.simps scancode_to_char_def scancode_table_def
        ring_items_def ring_count_def ring_new_def BUF_SIZE_def ring_cap_def)
  obtain s1 where s1: "deliver ?E (as_u8 Keyboard) kernel_start = Ret () s1" "kernel_ok s1"
      "trace s1 = [In8 0x60 0x1E, Eoi (as_u8 Keyboard)]" "ring_items (BUF s1) = ''a''"
    using deliver_keyboard [OF kernel_start_ok, of ?E] by (auto simp: k)
  have ok: "\<not> BUF_locked s1" "ring_inv (BUF s1)" using s1(2) by (simp_all add: kernel_ok_def kbd_ok_def)
  obtain b where b: "ring_pop (BUF s1) = Ret (Some CHR ''a'') b" using kq.pop_cons [OF ok(2) s1(4)] by blast
  let ?t = "s1\<lparr>BUF_locked := True, BUF := b\<rparr>"
  let ?c = "Running (Popped (Some CHR ''a'')) ?t"
  have "rstep ?E (Running Outside kernel_start) (Running Outside s1)"
    by (rule rstep.irq [OF _ s1(1)]) (simp add: irq_vector_def)
  moreover have "rstep ?E (Running Outside s1) (Running Holding (s1\<lparr>BUF_locked := True\<rparr>))"
    by (rule rstep.acquire) (simp add: lock_BUF_def ok(1))
  moreover have "rstep ?E (Running Holding (s1\<lparr>BUF_locked := True\<rparr>)) ?c"
    by (rule rstep.pop) (simp add: on_BUF_def b)
  ultimately have run: "reader_run ?E (Running Outside kernel_start) ''a'' ?c"
    using reader_run.more [OF reader_run.more [OF reader_run.more [OF reader_run.start]]] by fastforce
  have "ring_items (BUF ?t) = []"
    using reader_interrupt_safety [OF run kernel_start_ok] s1(3) k(2-6) by (auto simp: scancodes_def)
  with run kernel_start_ok show ?thesis by blast
qed

text \<open>
  C19. The reader can deadlock the kernel. With interrupts enabled, take any configuration of a
  reader that has taken the lock and not dropped it yet. A keyboard interrupt whose scancode types
  a character never returns there: the handler spins on the lock that the code it interrupted
  holds, its attempts go on for ever and nothing else ever happens. A scancode that types nothing
  (a shift key, a key release, a key without a character) is handled without the lock, and the
  interrupt returns.
\<close>

theorem reader_interrupt_deadlock:
  assumes "reader_run E (Running Outside s) cs (Running pc t)" and "kernel_ok s" and "interrupts_on s" and "pc \<noteq> Outside"
  shows "interrupts_on t \<and>
    (if typed (SHIFT t) [port8 E (trace t) 0x60] \<noteq> []
     then \<exists>t'. deliver E (as_u8 Keyboard) t = Hang t' \<and> rstep E (Running pc t) (Stuck pc t') \<and>
       rstep E (Stuck pc t') (Stuck pc t') \<and> (\<forall>c. rsteps E (Stuck pc t') c \<longrightarrow> c = Stuck pc t')
     else \<exists>t'. deliver E (as_u8 Keyboard) t = Ret () t' \<and> rstep E (Running pc t) (Running pc t'))"
proof -
  have inv: "conf_inv (Running pc t)" and "flow s cs t"
    using reader_run_flow [OF assms(1,2)] by simp_all
  then have on: "interrupts_on t" using assms(3) by (auto simp: flow_def)
  have lock: "BUF_locked t" "\<not> PICS_locked t" using inv assms(4) by simp_all
  have kb: "irq_vector (as_u8 Keyboard)" by (simp add: irq_vector_def)
  let ?k = "port8 E (trace t) 0x60"
  show ?thesis
  proof (cases "typed (SHIFT t) [?k] = []")
    case True
    note run = deliver_keyboard_locked(1) [OF lock True]
    from on True run rstep.irq [OF kb run, of pc] show ?thesis by auto
  next
    case False
    note run = deliver_keyboard_locked(2) [OF lock False]
    let ?t = "t\<lparr>trace := trace t @ [In8 0x60 ?k]\<rparr>"
    have held: "lock_BUF ?t = Hang ?t" by (rule lock_BUF_taken) (simp add: lock(1))
    have only: "c = Stuck pc ?t" if "rsteps E (Stuck pc ?t) c" for c
      using that
    proof (induction rule: rtranclp_induct)
      case (step c c')
      from step.hyps(2) show ?case unfolding step.IH by (rule rstep_StuckE) (simp_all add: held)
    qed simp
    from on False run rstep.irq_stuck [OF kb run, of pc] rstep.spin [OF held, of E pc] only show ?thesis by auto
  qed
qed

text \<open>The reader has taken the lock; then the key \<open>a\<close> is pressed.\<close>

theorem reader_interrupt_deadlock_witness:
  "\<exists>t t'. rsteps (typing_env [0x1E]) (Running Outside kernel_awake) (Running Holding t) \<and>
     rstep (typing_env [0x1E]) (Running Holding t) (Stuck Holding t') \<and>
     (\<forall>c. rsteps (typing_env [0x1E]) (Stuck Holding t') c \<longrightarrow> c = Stuck Holding t')"
proof -
  let ?E = "typing_env [0x1E]" and ?t = "kernel_awake\<lparr>BUF_locked := True\<rparr>"
  have "lock_BUF kernel_awake = Ret () ?t" by (simp add: lock_BUF_def kernel_awake_def kernel_start_def)
  then have "reader_run ?E (Running Outside kernel_awake) ([] @ got (Running Outside kernel_awake) (Running Holding ?t)) (Running Holding ?t)"
    by (intro reader_run.more [OF reader_run.start] rstep.acquire)
  then have run: "reader_run ?E (Running Outside kernel_awake) [] (Running Holding ?t)" by simp
  have "typed (SHIFT ?t) [port8 ?E (trace ?t) 0x60] \<noteq> []"
    by (simp add: kernel_awake_def kernel_start_def typing_env_def scancodes_def typed.simps scancode_to_char_def scancode_table_def)
  then show ?thesis
    using reader_interrupt_deadlock [OF run kernel_awake_ok] reader_run_steps [OF run] by auto
qed

end
