(* ===== verification/Spec2Isabelle.thy ===== *)
theory Spec2Isabelle
  imports Panic_Safety Image_Builder Typing Interleaving
begin

text \<open>
  A model of \<^verbatim>\<open>punkos\<close>, a small x86-64 kernel written in Rust, with the theorems that make its
  parts correct. Paths below are relative to \<^verbatim>\<open>src/\<close>.

  \<^bold>\<open>The program.\<close> The bootloader enters \<open>kernel_main\<close> (\<^verbatim>\<open>kernel/src/main.rs\<close>), which brings up in
  turn the serial log, the screen, the segment and interrupt tables, paging and the heap, the
  timer, the PCI bus, the USB controller and the keyboard, and then draws an animation for ever.
  Every part logs to the serial port. The keyboard interrupt fills a ring buffer that \<open>read_line\<close>
  and the animation empty; the timer interrupt advances the tick counter that the boot waits for
  and the animation is paced by; the heap is backed by frames of the boot frame allocator; the USB
  driver takes its registers from a base address register found by the bus scan, its memory from
  the heap and the physical addresses of that memory from a walk of the page tables. A build
  script (\<^verbatim>\<open>os/build.rs\<close>) makes disk images of the kernel, and a host program
  (\<^verbatim>\<open>os/src/main.rs\<close>) starts one of them in an emulator.

  \<^bold>\<open>How code is modelled.\<close> A function that acts on state is a \<open>prog\<close> of \<open>Prelude\<close>: from a state it
  gives \<open>Ret\<close> with a result, \<open>Panic\<close> with the reason (an overflow, since the crates build with
  Rust's debug arithmetic, an index out of range, a failed \<open>assert!\<close> or \<open>expect\<close>), or \<open>Hang\<close>, the
  state of a loop that is still running. Methods that take \<open>&mut self\<close> have their object as
  the state (\<open>ring_buffer\<close>, \<open>frame_allocator\<close>, \<open>canvas\<close>, the bytes of the framebuffer) and are lifted into the
  kernel state, an extensible record: \<open>machine\<close> (the trace), \<open>kbd\<close>, \<open>kernel\<close>, \<open>screen\<close>, which are the
  statics of the sources. Machine integers are words; \<open>usize\<close> and \<open>isize\<close> lengths are numbers with
  explicit range checks.
  Every access to a device or to memory shared with one is an event of the trace, and an
  environment answers reads as a function of the trace (\<open>Hardware\<close>). Environments are arguments:
  what a property needs of a device is one of its hypotheses, and its witness gives an environment
  that satisfies them. The crates \<^verbatim>\<open>x86_64\<close>, \<^verbatim>\<open>pic8259\<close>, \<^verbatim>\<open>linked_list_allocator\<close> and
  \<^verbatim>\<open>bootloader_api\<close> are not part of the sources: they are arguments too (\<open>x86_crate\<close>, \<open>gdt_crate\<close>,
  \<open>mapper_ops\<close>, \<open>platform\<close>, \<open>boot_info\<close>) with their documented behaviour as hypotheses
  (\<open>x86_documented\<close> and others), or, where the code only calls them, events of the trace.

  \<^bold>\<open>Fuel.\<close> Busy-wait loops run at most \<open>fuel E\<close> times, and the loop that ends a boot, the animation
  or \<open>hcf\<close>, is observed for \<open>n\<close> passes.
  A property that says that code returns assumes that the device answers within some number of
  reads and that the fuel is larger, so it holds for every larger fuel. The one bounded loop
  of the sources, the million polls of \<open>noop\<close>, has its own bound. The other loops end by
  structural recursion.

  \<^bold>\<open>Interrupts.\<close> Vectors are delivered where the CPU halts (\<open>hlt\<close>), to the handler that the
  loaded table has for them. The bootloader enters the kernel with interrupts off: until the trace
  has an \<open>sti\<close> (\<open>interrupts_on\<close>) nothing ends a halt, so that the wait for ten ticks, the readers and
  the animation depend on \<open>interrupts_init\<close> having run. Exception handlers run with interrupts off,
  where \<open>hcf\<close> stops at its first halt (\<open>hcf_masked\<close>); elsewhere its loop goes on servicing interrupts.
  Interrupts at any other point matter where code and handler share a
  lock: \<open>Interleaving\<close> has a step relation of the reader and the interrupts, interleaved
  arbitrarily.

  \<^bold>\<open>The theories.\<close>
  \<^item> \<open>Prelude\<close>: outcomes, combinators, checked arithmetic, weakest preconditions, and two locales for
    contracts that compose: \<open>framed\<close> (code that returns and leaves the rest alone), interpreted for
    bus scans in \<open>Pci\<close>, and \<open>graded\<close> (code that returns with an account of what it did, accounts adding up
    over sequences), interpreted for boot stages and their log in \<open>Boot_Stages\<close>; code with an empty account
    is framed, by a sublocale. \<open>Hardware\<close>: events, environments, port, register and memory accesses.
  \<^item> \<open>Serial\<close> (\<^verbatim>\<open>serial.rs\<close>): \<open>serial_init\<close>, \<open>write_str\<close>, the printing macros and the formats they use. The
    UART is set to 38400 baud 8N1, and every byte is sent after the transmitter was seen empty.
  \<^item> \<open>Keyboard\<close> (\<^verbatim>\<open>keyboard.rs\<close>): the ring buffer, scancodes and shift. The buffer refines a bounded
    queue, an interface stated as the locale \<open>bounded_queue\<close> and interpreted on \<open>ring_push\<close> and
    \<open>ring_pop\<close>: any sequence of pushes and pops answers as a bounded list does; key map, typing by interrupts.
  \<^item> \<open>Interrupts\<close> (\<^verbatim>\<open>interrupts.rs\<close>): the table, the timer, the handlers, what a halt services, and the loop
    of halts that parks the processor.
  \<^item> \<open>Console\<close> (\<^verbatim>\<open>keyboard.rs\<close>): \<open>read_char_blocking\<close> and \<open>read_line\<close>, and the line they return.
  \<^item> \<open>Interleaving\<close>: a reader interleaved with interrupts as a step relation. In every reachable
    configuration nothing is invented or reordered, nor lost while the input fits, but a keystroke
    that types a character while the reader holds the lock deadlocks.
  \<^item> \<open>Typing\<close>: the keystrokes of a text, and the round trip through key map, interrupts, buffer and
    reader: a line typed with shift and with erased slips is the line that is read.
  \<^item> \<open>Gdt\<close> (\<^verbatim>\<open>gdt.rs\<close>): the descriptor table and the task state segment that are loaded.
  \<^item> \<open>Memory\<close> (\<^verbatim>\<open>memory.rs\<close>): the frame allocator, as the locale \<open>frame_source\<close> that promises distinct
    frames (those handed out are exactly the page boundaries in usable regions), and \<open>virt_to_phys\<close> against a specification of the page-table walk.
  \<^item> \<open>Allocator\<close> (\<^verbatim>\<open>allocator.rs\<close>): \<open>init_heap\<close>, proved for every \<open>frame_source\<close> and applied to the boot
    frame allocator: each heap page is mapped to a frame of its own.
  \<^item> \<open>Framebuffer\<close> (\<^verbatim>\<open>framebuffer.rs\<close>) and \<open>Render\<close> (\<^verbatim>\<open>render.rs\<close>): pixels, blending, discs, frames. No
    arithmetic overflow and no access out of range; after each pass the screen shows the bubbles.
  \<^item> \<open>Pci\<close> (\<^verbatim>\<open>pci.rs\<close>): configuration accesses, base address registers, the scan. The devices returned
    are exactly the functions present, each once, in order.
  \<^item> \<open>Xhci_Registers\<close>, \<open>Xhci_Rings\<close>, \<open>Xhci\<close> (\<^verbatim>\<open>xhci.rs\<close>): register addresses and accessors; transfer
    request blocks, rings, the segment table and the device context array; \<open>Controller::init\<close>,
    \<open>noop\<close> and \<open>initialise_ports\<close>. With a controller that responds, bring-up returns and the registers
    name the memory that was allocated; \<open>push\<close> refines the update of a slot; \<open>noop\<close> ends; the ports
    are counted and reset. Against the register semantics of the controller, further theorems
    show what the driver leaves wrong.
  \<^item> \<open>Boot\<close> (\<^verbatim>\<open>main.rs\<close>): the stages of \<open>kernel_main\<close>, the panic handler, the configuration and the entry
    point. The timer stage ends, and the USB stage frees live memory.
  \<^item> \<open>Boot_Stages\<close>: each stage returns on a machine whose parts answer, with the lines it logs.
  \<^item> \<open>Boot_Complete\<close>: the stages together. On a machine whose console, memory, bus and USB controllers
    answer, the kernel gets through every stage without a panic, logs the lines of all stages in
    order and shows the animation. Without a mapping of the physical memory it stops with one panic
    line after the tables; without a framebuffer it runs every stage and parks. Stages that halt
    need interrupts enabled, and the timer stage enables them (\<open>completes\<close>, \<open>wakes\<close>). The hypotheses are
    shown satisfiable by a machine with one USB controller.
  \<^item> \<open>Panic_Safety\<close>: what holds of every boot. All code of the kernel keeps the keyboard buffer and
    the locks well formed in every outcome (\<open>stays\<close>, one rule for each construct and each function), so
    the entry point neither returns nor ends in an unhandled panic, and after a panic of any stage
    its line is printed and the processor parked.
  \<^item> \<open>Launcher\<close> (\<^verbatim>\<open>os/src/main.rs\<close>): the command line, the search for the emulator and the exit codes.
  \<^item> \<open>Image_Builder\<close> (\<^verbatim>\<open>os/build.rs\<close>): the build script; what it builds is what the launcher starts.

  \<^bold>\<open>Not modelled.\<close> The crates themselves, the bootloader that makes the disk images among them; the memory that \<open>Box\<close> and \<open>Vec\<close> allocate for the kernel's own values, which is taken to succeed;
  the overflow of counters of objects in memory (the index of the next frame, vector lengths);
  memory ordering; the time instructions take; interrupts other than at a halt, except for the
  interleaving above. The text of a panic message is what the environment's \<open>debug_text\<close> says.
\<close>

end
